(* ===== verification/Prelude.thy ===== *)
theory Prelude
  imports Complex_Main "HOL-Library.Word" "HOL-Library.Monad_Syntax"
begin

text \<open>
  What every component of the model shares: the names of Rust's integer types, the
  overflow behaviour of the two build profiles, the byte order conversions of the
  standard library, and the error values of \<open>std::io\<close>.

  \<^item> \<open>u8\<close>, \<open>u16\<close>, \<open>u32\<close>, \<open>u64\<close> and \<open>usize\<close> (64-bit targets) are words of that
    width; \<open>i64\<close> is the same word read with \<open>sint\<close>.
  \<^item> Rust's \<open>+\<close>, \<open>-\<close> and \<open>*\<close> panic on overflow in a debug build and wrap in a
    release build (\<open>Cargo.toml\<close> leaves \<open>overflow-checks\<close> at its default), so the
    operations take the profile and return an option, with \<open>None\<close> for the panic.
  \<^item> \<open>to_le\<close> and \<open>from_le\<close> are \<open>to_le_bytes\<close> and \<open>from_le_bytes\<close>; the big-endian
    pair reverses them.
\<close>

unbundle bit_operations_syntax

section \<open>Collections of facts\<close>

named_theorems chk_simps \<open>the value of a checked operation that does not overflow\<close>
named_theorems byte_simps \<open>byte order conversions and their inverses\<close>

section \<open>Integers\<close>

type_synonym u8 = "8 word"
type_synonym u16 = "16 word"
type_synonym u32 = "32 word"
type_synonym u64 = "64 word"
type_synonym usize = "64 word"
type_synonym i64 = "64 word"
type_synonym bytes = "u8 list"

datatype profile = Debug | Release

definition uadd :: "profile \<Rightarrow> 'a::len word \<Rightarrow> 'a word \<Rightarrow> 'a word option" where
  "uadd p a b = (if p = Debug \<and> 2 ^ LENGTH('a) \<le> unat a + unat b then None else Some (a + b))"

definition usub :: "profile \<Rightarrow> 'a::len word \<Rightarrow> 'a word \<Rightarrow> 'a word option" where
  "usub p a b = (if p = Debug \<and> a < b then None else Some (a - b))"

definition umul :: "profile \<Rightarrow> 'a::len word \<Rightarrow> 'a word \<Rightarrow> 'a word option" where
  "umul p a b = (if p = Debug \<and> 2 ^ LENGTH('a) \<le> unat a * unat b then None else Some (a * b))"

text \<open>Signed subtraction and \<open>i64::abs\<close>, on words read as two's complement.\<close>

definition ssub :: "profile \<Rightarrow> i64 \<Rightarrow> i64 \<Rightarrow> i64 option" where
  "ssub p a b =
     (if p = Debug \<and> \<not> (- (2 ^ 63) \<le> sint a - sint b \<and> sint a - sint b < 2 ^ 63)
      then None else Some (a - b))"

definition sabs :: "profile \<Rightarrow> i64 \<Rightarrow> i64 option" where
  "sabs p a =
     (if p = Debug \<and> sint a = - (2 ^ 63) then None
      else Some (if sint a < 0 then - a else a))"

definition saturating_sub :: "'a::len word \<Rightarrow> 'a word \<Rightarrow> 'a word" where
  "saturating_sub a b = (if a < b then 0 else a - b)"

text \<open>The checks, in a form that evaluates on binary integers.\<close>

lemma uadd_code [code]:
  "uadd p a b = (if p = Debug \<and> 2 ^ LENGTH('a) \<le> uint a + uint b then None else Some (a + b))"
  for a b :: "'a::len word"
  using of_nat_le_iff [of "2 ^ LENGTH('a)" "unat a + unat b", where 'a = int] by (simp add: uadd_def)

lemma umul_code [code]:
  "umul p a b = (if p = Debug \<and> 2 ^ LENGTH('a) \<le> uint a * uint b then None else Some (a * b))"
  for a b :: "'a::len word"
  using of_nat_le_iff [of "2 ^ LENGTH('a)" "unat a * unat b", where 'a = int] by (simp add: umul_def)

text \<open>\<open>iter().sum()\<close> adds from the left with the profile's addition.\<close>

fun usum_from :: "profile \<Rightarrow> 'a::len word \<Rightarrow> 'a word list \<Rightarrow> 'a word option" where
  "usum_from p acc [] = Some acc"
| "usum_from p acc (w # ws) = do { acc' \<leftarrow> uadd p acc w; usum_from p acc' ws }"

definition usum :: "profile \<Rightarrow> 'a::len word list \<Rightarrow> 'a word option" where
  "usum p ws = usum_from p 0 ws"

lemma uadd_Release [chk_simps]: "uadd Release a b = Some (a + b)"
  by (simp add: uadd_def)

lemma usub_Release [chk_simps]: "usub Release a b = Some (a - b)"
  by (simp add: usub_def)

lemma umul_Release [chk_simps]: "umul Release a b = Some (a * b)"
  by (simp add: umul_def)

lemma ssub_Release [chk_simps]: "ssub Release a b = Some (a - b)"
  by (simp add: ssub_def)

lemma sabs_Release [chk_simps]: "sabs Release a = Some (if sint a < 0 then - a else a)"
  by (simp add: sabs_def)

lemma uadd_ok [chk_simps]:
  "unat (a::'a::len word) + unat b < 2 ^ LENGTH('a) \<Longrightarrow> uadd p a b = Some (a + b)"
  by (simp add: uadd_def)

lemma usub_ok [chk_simps]: "b \<le> a \<Longrightarrow> usub p a b = Some (a - b)"
  by (auto simp: usub_def not_less)

lemma umul_ok [chk_simps]:
  "unat (a::'a::len word) * unat b < 2 ^ LENGTH('a) \<Longrightarrow> umul p a b = Some (a * b)"
  by (simp add: umul_def)

lemma uadd_SomeD: "uadd p a b = Some c \<Longrightarrow> c = a + b"
  by (simp add: uadd_def split: if_splits)

lemma usub_SomeD: "usub p a b = Some c \<Longrightarrow> c = a - b"
  by (simp add: usub_def split: if_splits)

lemma uadd_Debug_unat: "uadd Debug a b = Some c \<Longrightarrow> unat c = unat a + unat b"
  by (auto simp: uadd_def unat_word_ariths split: if_splits)

lemma unat_add_exact:
  "unat (a::'a::len word) + unat b < 2 ^ LENGTH('a) \<Longrightarrow> unat (a + b) = unat a + unat b"
  by (simp add: unat_word_ariths)

lemma unat_mult_exact:
  "unat (a::'a::len word) * unat b < 2 ^ LENGTH('a) \<Longrightarrow> unat (a * b) = unat a * unat b"
  by (simp add: unat_word_ariths)

lemma unat_saturating_sub: "unat (saturating_sub a b) = unat a - unat b"
  by (auto simp: saturating_sub_def word_less_nat_alt unat_sub word_le_nat_alt)

lemma saturating_sub_le: "saturating_sub a b \<le> a"
  by (simp add: word_le_nat_alt unat_saturating_sub)

lemma saturating_sub_0 [simp]: "saturating_sub a 0 = a"
  by (simp add: saturating_sub_def)

lemma unat_max_word: "unat (max a b) = max (unat a) (unat b)" for a b :: "'a::len word"
  by (auto simp: max_def word_le_nat_alt)

lemma unat_min_word: "unat (min a b) = min (unat a) (unat b)" for a b :: "'a::len word"
  by (auto simp: min_def word_le_nat_alt)

lemma usum_from_ok:
  assumes "unat (acc::'a::len word) + sum_list (map unat ws) < 2 ^ LENGTH('a)"
  shows "\<exists>s. usum_from p acc ws = Some s \<and> unat s = unat acc + sum_list (map unat ws)"
  using assms
proof (induction ws arbitrary: acc)
  case Nil
  then show ?case by simp
next
  case (Cons w ws)
  then have le: "unat acc + unat w < 2 ^ LENGTH('a)" by simp
  then have eq: "unat (acc + w) = unat acc + unat w" by (rule unat_add_exact)
  with Cons.prems have "unat (acc + w) + sum_list (map unat ws) < 2 ^ LENGTH('a)" by simp
  from Cons.IH [OF this] le eq show ?case by (auto simp: uadd_ok)
qed

lemma usum_ok:
  "sum_list (map unat ws) < 2 ^ LENGTH('a) \<Longrightarrow>
     \<exists>s. usum p (ws::'a::len word list) = Some s \<and> unat s = sum_list (map unat ws)"
  using usum_from_ok [of 0 ws p] by (simp add: usum_def)

section \<open>Byte order\<close>

fun to_le :: "nat \<Rightarrow> 'a::len word \<Rightarrow> bytes" where
  "to_le 0 w = []"
| "to_le (Suc n) w = ucast w # to_le n (drop_bit 8 w)"

fun from_le :: "bytes \<Rightarrow> 'a::len word" where
  "from_le [] = 0"
| "from_le (b # bs) = (ucast b OR push_bit 8 (from_le bs))"

definition u64_to_le :: "u64 \<Rightarrow> bytes" where
  "u64_to_le w = to_le 8 w"

definition u32_to_be :: "u32 \<Rightarrow> bytes" where
  "u32_to_be w = rev (to_le 4 w)"

definition u32_from_be :: "bytes \<Rightarrow> u32" where
  "u32_from_be bs = from_le (rev bs)"

lemma length_to_le [simp, byte_simps]: "length (to_le n w) = n"
  by (induction n arbitrary: w) simp_all

lemma from_le_to_le: "from_le (to_le n w) = take_bit (8 * n) w"
proof (induction n arbitrary: w)
  case 0
  then show ?case by simp
next
  case (Suc n)
  show ?case
    by (simp add: Suc.IH, rule bit_word_eqI)
       (auto simp: bit_simps dest: bit_imp_le_length)
qed

lemma to_le_from_le:
  "8 * length bs \<le> LENGTH('a::len) \<Longrightarrow> to_le (length bs) (from_le bs :: 'a word) = bs"
proof (induction bs)
  case Nil
  then show ?case by simp
next
  case (Cons b bs)
  have hd: "ucast (ucast b OR push_bit 8 (from_le bs) :: 'a word) = b"
    using Cons.prems by (intro bit_word_eqI) (auto simp: bit_simps)
  have "drop_bit 8 (ucast b OR push_bit 8 (from_le bs) :: 'a word)
      = take_bit (LENGTH('a) - 8) (from_le bs)"
    by (rule bit_word_eqI) (auto simp: bit_simps dest: bit_imp_le_length)
  moreover have "to_le (length bs) (take_bit (LENGTH('a) - 8) (from_le bs :: 'a word)) = bs"
  proof -
    have "to_le n (take_bit k w) = to_le n w" if "8 * n \<le> k" for n k and w :: "'a word"
      using that
    proof (induction n arbitrary: k w)
      case 0
      then show ?case by simp
    next
      case (Suc n)
      then have "ucast (take_bit k w) = (ucast w :: u8)"
        by (intro bit_word_eqI) (auto simp: bit_simps)
      moreover have "drop_bit 8 (take_bit k w) = take_bit (k - 8) (drop_bit 8 w)"
        by (rule bit_word_eqI) (auto simp: bit_simps)
      ultimately show ?case using Suc by simp
    qed
    then show ?thesis using Cons by simp
  qed
  ultimately show ?case using hd by simp
qed

lemma u64_from_le_to_le [simp, byte_simps]: "from_le (u64_to_le w) = (w :: u64)"
  by (simp add: u64_to_le_def from_le_to_le take_bit_word_eq_self)

lemma length_u64_to_le [simp, byte_simps]: "length (u64_to_le w) = 8"
  by (simp add: u64_to_le_def)

lemma length_u32_to_be [simp, byte_simps]: "length (u32_to_be w) = 4"
  by (simp add: u32_to_be_def)

lemma u32_from_be_to_be [simp, byte_simps]: "u32_from_be (u32_to_be w) = w"
  by (simp add: u32_to_be_def u32_from_be_def from_le_to_le take_bit_word_eq_self)

lemma u32_to_be_from_be: "length bs = 4 \<Longrightarrow> u32_to_be (u32_from_be bs) = bs"
  using to_le_from_le [of "rev bs", where 'a = 32]
  by (simp add: u32_to_be_def u32_from_be_def)

section \<open>Text\<close>

text \<open>Decimal digits of a number, at least one, and padding with zeros or spaces on the left.\<close>

definition digit_char :: "nat \<Rightarrow> char" where
  "digit_char d = char_of (48 + d)"

fun show_nat :: "nat \<Rightarrow> string" where
  "show_nat n = (if n < 10 then [digit_char n] else show_nat (n div 10) @ [digit_char (n mod 10)])"

declare show_nat.simps [simp del]

definition pad_left :: "char \<Rightarrow> nat \<Rightarrow> string \<Rightarrow> string" where
  "pad_left c width s = replicate (width - length s) c @ s"

definition hex_digit :: "nat \<Rightarrow> char" where
  "hex_digit d = (if d < 10 then char_of (48 + d) else char_of (87 + d))"

lemma show_nat_nonempty [simp]: "show_nat n \<noteq> []"
  by (subst show_nat.simps) simp

section \<open>Errors\<close>

text \<open>
  An \<open>io::Error\<close> is its kind and its message. The kinds are those the code creates
  or receives; \<open>Os\<close> stands for any other kind the operating system reports.
\<close>

datatype io_kind = InvalidData | UnexpectedEof | OtherKind | Os int

datatype io_error = IoError (kind: io_kind) (message: string)

text \<open>What stops a function early: a panic (the message of the panic) or an \<open>io::Error\<close>.\<close>

datatype fault = Panic string | Io io_error

type_synonym 'a io_result = "io_error + 'a"
type_synonym 'a outcome = "fault + 'a"

definition or_panic :: "'a option \<Rightarrow> 'a outcome" where
  "or_panic x = (case x of None \<Rightarrow> Inl (Panic ''arithmetic overflow'') | Some v \<Rightarrow> Inr v)"

definition lift_io :: "'a io_result \<Rightarrow> 'a outcome" where
  "lift_io r = (case r of Inl e \<Rightarrow> Inl (Io e) | Inr v \<Rightarrow> Inr v)"

lemma or_panic_simps [simp]:
  "or_panic None = Inl (Panic ''arithmetic overflow'')" "or_panic (Some v) = Inr v"
  by (simp_all add: or_panic_def)

lemma lift_io_simps [simp]: "lift_io (Inl e) = Inl (Io e)" "lift_io (Inr v) = Inr v"
  by (simp_all add: lift_io_def)

text \<open>The operator \<open>?\<close> and the propagation of panics: the first failure ends the function.\<close>

definition and_then :: "'e + 'a \<Rightarrow> ('a \<Rightarrow> 'e + 'b) \<Rightarrow> 'e + 'b" where
  "and_then r f = (case r of Inl e \<Rightarrow> Inl e | Inr v \<Rightarrow> f v)"

lemma and_then_simps [simp]: "and_then (Inl e) f = Inl e" "and_then (Inr v) f = f v"
  by (simp_all add: and_then_def)

lemma and_then_Inr: "and_then r f = Inr y \<longleftrightarrow> (\<exists>v. r = Inr v \<and> f v = Inr y)"
  by (cases r) simp_all

lemma and_then_Inl: "and_then r f = Inl e \<longleftrightarrow> r = Inl e \<or> (\<exists>v. r = Inr v \<and> f v = Inl e)"
  by (cases r) simp_all

lemma or_panic_Inr [simp]: "or_panic x = Inr v \<longleftrightarrow> x = Some v"
  by (cases x) simp_all

lemma lift_io_Inr [simp]: "lift_io r = Inr v \<longleftrightarrow> r = Inr v"
  by (cases r) simp_all

text \<open>
  \<open>write_all\<close> on a buffer: it succeeds, or fails after some number of bytes of the buffer have gone
  out; what the stream has then carried of it.
\<close>

type_synonym write_result = "(io_error \<times> nat) + unit"

definition written :: "bytes \<Rightarrow> write_result \<Rightarrow> bytes" where
  "written buf w = (case w of Inl (e, k) \<Rightarrow> take k buf | Inr _ \<Rightarrow> buf)"

lemma written_simps [simp]: "written buf (Inl (e, k)) = take k buf" "written buf (Inr u) = buf"
  by (simp_all add: written_def)

lemma written_prefix: "\<exists>rest. buf = written buf w @ rest"
  by (cases w) (metis append_take_drop_id prod.exhaust written_simps(1), simp)

text \<open>\<open>vec![0u8; n]\<close>; a vector of more than \<open>isize::MAX\<close> bytes panics.\<close>

definition zeroed_vec :: "usize \<Rightarrow> bytes outcome" where
  "zeroed_vec n =
     (if 2 ^ 63 \<le> unat n then Inl (Panic ''capacity overflow'') else Inr (replicate (unat n) 0))"

end
