(* ===== verification/F64.thy ===== *)
theory F64
  imports Prelude
begin

text \<open>
  IEEE 754 binary64, Rust's \<open>f64\<close>, as far as the program uses it. A finite value is
  the rational number it denotes; \<open>Fin 0\<close> is the positive zero and \<open>NegZero\<close> the
  negative one. Every operation computes the exact rational result and rounds it once,
  to nearest with ties to even (\<open>fl\<close>), which is what the standard prescribes.

  \<open>ilog2\<close> is the binary exponent of a positive rational, \<open>fl\<close> rounds to 53 significant
  bits above the subnormal range and to multiples of \<open>2 powi -1074\<close> inside it, and
  \<open>round64\<close> adds the overflow to an infinity and the sign of a zero result.

  What the components use of rounding is the interface \<open>rounding\<close> (monotone, symmetric,
  exact on small integers), stated as a locale and interpreted on \<open>fl\<close>.
\<close>

section \<open>Rounding to the binary64 grid\<close>

fun nbits :: "int \<Rightarrow> int" where
  "nbits n = (if n \<le> 0 then 0 else 1 + nbits (n div 2))"

declare nbits.simps [simp del]

definition ilog2 :: "rat \<Rightarrow> int" where
  "ilog2 x =
     (let (p, q) = quotient_of x; k = nbits p - nbits q
      in if 2 powi k \<le> x then k else k - 1)"

definition rne :: "rat \<Rightarrow> int" where
  "rne x =
     (let f = \<lfloor>x\<rfloor>; r = x - of_int f
      in if r < 1/2 then f else if 1/2 < r then f + 1 else if even f then f else f + 1)"

definition grid :: "rat \<Rightarrow> int" where
  "grid x = max (ilog2 \<bar>x\<bar> - 52) (- 1074)"

definition fl :: "rat \<Rightarrow> rat" where
  "fl x = (if x = 0 then 0 else of_int (rne (x / 2 powi grid x)) * 2 powi grid x)"

section \<open>Values and operations\<close>

datatype f64 = NaN | PosInf | NegInf | NegZero | Fin rat

definition f64_limit :: rat where
  "f64_limit = 2 ^ 1024"

lemma f64_limit_pos: "0 < f64_limit"
  by (simp add: f64_limit_def)

lemma f64_limit_code [code]:
  "f64_limit = (let a = 18446744073709551616; b = a * a; c = b * b; d = c * c in d * d)"
  by (simp add: f64_limit_def Let_def)

definition round64 :: "rat \<Rightarrow> f64" where
  "round64 x =
     (let r = fl x
      in if f64_limit \<le> r then PosInf else if r \<le> - f64_limit then NegInf
         else if r = 0 \<and> x < 0 then NegZero else Fin r)"

fun fval :: "f64 \<Rightarrow> rat" where
  "fval (Fin x) = x"
| "fval _ = 0"

fun is_finite :: "f64 \<Rightarrow> bool" where
  "is_finite (Fin x) = True"
| "is_finite NegZero = True"
| "is_finite _ = False"

text \<open>The sign bit; that of a NaN is never looked at.\<close>

fun is_neg :: "f64 \<Rightarrow> bool" where
  "is_neg (Fin x) = (x < 0)"
| "is_neg NegZero = True"
| "is_neg NegInf = True"
| "is_neg _ = False"

definition signed_zero :: "bool \<Rightarrow> f64" where
  "signed_zero neg = (if neg then NegZero else Fin 0)"

definition signed_inf :: "bool \<Rightarrow> f64" where
  "signed_inf neg = (if neg then NegInf else PosInf)"

fun fneg :: "f64 \<Rightarrow> f64" where
  "fneg NaN = NaN"
| "fneg PosInf = NegInf"
| "fneg NegInf = PosInf"
| "fneg NegZero = Fin 0"
| "fneg (Fin x) = (if x = 0 then NegZero else Fin (- x))"

definition fadd :: "f64 \<Rightarrow> f64 \<Rightarrow> f64" where
  "fadd a b =
     (if a = NaN \<or> b = NaN then NaN
      else if a = PosInf then (if b = NegInf then NaN else PosInf)
      else if a = NegInf then (if b = PosInf then NaN else NegInf)
      else if \<not> is_finite b then b
      else if a = NegZero \<and> b = NegZero then NegZero
      else round64 (fval a + fval b))"

definition fsub :: "f64 \<Rightarrow> f64 \<Rightarrow> f64" where
  "fsub a b = fadd a (fneg b)"

definition fmul :: "f64 \<Rightarrow> f64 \<Rightarrow> f64" where
  "fmul a b =
     (let neg = (is_neg a \<noteq> is_neg b)
      in if a = NaN \<or> b = NaN then NaN
         else if \<not> is_finite a \<or> \<not> is_finite b then
           (if is_finite a \<and> fval a = 0 \<or> is_finite b \<and> fval b = 0 then NaN else signed_inf neg)
         else if fval a * fval b = 0 then signed_zero neg
         else round64 (fval a * fval b))"

definition fdiv :: "f64 \<Rightarrow> f64 \<Rightarrow> f64" where
  "fdiv a b =
     (let neg = (is_neg a \<noteq> is_neg b)
      in if a = NaN \<or> b = NaN then NaN
         else if \<not> is_finite a then (if is_finite b then signed_inf neg else NaN)
         else if \<not> is_finite b then signed_zero neg
         else if fval b = 0 then (if fval a = 0 then NaN else signed_inf neg)
         else if fval a = 0 then signed_zero neg
         else round64 (fval a / fval b))"

text \<open>Comparisons are false on NaN, and the two zeros are equal.\<close>

fun flt :: "f64 \<Rightarrow> f64 \<Rightarrow> bool" where
  "flt NaN b = False"
| "flt a NaN = False"
| "flt PosInf b = False"
| "flt a NegInf = False"
| "flt NegInf b = True"
| "flt a PosInf = True"
| "flt a b = (fval a < fval b)"

fun fle :: "f64 \<Rightarrow> f64 \<Rightarrow> bool" where
  "fle NaN b = False"
| "fle a NaN = False"
| "fle NegInf b = True"
| "fle a PosInf = True"
| "fle PosInf b = False"
| "fle a NegInf = False"
| "fle a b = (fval a \<le> fval b)"

text \<open>
  The casts \<open>w as f64\<close> (rounds), \<open>x as u64\<close> (truncates and saturates, 0 for NaN) and the
  method \<open>floor\<close>.
\<close>

definition u64_to_f64 :: "u64 \<Rightarrow> f64" where
  "u64_to_f64 w = round64 (unsigned w)"

text \<open>In a form that evaluates on binary integers.\<close>

lemma u64_to_f64_code [code]: "u64_to_f64 w = round64 (of_int (uint w))"
  by (simp add: u64_to_f64_def)

definition i64_to_f64 :: "i64 \<Rightarrow> f64" where
  "i64_to_f64 w = round64 (of_int (sint w))"

fun f64_to_u64 :: "f64 \<Rightarrow> u64" where
  "f64_to_u64 PosInf = - 1"
| "f64_to_u64 (Fin x) = (if 2 ^ 64 \<le> x then - 1 else if x \<le> 0 then 0 else of_int \<lfloor>x\<rfloor>)"
| "f64_to_u64 _ = 0"

fun ffloor :: "f64 \<Rightarrow> f64" where
  "ffloor (Fin x) = round64 (of_int \<lfloor>x\<rfloor>)"
| "ffloor a = a"

section \<open>Rounding: lemmas\<close>

subsection \<open>Powers of two and binary exponents\<close>

lemma powi2_pos [simp]: "(0::rat) < 2 powi k"
  by (simp add: zero_less_power_int)

lemma powi2_mono: "a \<le> b \<Longrightarrow> (2::rat) powi a \<le> 2 powi b"
  by (rule power_int_increasing) simp_all

lemma powi2_less_iff: "(2::rat) powi a < 2 powi b \<longleftrightarrow> a < b"
  by (meson linorder_not_le powi2_mono power_int_strict_increasing one_less_numeral_iff semiring_norm(76))

lemma powi2_Suc: "(2::rat) powi (k + 1) = 2 * 2 powi k"
  by (simp add: power_int_add)

lemma powi2_divide: "(2::rat) powi a / 2 powi b = 2 powi (a - b)"
  by (simp add: power_int_diff)

lemma powi2_of_int: "0 \<le> k \<Longrightarrow> (2::rat) powi k = of_int (2 ^ nat k)"
  by (simp add: power_int_def)

lemma nbits_pos: "0 < n \<Longrightarrow> 0 < nbits n"
proof (induction n rule: nbits.induct)
  case (1 n)
  then show ?case
    by (subst nbits.simps) (cases "n div 2 \<le> 0"; simp add: nbits.simps [of "n div 2"] nbits.simps [of 0])
qed

lemma nbits_bounds: "0 < n \<Longrightarrow> 2 powi (nbits n - 1) \<le> (of_int n :: rat) \<and> (of_int n :: rat) < 2 powi nbits n"
proof (induction n rule: nbits.induct)
  case (1 n)
  show ?case
  proof (cases "n = 1")
    case True
    then show ?thesis by (simp add: nbits.simps [of 1] nbits.simps [of 0])
  next
    case False
    define m where "m = n div 2"
    with 1 False have m: "0 < m" "2 * m \<le> n" "n \<le> 2 * m + 1" by auto
    have IH: "2 powi (nbits m - 1) \<le> (of_int m :: rat)" "(of_int m :: rat) < 2 powi nbits m"
      using 1 m by (simp_all add: m_def)
    have eq: "nbits n = nbits m + 1" using 1 by (simp add: nbits.simps [of n] m_def)
    have "(of_int (m + 1) :: rat) \<le> 2 powi nbits m"
    proof -
      have "0 \<le> nbits m" using nbits_pos [OF m(1)] by simp
      then have "(2::rat) powi nbits m = of_int (2 ^ nat (nbits m))" by (rule powi2_of_int)
      with IH(2) show ?thesis by (simp only: of_int_less_iff of_int_le_iff)
    qed
    moreover have "2 powi (nbits n - 1) = 2 * (2 powi (nbits m - 1) :: rat)"
      "2 powi nbits n = 2 * (2 powi nbits m :: rat)"
      using powi2_Suc [of "nbits m - 1"] powi2_Suc [of "nbits m"] by (simp_all add: eq)
    moreover have "(of_int (2 * m) :: rat) \<le> of_int n"
      using m(2) by (simp only: of_int_le_iff)
    moreover have "of_int n < (of_int (2 * (m + 1)) :: rat)"
    proof -
      have "n < 2 * (m + 1)" using m(3) by simp
      then show ?thesis by (simp only: of_int_less_iff)
    qed
    ultimately show ?thesis using IH(1) by (simp only: of_int_mult of_int_numeral) auto
  qed
qed

lemma ilog2_bounds:
  assumes "0 < x"
  shows "2 powi ilog2 x \<le> x" and "x < 2 powi (ilog2 x + 1)"
proof -
  obtain p q where pq: "quotient_of x = (p, q)" by fastforce
  then have q: "0 < q" and x: "x = of_int p / of_int q"
    by (auto dest: quotient_of_denom_pos quotient_of_div)
  with assms have p: "0 < p" by (simp add: zero_less_divide_iff)
  define k where "k = nbits p - nbits q"
  note P = nbits_bounds [OF p] and Q = nbits_bounds [OF q]
  have lo: "2 powi (k - 1) \<le> x"
  proof -
    have "(2::rat) powi (k - 1) = 2 powi (nbits p - 1) / 2 powi nbits q"
      by (simp add: powi2_divide k_def algebra_simps)
    also have "\<dots> \<le> of_int p / of_int q"
      using P Q q p by (intro frac_le) auto
    finally show ?thesis by (simp add: x)
  qed
  have hi: "x < 2 powi (k + 1)"
  proof -
    have "of_int p / of_int q < (2 powi nbits p :: rat) / 2 powi (nbits q - 1)"
      using P Q p by (intro frac_less) auto
    also have "\<dots> = 2 powi (k + 1)"
      by (simp add: powi2_divide k_def algebra_simps)
    finally show ?thesis by (simp add: x)
  qed
  have "ilog2 x = (if 2 powi k \<le> x then k else k - 1)"
    by (simp add: ilog2_def pq k_def)
  then show "2 powi ilog2 x \<le> x" and "x < 2 powi (ilog2 x + 1)"
    using lo hi by (simp_all add: not_le)
qed

lemma ilog2_mono: "0 < x \<Longrightarrow> x \<le> y \<Longrightarrow> ilog2 x \<le> ilog2 y"
proof -
  assume "0 < x" "x \<le> y"
  then have "2 powi ilog2 x < (2::rat) powi (ilog2 y + 1)"
    using ilog2_bounds(1) [of x] ilog2_bounds(2) [of y] by simp
  then show ?thesis by (simp add: powi2_less_iff)
qed

subsection \<open>Rounding to an integer\<close>

lemma rne_of_int [simp]: "rne (of_int n) = n"
  by (simp add: rne_def)

lemma rne_bounds: "\<bar>of_int (rne x) - x\<bar> \<le> 1/2"
proof -
  obtain f where f: "f = \<lfloor>x\<rfloor>" by blast
  then have "of_int f \<le> x" "x < of_int f + 1" by linarith+
  then show ?thesis unfolding rne_def Let_def abs_le_iff f [symmetric] by auto
qed

lemma rne_mono:
  assumes "x \<le> y"
  shows "rne x \<le> rne y"
proof (cases "\<lfloor>x\<rfloor> = \<lfloor>y\<rfloor>")
  case True
  with assms show ?thesis unfolding rne_def Let_def by auto
next
  case False
  with assms have "\<lfloor>x\<rfloor> + 1 \<le> \<lfloor>y\<rfloor>" using floor_mono [OF assms] by simp
  moreover have "rne x \<le> \<lfloor>x\<rfloor> + 1" "\<lfloor>y\<rfloor> \<le> rne y"
    by (simp_all add: rne_def Let_def)
  ultimately show ?thesis by simp
qed

lemma rne_minus: "rne (- x) = - rne x"
proof (cases "x = of_int \<lfloor>x\<rfloor>")
  case True
  then show ?thesis by (metis of_int_minus rne_of_int)
next
  case False
  then have "of_int \<lfloor>x\<rfloor> < x" "x < of_int \<lfloor>x\<rfloor> + 1" by linarith+
  then have eq: "\<lfloor>- x\<rfloor> = - \<lfloor>x\<rfloor> - 1" by (simp add: floor_unique)
  show ?thesis unfolding rne_def Let_def eq by (auto simp: field_simps)
qed

lemma grid_minus: "grid (- x) = grid x"
  by (simp add: grid_def)

lemma grid_ge: "- 1074 \<le> grid x"
  by (simp add: grid_def)

lemma fl_0 [simp]: "fl 0 = 0"
  by (simp add: fl_def)

lemma fl_minus: "fl (- x) = - fl x"
  by (simp add: fl_def grid_minus rne_minus)

text \<open>A multiple of the unit of \<open>x\<close> that is above \<open>x\<close> stays above its rounding.\<close>

lemma fl_le_multiple:
  assumes "x \<le> of_int n * 2 powi grid x"
  shows "fl x \<le> of_int n * 2 powi grid x"
proof (cases "x = 0")
  case True
  with assms show ?thesis by simp
next
  case False
  have "x / 2 powi grid x \<le> of_int n" using assms by (simp add: divide_le_eq)
  then have "rne (x / 2 powi grid x) \<le> n" by (metis rne_mono rne_of_int)
  with False show ?thesis by (simp add: fl_def mult_right_mono)
qed

lemma fl_ge_multiple:
  assumes "of_int n * 2 powi grid x \<le> x"
  shows "of_int n * 2 powi grid x \<le> fl x"
  using fl_le_multiple [of "- x" "- n"] assms by (simp add: grid_minus fl_minus)

lemma fl_nonneg: "0 \<le> x \<Longrightarrow> 0 \<le> fl x"
  using fl_ge_multiple [of 0 x] by simp

lemma powi2_multiple: "b \<le> a \<Longrightarrow> (2::rat) powi a = of_int (2 ^ nat (a - b)) * 2 powi b"
proof -
  assume "b \<le> a"
  then have "of_int (2 ^ nat (a - b)) * 2 powi b = (2::rat) powi (a - b) * 2 powi b"
    by (simp only: powi2_of_int)
  then show ?thesis by (simp flip: power_int_add)
qed

lemma fl_mono_pos:
  assumes "0 < x" "x \<le> y"
  shows "fl x \<le> fl y"
proof -
  have le: "grid x \<le> grid y" using ilog2_mono [OF assms] assms by (simp add: grid_def)
  show ?thesis
  proof (cases "grid x = grid y")
    case True
    have "rne (x / 2 powi grid x) \<le> rne (y / 2 powi grid x)"
      using assms by (intro rne_mono) (simp add: divide_right_mono)
    with True assms show ?thesis by (simp add: fl_def mult_right_mono)
  next
    case False
    with le have gy: "grid y = ilog2 y - 52" and lt: "ilog2 x < ilog2 y"
      and gx: "grid x \<le> ilog2 y"
      using assms by (auto simp: grid_def)
    define B where "B = (2::rat) powi ilog2 y"
    have "x \<le> B"
      using ilog2_bounds(2) [OF assms(1)] powi2_mono [of "ilog2 x + 1" "ilog2 y"] lt
      by (simp add: B_def)
    then have "fl x \<le> B"
      using fl_le_multiple [of x "2 ^ nat (ilog2 y - grid x)"] powi2_multiple [OF gx]
      by (simp add: B_def)
    moreover have "B \<le> y" using ilog2_bounds(1) [of y] assms by (simp add: B_def)
    then have "B \<le> fl y"
      using fl_ge_multiple [of "2 ^ 52" y] powi2_multiple [of "grid y" "ilog2 y"] gy
      by (simp add: B_def)
    ultimately show ?thesis by simp
  qed
qed

lemma fl_mono: "x \<le> y \<Longrightarrow> fl x \<le> fl y"
proof -
  assume le: "x \<le> y"
  consider "0 < x" | "x \<le> 0" "0 \<le> y" | "y < 0" by linarith
  then show ?thesis
  proof cases
    case 1
    with le show ?thesis by (simp add: fl_mono_pos)
  next
    case 2
    then have "0 \<le> fl (- x)" "0 \<le> fl y" by (simp_all add: fl_nonneg)
    then show ?thesis by (simp add: fl_minus)
  next
    case 3
    with le have "fl (- y) \<le> fl (- x)" by (simp add: fl_mono_pos)
    then show ?thesis by (simp add: fl_minus)
  qed
qed

subsection \<open>Representable numbers\<close>

lemma ilog2_less: "0 < x \<Longrightarrow> x < 2 powi (k + 1) \<Longrightarrow> ilog2 x \<le> k"
  using ilog2_bounds(1) [of x] powi2_less_iff [of "ilog2 x" "k + 1"] by simp

lemma fl_exact_strict:
  assumes "\<bar>m\<bar> < 2 ^ 53" "- 1074 \<le> e"
  shows "fl (of_int m * 2 powi e) = of_int m * 2 powi e"
proof (cases "m = 0")
  case True
  then show ?thesis by simp
next
  case False
  define x where "x = (of_int m :: rat) * 2 powi e"
  have "\<bar>x\<bar> < 2 ^ 53 * 2 powi e"
    using assms(1) by (simp add: x_def abs_mult flip: of_int_abs)
  also have "\<dots> = 2 powi ((e + 52) + 1)" by (simp add: power_int_add)
  finally have "ilog2 \<bar>x\<bar> \<le> e + 52" using False by (intro ilog2_less) (auto simp: x_def)
  then have g: "grid x \<le> e" using assms(2) by (simp add: grid_def)
  define k where "k = m * 2 ^ nat (e - grid x)"
  have X: "x = of_int k * 2 powi grid x"
    using powi2_multiple [OF g] by (simp add: x_def [symmetric] k_def mult.assoc) (simp add: x_def)
  then have "x / 2 powi grid x = of_int k" by (simp add: divide_eq_eq)
  moreover have "x \<noteq> 0" using False by (simp add: x_def)
  ultimately have "fl x = of_int k * 2 powi grid x" by (simp only: fl_def rne_of_int if_False)
  with X have "fl x = x" by simp
  then show ?thesis by (simp add: x_def)
qed

lemma fl_exact:
  assumes "\<bar>m\<bar> \<le> 2 ^ 53" "- 1074 \<le> e"
  shows "fl (of_int m * 2 powi e) = of_int m * 2 powi e"
proof (cases "\<bar>m\<bar> < 2 ^ 53")
  case True
  with assms show ?thesis by (simp add: fl_exact_strict)
next
  case False
  with assms(1) have "m = 2 ^ 53 \<or> m = - (2 ^ 53)" by linarith
  then obtain n where n: "m = 2 * n" "\<bar>n\<bar> < 2 ^ 53"
    by (cases "m = 2 ^ 53") (auto intro: that [of "2 ^ 52"] that [of "- (2 ^ 52)"])
  have "(of_int m :: rat) * 2 powi e = of_int n * 2 powi (e + 1)"
    by (simp add: n(1) powi2_Suc)
  moreover have "fl (of_int n * 2 powi (e + 1)) = of_int n * 2 powi (e + 1)"
    using n(2) assms(2) by (intro fl_exact_strict) simp_all
  ultimately show ?thesis by metis
qed

lemma fl_form: "\<exists>m e. fl x = of_int m * 2 powi e \<and> \<bar>m\<bar> \<le> 2 ^ 53 \<and> - 1074 \<le> e"
proof (cases "x = 0")
  case True
  then show ?thesis by (intro exI [of _ 0]) auto
next
  case False
  define m where "m = rne (x / 2 powi grid x)"
  have "\<bar>x\<bar> \<le> of_int (2 ^ 53) * 2 powi grid x"
  proof -
    have "\<bar>x\<bar> < 2 powi (ilog2 \<bar>x\<bar> + 1)" using False by (simp add: ilog2_bounds)
    also have "\<dots> \<le> 2 powi (53 + grid x)" by (intro powi2_mono) (simp add: grid_def)
    finally show ?thesis by (simp add: power_int_add)
  qed
  then have "x / 2 powi grid x \<le> of_int (2 ^ 53)" "of_int (- (2 ^ 53)) \<le> x / 2 powi grid x"
    by (auto simp: field_simps abs_le_iff)
  then have "\<bar>m\<bar> \<le> 2 ^ 53"
    unfolding m_def by (metis abs_le_iff minus_le_iff rne_mono rne_of_int)
  then show ?thesis
    using False grid_ge [of x] by (intro exI [of _ m] exI [of _ "grid x"]) (simp add: fl_def m_def)
qed

lemma fl_idem [simp]: "fl (fl x) = fl x"
  using fl_form [of x] fl_exact by auto

lemma fl_of_int: "\<bar>n\<bar> \<le> 2 ^ 53 \<Longrightarrow> fl (of_int n) = of_int n"
  using fl_exact [of n 0] by simp

lemma powi2_not_le_0 [simp]: "\<not> (2::rat) powi k \<le> 0"
  by (simp add: not_le)

lemma fl_form_eta: "\<exists>k. fl x = of_int k * 2 powi (- 1074)"
proof -
  obtain m e where "fl x = of_int m * 2 powi e" "- 1074 \<le> e" using fl_form by blast
  then have "fl x = of_int (m * 2 ^ nat (e + 1074)) * 2 powi (- 1074)"
    using powi2_multiple [of "- 1074" e] by simp
  then show ?thesis by blast
qed

lemma fl_gap:
  assumes "fl x = x" "fl y = y" "x < y"
  shows "2 powi (- 1074) \<le> y - x"
proof -
  obtain i j where x: "x = of_int i * 2 powi (- 1074)" and y: "y = of_int j * 2 powi (- 1074)"
    using fl_form_eta [of x] fl_form_eta [of y] assms by metis
  have "i < j" using assms(3) unfolding x y by (simp only: mult_less_cancel_right_pos powi2_pos of_int_less_iff)
  then have "of_int 1 \<le> (of_int (j - i) :: rat)" by (simp only: of_int_le_iff)
  then have "of_int 1 * 2 powi (- 1074) \<le> (of_int (j - i) * 2 powi (- 1074) :: rat)"
    by (rule mult_right_mono) simp
  then show ?thesis unfolding x y by (simp add: left_diff_distrib)
qed

lemma fl_eta: "fl (2 powi (- 1074)) = 2 powi (- 1074)"
  using fl_exact [of 1 "- 1074"] by simp

lemma fl_double:
  assumes "2 powi (- 1074) \<le> x"
  shows "fl x \<le> 2 * x"
proof -
  have pos: "0 < x" using assms powi2_pos [of "- 1074"] by linarith
  have "(2::rat) powi (- 1074) < 2 powi (ilog2 x + 1)"
    using assms ilog2_bounds(2) [OF pos] by linarith
  then have "- 1074 \<le> ilog2 x + 1" by (simp only: powi2_less_iff)
  then have "fl (2 powi (ilog2 x + 1)) = 2 powi (ilog2 x + 1)"
    using fl_exact [of 1 "ilog2 x + 1"] by simp
  then have "fl x \<le> 2 powi (ilog2 x + 1)"
    using fl_mono [of x "2 powi (ilog2 x + 1)"] ilog2_bounds(2) [OF pos] by simp
  also have "\<dots> \<le> 2 * x" using ilog2_bounds(1) [OF pos] by (simp add: powi2_Suc)
  finally show ?thesis .
qed

lemma fl_integral: "fl x = x \<Longrightarrow> 2 ^ 53 < \<bar>x\<bar> \<Longrightarrow> x = of_int \<lfloor>x\<rfloor>"
proof -
  assume "fl x = x" and big: "2 ^ 53 < \<bar>x\<bar>"
  then obtain m e where x: "x = of_int m * 2 powi e" and m: "\<bar>m\<bar> \<le> 2 ^ 53"
    using fl_form [of x] by metis
  have "0 \<le> e"
  proof (rule ccontr)
    assume "\<not> 0 \<le> e"
    then have "(2::rat) powi e \<le> 1" using powi2_mono [of e 0] by simp
    then have "\<bar>x\<bar> \<le> of_int \<bar>m\<bar> * 1"
      unfolding x abs_mult by (intro mult_mono) auto
    also have "\<dots> \<le> of_int (2 ^ 53)" using m by (simp only: of_int_le_iff mult_1_right)
    finally show False using big by simp
  qed
  then have "x = of_int (m * 2 ^ nat e)" by (simp add: x powi2_of_int)
  then show ?thesis by simp
qed

lemma fl_floor:
  assumes "fl x = x"
  shows "fl (of_int \<lfloor>x\<rfloor>) = of_int \<lfloor>x\<rfloor>"
proof (cases "2 ^ 53 < \<bar>x\<bar>")
  case True
  then show ?thesis using assms fl_integral by metis
next
  case False
  then have "of_int (- (2 ^ 53)) \<le> x" "x \<le> of_int (2 ^ 53)" by (auto simp: abs_le_iff)
  then have "- (2 ^ 53) \<le> \<lfloor>x\<rfloor>" "\<lfloor>x\<rfloor> \<le> 2 ^ 53"
    by (simp only: le_floor_iff, metis floor_mono floor_of_int)
  then have "\<bar>\<lfloor>x\<rfloor>\<bar> \<le> 2 ^ 53" by linarith
  then show ?thesis by (rule fl_of_int)
qed

lemma fl_frac:
  assumes "fl x = x" "0 \<le> x"
  shows "fl (x - of_int \<lfloor>x\<rfloor>) = x - of_int \<lfloor>x\<rfloor>"
proof -
  obtain m e where x: "x = of_int m * 2 powi e" and m: "\<bar>m\<bar> \<le> 2 ^ 53" and e: "- 1074 \<le> e"
    using fl_form [of x] assms(1) by metis
  show ?thesis
  proof (cases "0 \<le> e")
    case True
    then have "x = of_int (m * 2 ^ nat e)" by (simp add: x powi2_of_int)
    then show ?thesis by simp
  next
    case False
    define r where "r = m - \<lfloor>x\<rfloor> * 2 ^ nat (- e)"
    have "(of_int \<lfloor>x\<rfloor> :: rat) = of_int (\<lfloor>x\<rfloor> * 2 ^ nat (- e)) * 2 powi e"
      using False powi2_multiple [of e 0] by simp
    then have fr: "x - of_int \<lfloor>x\<rfloor> = of_int r * 2 powi e"
      by (subst (1) x) (simp add: r_def left_diff_distrib)
    have "0 \<le> x - of_int \<lfloor>x\<rfloor>" by simp
    then have "0 \<le> r" unfolding fr by (simp add: zero_le_mult_iff)
    moreover have "r \<le> m" using assms(2) by (simp add: r_def)
    ultimately have "\<bar>r\<bar> \<le> 2 ^ 53" using m by simp
    then show ?thesis unfolding fr using e by (rule fl_exact)
  qed
qed

lemma fl_error: "\<bar>fl x - x\<bar> \<le> \<bar>x\<bar> / 2 ^ 53 + 2 powi (- 1074) / 2"
proof (cases "x = 0")
  case False
  define u where "u = (2::rat) powi grid x"
  have u: "0 < u" by (simp add: u_def)
  have "fl x - x = (of_int (rne (x / u)) - x / u) * u"
    using False u by (simp add: fl_def u_def [symmetric] left_diff_distrib)
  then have "\<bar>fl x - x\<bar> = \<bar>of_int (rne (x / u)) - x / u\<bar> * u"
    using u by (simp add: abs_mult)
  also have "\<dots> \<le> 1 / 2 * u" using rne_bounds u by (intro mult_right_mono) simp_all
  finally have le: "\<bar>fl x - x\<bar> \<le> u / 2" by simp
  show ?thesis
  proof (cases "grid x = - 1074")
    case True
    have "0 \<le> \<bar>x\<bar> / 2 ^ 53" by simp
    moreover have "u = 2 powi (- 1074)" by (simp add: u_def True)
    ultimately show ?thesis using le by linarith
  next
    case False
    then have "grid x = ilog2 \<bar>x\<bar> - 52" by (auto simp: grid_def max_def split: if_splits)
    then have "u * 2 ^ 52 = 2 powi ilog2 \<bar>x\<bar>"
      by (simp add: u_def flip: power_int_add power_int_numeral)
    then have "u * 2 ^ 52 \<le> \<bar>x\<bar>" using ilog2_bounds(1) [of "\<bar>x\<bar>"] \<open>x \<noteq> 0\<close> by simp
    moreover have "(0::rat) < 2 powi (- 1074)" by (rule powi2_pos)
    ultimately show ?thesis using le by simp
  qed
qed simp
section \<open>The interface of rounding\<close>

text \<open>
  What the measurement code relies on: \<open>rnd\<close> is monotone and symmetric, fixes the
  integers up to \<open>2 ^ 53\<close>, the integer and fractional part of what it fixes, and is
  accurate to half a unit; \<open>eta\<close> is the smallest positive number it fixes, and the
  distance of two such numbers is at least \<open>eta\<close>.
\<close>

locale rounding =
  fixes rnd :: "rat \<Rightarrow> rat" and eta :: rat
  assumes rnd_mono: "x \<le> y \<Longrightarrow> rnd x \<le> rnd y"
    and rnd_idem: "rnd (rnd x) = rnd x"
    and rnd_minus: "rnd (- x) = - rnd x"
    and rnd_int: "\<bar>n\<bar> \<le> 2 ^ 53 \<Longrightarrow> rnd (of_int n) = of_int n"
    and eta_pos: "0 < eta"
    and rnd_eta: "rnd eta = eta"
    and rnd_gap: "rnd x = x \<Longrightarrow> rnd y = y \<Longrightarrow> x < y \<Longrightarrow> eta \<le> y - x"
    and rnd_double: "eta \<le> x \<Longrightarrow> rnd x \<le> 2 * x"
    and rnd_floor: "rnd x = x \<Longrightarrow> rnd (of_int \<lfloor>x\<rfloor>) = of_int \<lfloor>x\<rfloor>"
    and rnd_frac: "rnd x = x \<Longrightarrow> 0 \<le> x \<Longrightarrow> rnd (x - of_int \<lfloor>x\<rfloor>) = x - of_int \<lfloor>x\<rfloor>"
    and rnd_error: "\<bar>rnd x - x\<bar> \<le> \<bar>x\<bar> / 2 ^ 53 + eta / 2"
begin

lemma rnd_0: "rnd 0 = 0"
  using rnd_int [of 0] by simp

lemma rnd_1: "rnd 1 = 1"
  using rnd_int [of 1] by simp

lemma rnd_lower: "rnd a = a \<Longrightarrow> a \<le> x \<Longrightarrow> a \<le> rnd x"
  using rnd_mono [of a x] by simp

lemma rnd_upper: "rnd b = b \<Longrightarrow> x \<le> b \<Longrightarrow> rnd x \<le> b"
  using rnd_mono [of x b] by simp

lemma rnd_nonneg: "0 \<le> x \<Longrightarrow> 0 \<le> rnd x"
  by (rule rnd_lower [OF rnd_0])

lemma rnd_nonpos: "x \<le> 0 \<Longrightarrow> rnd x \<le> 0"
  by (rule rnd_upper [OF rnd_0])

lemma rnd_unit: "0 \<le> x \<Longrightarrow> x \<le> 1 \<Longrightarrow> 0 \<le> rnd x \<and> rnd x \<le> 1"
  by (simp add: rnd_nonneg rnd_upper [OF rnd_1])

lemma rnd_sixteenth:
  assumes "eta \<le> w"
  shows "rnd (rnd w / 16) \<le> w"
proof -
  have "rnd w / 16 \<le> w / 8" using rnd_double [OF assms] by simp
  then have le: "rnd (rnd w / 16) \<le> rnd (w / 8)" by (rule rnd_mono)
  show ?thesis
  proof (cases "eta \<le> w / 8")
    case True
    then have "rnd (w / 8) \<le> 2 * (w / 8)" by (rule rnd_double)
    with le eta_pos assms show ?thesis by simp
  next
    case False
    then have "rnd (w / 8) \<le> eta" by (intro rnd_upper [OF rnd_eta]) simp
    with le assms show ?thesis by simp
  qed
qed

text \<open>One smoothing step moves towards the new value and never past it.\<close>

lemma rnd_smooth_up:
  assumes "rnd a = a" "rnd b = b" "a \<le> b"
  shows "a \<le> rnd (a + rnd (rnd (b - a) / 16))" and "rnd (a + rnd (rnd (b - a) / 16)) \<le> b"
proof -
  have "0 \<le> rnd (rnd (b - a) / 16)" using assms(3) by (intro rnd_nonneg) (simp add: rnd_nonneg)
  then show "a \<le> rnd (a + rnd (rnd (b - a) / 16))" by (intro rnd_lower [OF assms(1)]) simp
  show "rnd (a + rnd (rnd (b - a) / 16)) \<le> b"
  proof (cases "a = b")
    case True
    then show ?thesis using assms by (simp add: rnd_0)
  next
    case False
    then have "eta \<le> b - a" using assms by (intro rnd_gap) simp_all
    then have "rnd (rnd (b - a) / 16) \<le> b - a" by (rule rnd_sixteenth)
    then show ?thesis by (intro rnd_upper [OF assms(2)]) simp
  qed
qed

lemma rnd_smooth:
  assumes "rnd a = a" "rnd b = b"
  shows "min a b \<le> rnd (a + rnd (rnd (b - a) / 16))"
    and "rnd (a + rnd (rnd (b - a) / 16)) \<le> max a b"
proof -
  have "rnd (- b - - a) = - rnd (b - a)" using rnd_minus [of "b - a"] by simp
  then have "rnd (rnd (- b - - a) / 16) = - rnd (rnd (b - a) / 16)"
    using rnd_minus [of "rnd (b - a) / 16"] by simp
  then have "rnd (- a + rnd (rnd (- b - - a) / 16)) = - rnd (a + rnd (rnd (b - a) / 16))"
    using rnd_minus [of "a + rnd (rnd (b - a) / 16)"] by (simp add: algebra_simps)
  moreover have "rnd (- a) = - a" "rnd (- b) = - b" using assms by (simp_all add: rnd_minus)
  ultimately show "min a b \<le> rnd (a + rnd (rnd (b - a) / 16))"
    and "rnd (a + rnd (rnd (b - a) / 16)) \<le> max a b"
    using rnd_smooth_up [OF assms] rnd_smooth_up [of "- a" "- b"] by (cases "a \<le> b"; simp)+
qed

end

interpretation fl: rounding fl "2 powi (- 1074)"
  by unfold_locales
     (simp_all only: fl_mono fl_idem fl_minus fl_of_int powi2_pos fl_eta fl_gap fl_double
        fl_floor fl_frac fl_error)

section \<open>Operations on finite values\<close>

definition rep :: "f64 \<Rightarrow> bool" where
  "rep a \<longleftrightarrow> is_finite a \<and> fl (fval a) = fval a \<and> \<bar>fval a\<bar> < f64_limit"

named_theorems f64_simps \<open>values of binary64 operations that neither overflow nor meet a NaN\<close>

lemma is_finite_iff: "is_finite a \<longleftrightarrow> a \<noteq> NaN \<and> a \<noteq> PosInf \<and> a \<noteq> NegInf"
  by (cases a) simp_all

lemma fl_abs: "fl \<bar>x\<bar> = \<bar>fl x\<bar>"
  by (cases "0 \<le> x") (simp_all add: fl_nonneg fl_minus fl.rnd_nonpos)

lemma round64_finite:
  assumes "\<bar>fl x\<bar> < f64_limit"
  shows "is_finite (round64 x)" and "fval (round64 x) = fl x" and "rep (round64 x)"
  using assms f64_limit_pos by (auto simp: round64_def rep_def Let_def abs_less_iff)

text \<open>No operation overflows whose exact result is at most \<open>fmax\<close>.\<close>

definition fmax :: rat where
  "fmax = 2 ^ 1023"

lemma power_le_fmax: "n \<le> 1023 \<Longrightarrow> 2 ^ n \<le> fmax"
  unfolding fmax_def by (rule power_increasing) simp_all

lemma fl_below: "\<bar>x\<bar> \<le> fmax \<Longrightarrow> \<bar>fl x\<bar> < f64_limit"
proof -
  assume "\<bar>x\<bar> \<le> fmax"
  moreover have "fl fmax = fmax" unfolding fmax_def using fl_exact [of 1 1023] by simp
  ultimately have "\<bar>fl x\<bar> \<le> fmax" using fl.rnd_upper [of fmax "\<bar>x\<bar>"] by (simp add: fl_abs)
  also have "\<dots> < f64_limit" unfolding fmax_def f64_limit_def by (rule power_strict_increasing) simp_all
  finally show ?thesis .
qed

lemma round64_bounded [f64_simps]:
  "\<bar>x\<bar> \<le> fmax \<Longrightarrow> is_finite (round64 x)" "\<bar>x\<bar> \<le> fmax \<Longrightarrow> fval (round64 x) = fl x"
  "\<bar>x\<bar> \<le> fmax \<Longrightarrow> rep (round64 x)"
  by (simp_all add: fl_below round64_finite)

lemma rep_zero [simp]: "rep NegZero" "rep (Fin 0)"
  by (simp_all add: rep_def f64_limit_def)

lemma fval_fneg [simp]: "fval (fneg a) = - fval a"
  by (cases a) simp_all

lemma is_finite_fneg [simp]: "is_finite (fneg a) = is_finite a"
  by (cases a) simp_all

lemma rep_fneg [simp]: "rep (fneg a) = rep a"
  by (auto simp: rep_def fl_minus)

lemma fval_signed_zero [simp]: "fval (signed_zero s) = 0" "is_finite (signed_zero s)"
  "rep (signed_zero s)"
  by (simp_all add: signed_zero_def)

lemma fadd_finite [f64_simps]:
  assumes "is_finite a" "is_finite b" "\<bar>fval a + fval b\<bar> \<le> fmax"
  shows "fval (fadd a b) = fl (fval a + fval b)" and "rep (fadd a b)"
  using assms by (auto simp: fadd_def is_finite_iff round64_bounded)

lemma fsub_finite [f64_simps]:
  assumes "is_finite a" "is_finite b" "\<bar>fval a - fval b\<bar> \<le> fmax"
  shows "fval (fsub a b) = fl (fval a - fval b)" and "rep (fsub a b)"
  using fadd_finite [of a "fneg b"] assms by (simp_all add: fsub_def)

lemma fmul_finite [f64_simps]:
  assumes "is_finite a" "is_finite b" "\<bar>fval a * fval b\<bar> \<le> fmax"
  shows "fval (fmul a b) = fl (fval a * fval b)" and "rep (fmul a b)"
  using assms by (auto simp: fmul_def is_finite_iff round64_bounded Let_def)

lemma fdiv_finite [f64_simps]:
  assumes "is_finite a" "is_finite b" "fval b \<noteq> 0" "\<bar>fval a / fval b\<bar> \<le> fmax"
  shows "fval (fdiv a b) = fl (fval a / fval b)" and "rep (fdiv a b)"
  using assms by (auto simp: fdiv_def is_finite_iff round64_bounded Let_def)

lemma rep_finite: "rep a \<Longrightarrow> is_finite a" and rep_fl: "rep a \<Longrightarrow> fl (fval a) = fval a"
  by (simp_all add: rep_def)

lemma flt_finite [f64_simps]: "is_finite a \<Longrightarrow> is_finite b \<Longrightarrow> flt a b \<longleftrightarrow> fval a < fval b"
  by (cases a; cases b) simp_all

lemma fle_finite [f64_simps]: "is_finite a \<Longrightarrow> is_finite b \<Longrightarrow> fle a b \<longleftrightarrow> fval a \<le> fval b"
  by (cases a; cases b) simp_all

lemma unsigned_u64_bound: "(unsigned (w::u64) :: rat) < 2 ^ 64" "0 \<le> (unsigned (w::u64) :: rat)"
proof -
  have "unat w < 2 ^ 64" using unsigned_less [of w, where 'a = nat] by simp
  then have "(of_nat (unat w) :: rat) < of_nat (2 ^ 64)" by (simp only: of_nat_less_iff)
  then show "(unsigned w :: rat) < 2 ^ 64" by simp
  have "(0::rat) \<le> of_nat (unat w)" by (rule of_nat_0_le_iff)
  then show "(0::rat) \<le> unsigned w" by simp
qed

lemma unsigned_rat_mono: "v \<le> w \<Longrightarrow> (unsigned v :: rat) \<le> unsigned w" for v w :: "'a::len word"
proof -
  assume "v \<le> w"
  then have "(of_nat (unat v) :: rat) \<le> of_nat (unat w)" by (simp only: word_le_nat_alt of_nat_le_iff)
  then show ?thesis by simp
qed

lemma unsigned_rat_pos: "0 < w \<Longrightarrow> 1 \<le> (unsigned w :: rat)" for w :: "'a::len word"
proof -
  assume "0 < w"
  then have "1 \<le> unat w" by (simp add: word_less_nat_alt)
  then have "(of_nat 1 :: rat) \<le> of_nat (unat w)" by (simp only: of_nat_le_iff)
  then show ?thesis by simp
qed

lemma u64_to_f64 [f64_simps]:
  shows "fval (u64_to_f64 w) = fl (unsigned w)" and "rep (u64_to_f64 w)"
    and "is_finite (u64_to_f64 w)"
proof -
  have "\<bar>unsigned w :: rat\<bar> \<le> fmax"
    using unsigned_u64_bound [of w] power_le_fmax [of 64] by simp
  then show "fval (u64_to_f64 w) = fl (unsigned w)" and "rep (u64_to_f64 w)"
    and "is_finite (u64_to_f64 w)"
    by (simp_all add: u64_to_f64_def round64_bounded)
qed

lemma fl_2_power: "fl (2 ^ n) = 2 ^ n"
  using fl_exact [of 1 "int n"] by simp

lemma u64_to_f64_bounds: "0 \<le> fval (u64_to_f64 w)" "fval (u64_to_f64 w) \<le> 2 ^ 64"
  using unsigned_u64_bound [of w] fl.rnd_upper [OF fl_2_power, of "unsigned w" 64]
  by (simp_all add: u64_to_f64 fl_nonneg)

lemma u64_to_f64_mono: "v \<le> w \<Longrightarrow> fval (u64_to_f64 v) \<le> fval (u64_to_f64 w)"
  by (simp add: u64_to_f64 fl_mono unsigned_rat_mono)

lemma u64_to_f64_0 [simp]: "u64_to_f64 0 = Fin 0"
  using f64_limit_pos by (simp add: u64_to_f64_def round64_def Let_def)

lemma u64_to_f64_exact: "unat w \<le> 2 ^ 53 \<Longrightarrow> fval (u64_to_f64 w) = unsigned w"
proof -
  assume "unat w \<le> 2 ^ 53"
  then have "\<bar>int (unat w)\<bar> \<le> 2 ^ 53" by (simp only: abs_of_nat) (metis of_nat_le_iff of_nat_numeral of_nat_power)
  then show ?thesis using fl_of_int [of "int (unat w)"] by (simp add: u64_to_f64)
qed

lemma fval_u64_to_f64_pos: "0 < w \<Longrightarrow> 1 \<le> fval (u64_to_f64 w)"
  by (simp add: u64_to_f64 fl.rnd_lower [OF fl.rnd_1] unsigned_rat_pos)

subsection \<open>Operations on numbers that are not negative\<close>

lemma round64_nat: "n \<le> 2 ^ 53 \<Longrightarrow> round64 (of_nat n) = Fin (of_nat n)"
proof -
  assume n: "n \<le> 2 ^ 53"
  then have fl: "fl (of_nat n) = of_nat n" using fl_of_int [of "int n"] by simp
  have "(of_nat n :: rat) \<le> of_nat (2 ^ 53)" using n by (intro of_nat_mono)
  also have "\<dots> < f64_limit"
    unfolding f64_limit_def by (simp only: of_nat_power of_nat_numeral) (rule power_strict_increasing; simp)
  finally have "of_nat n < f64_limit" .
  moreover have "0 \<le> (of_nat n :: rat)" by simp
  ultimately show ?thesis using fl f64_limit_pos by (simp add: round64_def Let_def)
qed

lemma fmul_nat: "m * n \<le> 2 ^ 53 \<Longrightarrow> fmul (Fin (of_nat m)) (Fin (of_nat n)) = Fin (of_nat (m * n))"
  using round64_nat [of "m * n"] by (simp add: fmul_def Let_def signed_zero_def)

lemma f64_to_u64_nat: "n < 2 ^ 64 \<Longrightarrow> f64_to_u64 (Fin (of_nat n)) = of_nat n"
proof -
  assume "n < 2 ^ 64"
  then have "(of_nat n :: rat) < of_nat (2 ^ 64)" by (simp only: of_nat_less_iff)
  then have "\<not> 2 ^ 64 \<le> (of_nat n :: rat)" by simp
  then show ?thesis by simp
qed

lemma round64_nonneg: "0 \<le> x \<Longrightarrow> x \<le> fmax \<Longrightarrow> round64 x = Fin (fl x)"
  using fl_below [of x] by (simp add: round64_def Let_def fl_nonneg)
    (metis abs_ge_self fl_nonneg linorder_not_le f64_limit_pos le_minus_iff neg_le_0_iff_le order_le_less_trans order_trans)

lemma fmul_nonneg:
  assumes "0 \<le> x" "0 \<le> y" "x * y \<le> fmax"
  shows "fmul (Fin x) (Fin y) = Fin (fl (x * y))"
proof (cases "x * y = 0")
  case True
  then have "fl (x * y) = 0" by (metis fl_0)
  with True assms show ?thesis by (simp add: fmul_def Let_def signed_zero_def not_less)
next
  case False
  with assms round64_nonneg [of "x * y"] show ?thesis by (simp add: fmul_def Let_def)
qed

lemma f64_to_u64_floor:
  assumes "0 \<le> y" "y < 2 ^ 64"
  shows "of_nat (unat (f64_to_u64 (Fin y))) \<le> y \<and> y < of_nat (unat (f64_to_u64 (Fin y))) + 1"
proof -
  have fl: "0 \<le> \<lfloor>y\<rfloor>" "\<lfloor>y\<rfloor> < 2 ^ 64" using assms by (simp_all add: floor_less_iff)
  then have "uint (of_int \<lfloor>y\<rfloor> :: u64) = \<lfloor>y\<rfloor>" by (simp add: word_of_int_inverse)
  moreover have "f64_to_u64 (Fin y) = of_int \<lfloor>y\<rfloor>" using assms by auto
  ultimately have "int (unat (f64_to_u64 (Fin y))) = \<lfloor>y\<rfloor>" by simp
  then have "(of_nat (unat (f64_to_u64 (Fin y))) :: rat) = of_int \<lfloor>y\<rfloor>"
    by (metis of_int_of_nat_eq)
  then show ?thesis by (simp only:) linarith
qed

end
