(* ===== verification/Proto.thy ===== *)
theory Proto
  imports F64
begin

text \<open>
  \<open>src/src/proto.rs\<close>: the control messages and their framing. The structs are records
  and the enums datatypes, with the source's field and variant names (fields that occur in
  several structs carry a prefix). A frame is a 4-byte big-endian length and that many
  bytes of JSON.

  Parameters of the model: the JSON encoder and decoder of \<open>serde_json\<close> with the derived
  \<open>serde\<close> code (\<open>codec\<close>), and the stream the functions are generic over
  (\<open>AsyncReadExt\<close>, \<open>AsyncWriteExt\<close>), as the operations \<open>reader\<close> and \<open>writer\<close>. What the
  framing needs of a stream are the locales \<open>byte_source\<close> and \<open>byte_sink\<close>, interpreted
  here on an in-memory stream that may fail at any byte.
\<close>

section \<open>Message types\<close>

definition PROTOCOL_VERSION :: u16 where
  "PROTOCOL_VERSION = 1"

definition MAX_FRAME_BYTES :: u32 where
  "MAX_FRAME_BYTES = 64 * 1024"

record hello =
  h_protocol_version :: u16
  h_client_version :: string
  h_nonce :: u64

record welcome_body =
  w_protocol_version :: u16
  w_server_version :: string
  w_nonce :: u64
  w_accepted :: bool

datatype mode = Tcp | Udp | File

record negotiate =
  mode :: mode
  duration_secs :: u64
  warmup_secs :: u64
  parallel :: u32
  buffer_bytes :: usize
  bidir :: bool
  bitrate_bps :: "u64 option"
  packet_bytes :: "usize option"
  file_len :: "u64 option"
  null_source :: "bool option"

record start =
  data_port :: u16
  server_seed :: u64

datatype role_dir = Send | Receive

record sample =
  s_t_secs :: f64
  s_bytes :: u64
  s_bits_per_sec :: f64
  s_packets_lost :: "u64 option"
  s_jitter_ms :: "f64 option"

record test_result =
  role :: role_dir
  r_bytes :: u64
  r_duration_secs :: f64
  r_bits_per_sec :: f64
  r_bytes_per_sec :: f64
  packets_expected :: "u64 option"
  packets_received :: "u64 option"
  packets_lost :: "u64 option"
  loss_ratio :: "f64 option"
  jitter_ms :: "f64 option"
  samples :: "sample list"

datatype proto_error =
  VersionMismatch | InvalidParams | UnexpectedMessage | DataConnectFailed | Timeout | Internal

datatype msg =
  Hello hello | Welcome welcome_body | Negotiate negotiate | Start start
| Run | Stop | Result test_result | Error proto_error

section \<open>Framing\<close>

text \<open>
  The encoder and decoder, with their errors already converted by \<open>?\<close> into
  \<open>io::Error\<close>; and the stream operations, which return the new stream.
\<close>

record codec =
  to_vec :: "msg \<Rightarrow> bytes io_result"
  from_slice :: "bytes \<Rightarrow> msg io_result"

record 'w writer =
  write_all :: "'w \<Rightarrow> bytes \<Rightarrow> unit io_result \<times> 'w"
  flush :: "'w \<Rightarrow> unit io_result \<times> 'w"

type_synonym 'r reader = "'r \<Rightarrow> nat \<Rightarrow> bytes io_result \<times> 'r"

definition write_msg :: "codec \<Rightarrow> ('w, 'z) writer_scheme \<Rightarrow> 'w \<Rightarrow> msg \<Rightarrow> unit io_result \<times> 'w" where
  "write_msg c ops w msg =
     (case to_vec c msg of
        Inl e \<Rightarrow> (Inl e, w)
      | Inr payload \<Rightarrow>
          if unat MAX_FRAME_BYTES < length payload then
            (Inl (IoError InvalidData ''control message exceeds MAX_FRAME_BYTES''), w)
          else
            (case write_all ops w (u32_to_be (of_nat (length payload))) of
               (Inl e, w1) \<Rightarrow> (Inl e, w1)
             | (Inr _, w1) \<Rightarrow>
                 (case write_all ops w1 payload of
                    (Inl e, w2) \<Rightarrow> (Inl e, w2)
                  | (Inr _, w2) \<Rightarrow> flush ops w2)))"

definition read_msg :: "codec \<Rightarrow> 'r reader \<Rightarrow> 'r \<Rightarrow> msg io_result \<times> 'r" where
  "read_msg c read_exact r =
     (case read_exact r 4 of
        (Inl e, r1) \<Rightarrow> (Inl e, r1)
      | (Inr len_buf, r1) \<Rightarrow>
          (let len = u32_from_be len_buf
           in if MAX_FRAME_BYTES < len then
                (Inl (IoError InvalidData ''declared frame length exceeds MAX_FRAME_BYTES''), r1)
              else
                (case read_exact r1 (unat len) of
                   (Inl e, r2) \<Rightarrow> (Inl e, r2)
                 | (Inr payload, r2) \<Rightarrow> (from_slice c payload, r2))))"

text \<open>A sequence of messages, one call each; the first error ends it.\<close>

fun write_msgs :: "codec \<Rightarrow> ('w, 'z) writer_scheme \<Rightarrow> 'w \<Rightarrow> msg list \<Rightarrow> unit io_result \<times> 'w" where
  "write_msgs c ops w [] = (Inr (), w)"
| "write_msgs c ops w (m # ms) =
     (case write_msg c ops w m of (Inl e, w') \<Rightarrow> (Inl e, w') | (Inr _, w') \<Rightarrow> write_msgs c ops w' ms)"

fun read_msgs :: "codec \<Rightarrow> 'r reader \<Rightarrow> 'r \<Rightarrow> nat \<Rightarrow> msg list io_result \<times> 'r" where
  "read_msgs c rd r 0 = (Inr [], r)"
| "read_msgs c rd r (Suc n) =
     (case read_msg c rd r of
        (Inl e, r') \<Rightarrow> (Inl e, r')
      | (Inr m, r') \<Rightarrow>
          (case read_msgs c rd r' n of (Inl e, r'') \<Rightarrow> (Inl e, r'') | (Inr ms, r'') \<Rightarrow> (Inr (m # ms), r'')))"

section \<open>Frames\<close>

text \<open>The bytes of a message on the wire, and the messages whose payload decodes to itself.\<close>

definition frame :: "bytes \<Rightarrow> bytes" where
  "frame payload = u32_to_be (of_nat (length payload)) @ payload"

definition decodes :: "codec \<Rightarrow> msg \<Rightarrow> bool" where
  "decodes c m = (case to_vec c m of Inl e \<Rightarrow> False | Inr payload \<Rightarrow> from_slice c payload = Inr m)"

definition frame_of :: "codec \<Rightarrow> msg \<Rightarrow> bytes" where
  "frame_of c m = (case to_vec c m of Inl e \<Rightarrow> [] | Inr payload \<Rightarrow> frame payload)"

definition fits :: "codec \<Rightarrow> msg \<Rightarrow> bool" where
  "fits c m = (case to_vec c m of Inl e \<Rightarrow> False | Inr payload \<Rightarrow> length payload \<le> unat MAX_FRAME_BYTES)"

lemma unat_MAX_FRAME_BYTES: "unat MAX_FRAME_BYTES = 65536"
  by (simp add: MAX_FRAME_BYTES_def)

lemma length_word [byte_simps]:
  "n \<le> 65536 \<Longrightarrow> unat (of_nat n :: u32) = n" "n \<le> 65536 \<Longrightarrow> \<not> MAX_FRAME_BYTES < (of_nat n :: u32)"
  by (simp_all add: unat_of_nat word_less_nat_alt unat_MAX_FRAME_BYTES)

lemma length_frame [simp]: "length (frame payload) = 4 + length payload"
  by (simp add: frame_def)

section \<open>The interface of a byte stream\<close>

locale byte_source =
  fixes read_exact :: "'r reader" and pending :: "'r \<Rightarrow> bytes"
  assumes read_ok:
      "n \<le> length (pending r) \<Longrightarrow>
         \<exists>r'. read_exact r n = (Inr (take n (pending r)), r') \<and> pending r' = drop n (pending r)"
    and read_short: "length (pending r) < n \<Longrightarrow> \<exists>e r'. read_exact r n = (Inl e, r')"
begin

lemma read_prefix:
  "pending r = a @ b \<Longrightarrow> \<exists>r'. read_exact r (length a) = (Inr a, r') \<and> pending r' = b"
  using read_ok [of "length a" r] by auto

text \<open>The header decides: an oversized length is refused with only the header consumed.\<close>

lemma read_msg_oversized:
  assumes "pending r = u32_to_be len @ rest" "MAX_FRAME_BYTES < len"
  shows "\<exists>r'. read_msg c read_exact r =
           (Inl (IoError InvalidData ''declared frame length exceeds MAX_FRAME_BYTES''), r')
         \<and> pending r' = rest"
  using read_prefix [OF assms(1)] assms(2) by (auto simp: read_msg_def Let_def)

lemma read_msg_frame:
  assumes "pending r = frame payload @ rest" "length payload \<le> 65536"
  shows "\<exists>r'. read_msg c read_exact r = (from_slice c payload, r') \<and> pending r' = rest"
proof -
  obtain r1 where r1: "read_exact r 4 = (Inr (u32_to_be (of_nat (length payload))), r1)"
    "pending r1 = payload @ rest"
    using read_prefix [of r "u32_to_be (of_nat (length payload))" "payload @ rest"] assms(1)
    by (auto simp: frame_def)
  obtain r2 where "read_exact r1 (length payload) = (Inr payload, r2)" "pending r2 = rest"
    using read_prefix [OF r1(2)] by blast
  with r1 assms(2) show ?thesis
    by (simp add: read_msg_def Let_def length_word)
qed

lemma read_msg_truncated:
  assumes "pending r = take k (frame payload)" "k < length (frame payload)" "length payload \<le> 65536"
  shows "\<exists>e r'. read_msg c read_exact r = (Inl e, r')"
proof (cases "k < 4")
  case True
  with assms have "length (pending r) < 4" by simp
  from read_short [OF this] show ?thesis by (auto simp: read_msg_def)
next
  case False
  then have "pending r = u32_to_be (of_nat (length payload)) @ take (k - 4) payload"
    using assms(1) by (simp add: frame_def)
  from read_prefix [OF this] obtain r1 where
    r1: "read_exact r 4 = (Inr (u32_to_be (of_nat (length payload))), r1)"
    "pending r1 = take (k - 4) payload" by auto
  with assms False have "length (pending r1) < length payload" by simp
  from read_short [OF this] r1 assms(3) show ?thesis
    by (auto simp: read_msg_def Let_def length_word)
qed

lemma read_msgs_frames:
  assumes "pending r = concat (map (frame_of c) ms) @ rest"
    and "\<forall>m\<in>set ms. decodes c m \<and> fits c m"
  shows "\<exists>r'. read_msgs c read_exact r (length ms) = (Inr ms, r') \<and> pending r' = rest"
  using assms
proof (induction ms arbitrary: r)
  case Nil
  then show ?case by simp
next
  case (Cons m ms)
  then obtain payload where p: "to_vec c m = Inr payload" "from_slice c payload = Inr m"
    "length payload \<le> 65536"
    by (auto simp: decodes_def fits_def unat_MAX_FRAME_BYTES split: sum.splits)
  have "pending r = frame payload @ (concat (map (frame_of c) ms) @ rest)"
    using Cons.prems(1) p(1) by (simp add: frame_of_def [of c m])
  from read_msg_frame [OF this p(3), of c] obtain r1 where
    "read_msg c read_exact r = (Inr m, r1)" "pending r1 = concat (map (frame_of c) ms) @ rest"
    using p(2) by auto
  with Cons.IH [of r1] Cons.prems(2) show ?case by auto
qed

end

locale byte_sink =
  fixes ops :: "'w writer" and sent :: "'w \<Rightarrow> bytes" and healthy :: "'w \<Rightarrow> bool"
  assumes write_all_ok: "write_all ops w bs = (Inr u, w') \<Longrightarrow> sent w' = sent w @ bs"
    and write_all_err: "write_all ops w bs = (Inl e, w') \<Longrightarrow> \<exists>k. sent w' = sent w @ take k bs"
    and flush_sent: "flush ops w = (x, w') \<Longrightarrow> sent w' = sent w"
    and healthy_write: "healthy w \<Longrightarrow> \<exists>w'. write_all ops w bs = (Inr (), w') \<and> healthy w'"
    and healthy_flush: "healthy w \<Longrightarrow> \<exists>w'. flush ops w = (Inr (), w') \<and> healthy w'"
begin

lemma write_msg_oversized:
  assumes "to_vec c m = Inr payload" "65536 < length payload"
  shows "write_msg c ops w m =
           (Inl (IoError InvalidData ''control message exceeds MAX_FRAME_BYTES''), w)"
  using assms by (simp add: write_msg_def unat_MAX_FRAME_BYTES)

lemma write_msg_ok:
  assumes "write_msg c ops w m = (Inr u, w')"
  shows "fits c m" and "sent w' = sent w @ frame_of c m"
  using assms
  by (auto simp: write_msg_def fits_def frame_of_def frame_def
      dest!: write_all_ok flush_sent split: sum.splits if_splits prod.splits)

lemma write_msg_prefix:
  assumes "write_msg c ops w m = (Inl e, w')"
  shows "\<exists>k. sent w' = sent w @ take k (frame_of c m)"
proof (cases "to_vec c m")
  case (Inl e')
  with assms show ?thesis by (auto simp: write_msg_def intro: exI [of _ 0])
next
  case (Inr payload)
  let ?hdr = "u32_to_be (of_nat (length payload))"
  have F: "frame_of c m = ?hdr @ payload" using Inr by (simp add: frame_of_def frame_def)
  obtain x1 w1 where w1: "write_all ops w ?hdr = (x1, w1)" by fastforce
  obtain x2 w2 where w2: "write_all ops w1 payload = (x2, w2)" by fastforce
  consider "w' = w" | "\<exists>e'. x1 = Inl e'" "w' = w1" | "x1 = Inr ()" "\<exists>e'. x2 = Inl e'" "w' = w2"
    | "x1 = Inr ()" "x2 = Inr ()" "flush ops w2 = (Inl e, w')"
    using assms Inr w1 w2 by (auto simp: write_msg_def split: sum.splits if_splits prod.splits)
  then show ?thesis
  proof cases
    case 1
    then show ?thesis by (intro exI [of _ 0]) simp
  next
    case 2
    then obtain k where "sent w' = sent w @ take k ?hdr" using w1 write_all_err by metis
    then show ?thesis by (intro exI [of _ "min k 4"]) (simp add: F min_def)
  next
    case 3
    then obtain k where "sent w' = sent w @ ?hdr @ take k payload"
      using w1 w2 write_all_ok write_all_err by (metis append.assoc)
    then show ?thesis by (intro exI [of _ "4 + k"]) (simp add: F)
  next
    case 4
    then have "sent w' = sent w @ frame_of c m"
      using w1 w2 write_all_ok flush_sent F by (metis append.assoc)
    then show ?thesis by (intro exI [of _ "length (frame_of c m)"]) simp
  qed
qed

lemma write_msgs_healthy:
  assumes "healthy w" "\<forall>m\<in>set ms. fits c m"
  shows "\<exists>w'. write_msgs c ops w ms = (Inr (), w') \<and> healthy w' \<and>
           sent w' = sent w @ concat (map (frame_of c) ms)"
  using assms
proof (induction ms arbitrary: w)
  case Nil
  then show ?case by simp
next
  case (Cons m ms)
  then obtain payload where p: "to_vec c m = Inr payload" "length payload \<le> 65536"
    by (auto simp: fits_def unat_MAX_FRAME_BYTES split: sum.splits)
  obtain w1 where w1: "write_all ops w (u32_to_be (of_nat (length payload))) = (Inr (), w1)" "healthy w1"
    using healthy_write [OF Cons.prems(1)] by blast
  obtain w2 where w2: "write_all ops w1 payload = (Inr (), w2)" "healthy w2"
    using healthy_write [OF w1(2)] by blast
  obtain w3 where w3: "flush ops w2 = (Inr (), w3)" "healthy w3"
    using healthy_flush [OF w2(2)] by blast
  have W: "write_msg c ops w m = (Inr (), w3)"
    using p w1 w2 w3 by (simp add: write_msg_def unat_MAX_FRAME_BYTES)
  with Cons.IH [OF w3(2)] Cons.prems(2) write_msg_ok(2) [OF W] show ?case by auto
qed

end

section \<open>A stream in memory\<close>

text \<open>
  The peer's bytes end in an end of file or an error (a reset); writes go through until the
  connection has taken \<open>room\<close> bytes, if there is such a limit, and then fail. This is
  \<open>tokio\<close>'s \<open>read_exact\<close> and \<open>write_all\<close> on a \<open>TcpStream\<close>, and on the \<open>Cursor\<close> and \<open>Vec\<close>
  of the unit tests (an ending of \<open>None\<close>, no limit).
\<close>

record stream =
  inbox :: bytes
  ending :: "io_error option"
  outbox :: bytes
  room :: "nat option"

definition stream_read_exact :: "stream reader" where
  "stream_read_exact s n =
     (if n \<le> length (inbox s) then (Inr (take n (inbox s)), s\<lparr>inbox := drop n (inbox s)\<rparr>)
      else (Inl (case ending s of None \<Rightarrow> IoError UnexpectedEof ''early eof'' | Some e \<Rightarrow> e),
            s\<lparr>inbox := []\<rparr>))"

definition stream_write_all :: "stream \<Rightarrow> bytes \<Rightarrow> unit io_result \<times> stream" where
  "stream_write_all s bs =
     (case room s of
        None \<Rightarrow> (Inr (), s\<lparr>outbox := outbox s @ bs\<rparr>)
      | Some n \<Rightarrow>
          if length bs \<le> n then (Inr (), s\<lparr>outbox := outbox s @ bs, room := Some (n - length bs)\<rparr>)
          else (Inl (IoError (Os 32) ''broken pipe''), s\<lparr>outbox := outbox s @ take n bs, room := Some 0\<rparr>))"

definition stream_ops :: "stream writer" where
  "stream_ops = \<lparr>write_all = stream_write_all, flush = (\<lambda>s. (Inr (), s))\<rparr>"

interpretation src: byte_source stream_read_exact inbox
  by unfold_locales (auto simp: stream_read_exact_def)

interpretation snk: byte_sink stream_ops outbox "\<lambda>s. room s = None"
  by unfold_locales
     (auto simp: stream_ops_def stream_write_all_def split: option.splits if_splits)

definition mem_stream :: "bytes \<Rightarrow> stream" where
  "mem_stream bs = \<lparr>inbox = bs, ending = None, outbox = [], room = None\<rparr>"

section \<open>Properties\<close>

text \<open>
  C10. Messages come out of the channel in the order they went in: what \<open>write_msg\<close> puts on
  a stream for a list of messages that fit and that the JSON decoder reads back,
  \<open>read_msg\<close> turns into the same list, and leaves exactly the bytes that follow.
\<close>

theorem framing_roundtrip:
  assumes "\<forall>m\<in>set ms. decodes c m \<and> fits c m" and "room w = None"
  shows "\<exists>w'. write_msgs c stream_ops w ms = (Inr (), w') \<and>
           (\<forall>r rest. inbox r = drop (length (outbox w)) (outbox w') @ rest \<longrightarrow>
              (\<exists>r'. read_msgs c stream_read_exact r (length ms) = (Inr ms, r') \<and> inbox r' = rest))"
proof -
  obtain w' where w': "write_msgs c stream_ops w ms = (Inr (), w')"
    "outbox w' = outbox w @ concat (map (frame_of c) ms)"
    using snk.write_msgs_healthy [of w ms c] assms by auto
  have "\<exists>r'. read_msgs c stream_read_exact r (length ms) = (Inr ms, r') \<and> inbox r' = rest"
    if "inbox r = drop (length (outbox w)) (outbox w') @ rest" for r rest
    using that w'(2) by (intro src.read_msgs_frames [OF _ assms(1)]) simp
  with w'(1) show ?thesis by blast
qed

text \<open>A codec that knows the two messages without a payload, for the witnesses.\<close>

definition ascii :: "string \<Rightarrow> bytes" where
  "ascii s = map of_char s"

definition toy_codec :: codec where
  "toy_codec =
     \<lparr>to_vec = (\<lambda>m. if m = Run then Inr (ascii ''{\"type\":\"Run\"}'')
                  else if m = Stop then Inr (ascii ''{\"type\":\"Stop\"}'')
                  else Inl (IoError InvalidData ''unsupported'')),
      from_slice = (\<lambda>bs. if bs = ascii ''{\"type\":\"Run\"}'' then Inr Run
                  else if bs = ascii ''{\"type\":\"Stop\"}'' then Inr Stop
                  else Inl (IoError InvalidData ''expected value''))\<rparr>"

lemma toy_codec_ok: "\<forall>m\<in>set [Run, Stop]. decodes toy_codec m \<and> fits toy_codec m"
  by (simp add: decodes_def fits_def toy_codec_def ascii_def unat_MAX_FRAME_BYTES)

theorem framing_roundtrip_witness:
  "\<exists>w'. write_msgs toy_codec stream_ops (mem_stream []) [Run, Stop] = (Inr (), w') \<and>
     (\<exists>r'. read_msgs toy_codec stream_read_exact (mem_stream (outbox w' @ [7])) 2 = (Inr [Run, Stop], r')
        \<and> inbox r' = [7])"
proof -
  have "room (mem_stream []) = None" "outbox (mem_stream []) = []" by (simp_all add: mem_stream_def)
  with framing_roundtrip [OF toy_codec_ok, of "mem_stream []"] obtain w' where
    "write_msgs toy_codec stream_ops (mem_stream []) [Run, Stop] = (Inr (), w')"
    and r: "\<And>r rest. inbox r = outbox w' @ rest \<Longrightarrow>
      \<exists>r'. read_msgs toy_codec stream_read_exact r 2 = (Inr [Run, Stop], r') \<and> inbox r' = rest"
    by (auto simp: numeral_2_eq_2)
  moreover have "inbox (mem_stream (outbox w' @ [7])) = outbox w' @ [7]" by (simp add: mem_stream_def)
  ultimately show ?thesis by blast
qed

text \<open>
  A peer cannot make the receiver accept, or allocate for, an oversized frame: when the
  declared length is above the cap, \<open>read_msg\<close> fails with \<open>InvalidData\<close> after consuming the
  four bytes of the header, whatever follows them.
\<close>

lemma oversized_length_rejected:
  assumes "inbox s = u32_to_be len @ rest" and "MAX_FRAME_BYTES < len"
  shows "\<exists>s'. read_msg c stream_read_exact s =
           (Inl (IoError InvalidData ''declared frame length exceeds MAX_FRAME_BYTES''), s')
         \<and> inbox s' = rest"
  by (rule src.read_msg_oversized [OF assms])

lemma oversized_length_rejected_witness:
  "\<exists>s'. read_msg toy_codec stream_read_exact (mem_stream (u32_to_be 65537 @ [1, 2])) =
     (Inl (IoError InvalidData ''declared frame length exceeds MAX_FRAME_BYTES''), s')
     \<and> inbox s' = [1, 2]"
  by (rule oversized_length_rejected [where len = 65537 and rest = "[1, 2]"])
     (simp_all add: mem_stream_def MAX_FRAME_BYTES_def word_less_nat_alt)

text \<open>
  No message is made from a cut-off frame: on any strict prefix of the frame of a payload
  within the cap, followed by the end of the stream, \<open>read_msg\<close> returns an error.
\<close>

lemma truncated_frame_is_error:
  assumes "inbox s = take k (frame payload)" and "k < length (frame payload)"
    and "length payload \<le> unat MAX_FRAME_BYTES"
  shows "\<exists>e s'. read_msg c stream_read_exact s = (Inl e, s')"
  using assms by (intro src.read_msg_truncated) (simp_all add: unat_MAX_FRAME_BYTES)

lemma truncated_frame_is_error_witness:
  "\<exists>e s'. read_msg toy_codec stream_read_exact (mem_stream (take 6 (frame [1, 2, 3]))) = (Inl e, s')"
  by (rule truncated_frame_is_error [where k = 6 and payload = "[1, 2, 3]"])
     (simp_all add: mem_stream_def unat_MAX_FRAME_BYTES)

text \<open>
  C29. What \<open>write_msg\<close> leaves on the stream: on success the whole frame of a message within
  the cap; on an error a prefix of the frame, and nothing at all when the error is the cap.
\<close>

theorem write_msg_effect:
  "case write_msg c stream_ops s m of
     (Inr _, s') \<Rightarrow> fits c m \<and> outbox s' = outbox s @ frame_of c m
   | (Inl e, s') \<Rightarrow> (\<exists>k. outbox s' = outbox s @ take k (frame_of c m)) \<and>
       (e = IoError InvalidData ''control message exceeds MAX_FRAME_BYTES'' \<and> to_vec c m \<noteq> Inl e
          \<longrightarrow> s' = s)"
proof -
  obtain x s' where eq: "write_msg c stream_ops s m = (x, s')" by fastforce
  show ?thesis
  proof (cases x)
    case (Inr u)
    with eq snk.write_msg_ok [of c s m u s'] show ?thesis by simp
  next
    case (Inl e)
    have "s' = s" if "e = IoError InvalidData ''control message exceeds MAX_FRAME_BYTES''" "to_vec c m \<noteq> Inl e"
      using eq Inl that
      by (auto simp: write_msg_def stream_ops_def stream_write_all_def
          split: sum.splits if_splits option.splits prod.splits)
    with eq Inl snk.write_msg_prefix [of c s m e s'] show ?thesis by auto
  qed
qed

theorem write_msg_effect_witness:
  "case write_msg toy_codec stream_ops (mem_stream []) Run of
     (Inr _, s') \<Rightarrow> fits toy_codec Run \<and> outbox s' = outbox (mem_stream []) @ frame_of toy_codec Run
   | (Inl e, s') \<Rightarrow> (\<exists>k. outbox s' = outbox (mem_stream []) @ take k (frame_of toy_codec Run)) \<and>
       (e = IoError InvalidData ''control message exceeds MAX_FRAME_BYTES'' \<and> to_vec toy_codec Run \<noteq> Inl e
          \<longrightarrow> s' = mem_stream [])"
  by (rule write_msg_effect)

end
