(* ===== verification/Timing.thy ===== *)
theory Timing
  imports F64
begin

text \<open>
  \<open>std::time\<close>, as far as the program uses it. A \<open>Duration\<close> and a reading of the monotonic
  clock (\<open>Instant\<close>) are whole nanoseconds; \<open>duration_since\<close> and \<open>elapsed\<close> saturate at zero,
  as they do in the standard library. Adding durations panics in every profile when the
  seconds leave \<open>u64\<close>, adding to an instant when they leave the \<open>i64\<close> of the Unix clock.
\<close>

section \<open>Durations and instants\<close>

type_synonym duration = nat
type_synonym instant = nat

definition from_secs :: "u64 \<Rightarrow> duration" where
  "from_secs s = unat s * 1000000000"

definition from_millis :: "u64 \<Rightarrow> duration" where
  "from_millis ms = unat ms * 1000000"

definition duration_add :: "duration \<Rightarrow> duration \<Rightarrow> duration option" where
  "duration_add a b = (if (a + b) div 1000000000 < 2 ^ 64 then Some (a + b) else None)"

definition instant_add :: "instant \<Rightarrow> duration \<Rightarrow> instant option" where
  "instant_add t d = (if (t + d) div 1000000000 < 2 ^ 63 then Some (t + d) else None)"

definition duration_since :: "instant \<Rightarrow> instant \<Rightarrow> duration" where
  "duration_since t t0 = t - t0"

text \<open>\<open>as_nanos() as u64\<close>: the \<open>u128\<close> is truncated.\<close>

definition as_nanos_u64 :: "duration \<Rightarrow> u64" where
  "as_nanos_u64 d = of_nat d"

definition as_secs_f64 :: "duration \<Rightarrow> f64" where
  "as_secs_f64 d =
     fadd (u64_to_f64 (of_nat (d div 1000000000)))
          (fdiv (u64_to_f64 (of_nat (d mod 1000000000))) (Fin 1000000000))"

text \<open>The durations of the source: their seconds fit \<open>u64\<close>.\<close>

definition duration_ok :: "duration \<Rightarrow> bool" where
  "duration_ok d \<longleftrightarrow> d div 1000000000 < 2 ^ 64"

section \<open>Seconds as a float\<close>

lemma as_secs_parts:
  shows "fval (fdiv (u64_to_f64 (of_nat (d mod 1000000000))) (Fin 1000000000))
           = fl (of_nat (d mod 1000000000) / 1000000000)"
    and "rep (fdiv (u64_to_f64 (of_nat (d mod 1000000000))) (Fin 1000000000))"
proof -
  let ?n = "d mod 1000000000"
  have lt: "?n < 1000000000" by simp
  then have un: "unat (of_nat ?n :: u64) = ?n" by (simp add: unat_of_nat)
  then have "(unsigned (of_nat ?n :: u64) :: rat) = of_nat ?n"
    by (metis of_nat_unat)
  then have val: "fval (u64_to_f64 (of_nat ?n)) = of_nat ?n"
    using u64_to_f64_exact [of "of_nat ?n"] un lt by simp
  have "(of_nat ?n :: rat) \<le> of_nat 1000000000" using lt by (simp only: of_nat_le_iff)
  then have "\<bar>of_nat ?n / 1000000000 :: rat\<bar> \<le> fmax" using power_le_fmax [of 0] by simp
  then show "fval (fdiv (u64_to_f64 (of_nat ?n)) (Fin 1000000000)) = fl (of_nat ?n / 1000000000)"
    and "rep (fdiv (u64_to_f64 (of_nat ?n)) (Fin 1000000000))"
    using val by (simp_all add: fdiv_finite u64_to_f64 del: of_nat_mod)
qed

lemma as_secs_f64_val:
  shows "fval (as_secs_f64 d)
           = fl (fval (u64_to_f64 (of_nat (d div 1000000000)))
                 + fl (of_nat (d mod 1000000000) / 1000000000))"
    and "rep (as_secs_f64 d)"
proof -
  let ?q = "u64_to_f64 (of_nat (d div 1000000000))"
  let ?r = "fl (of_nat (d mod 1000000000) / 1000000000) :: rat"
  have "(of_nat (d mod 1000000000) :: rat) \<le> of_nat 1000000000"
    by (intro of_nat_mono) simp
  then have "0 \<le> ?r \<and> ?r \<le> 1" by (intro fl.rnd_unit) (simp_all del: of_nat_mod)
  then have "\<bar>fval ?q + ?r\<bar> \<le> 2 ^ 65" using u64_to_f64_bounds [of "of_nat (d div 1000000000)"] by simp
  also have "\<dots> \<le> fmax" by (rule power_le_fmax) simp
  finally have b: "\<bar>fval ?q + ?r\<bar> \<le> fmax" .
  note P = as_secs_parts [of d]
  show "fval (as_secs_f64 d) = fl (fval ?q + ?r)" and "rep (as_secs_f64 d)"
    unfolding as_secs_f64_def
    using fadd_finite [of ?q "fdiv (u64_to_f64 (of_nat (d mod 1000000000))) (Fin 1000000000)"]
      b P rep_finite [OF P(2)] u64_to_f64(3) by simp_all
qed

lemma as_secs_f64_nonneg: "0 \<le> fval (as_secs_f64 d)"
  unfolding as_secs_f64_val
  by (intro fl_nonneg add_nonneg_nonneg u64_to_f64_bounds) (simp del: of_nat_mod)

lemma as_secs_f64_finite: "is_finite (as_secs_f64 d)"
  by (rule rep_finite [OF as_secs_f64_val(2)])

lemma as_secs_f64_0 [simp]: "fval (as_secs_f64 0) = 0"
  by (simp add: as_secs_f64_val)

lemma as_secs_f64_pos:
  assumes "0 < d" "duration_ok d"
  shows "1 / 2 ^ 30 \<le> fval (as_secs_f64 d)"
proof -
  have r: "fl (1 / 2 ^ 30) = 1 / 2 ^ 30"
    using fl_exact [of 1 "- 30"] by simp
  define n where "n = d mod 1000000000"
  define q where "q = d div 1000000000"
  have d: "fval (as_secs_f64 d) = fl (fval (u64_to_f64 (of_nat q)) + fl (of_nat n / 1000000000))"
    unfolding n_def q_def by (rule as_secs_f64_val)
  have nn: "0 \<le> fval (u64_to_f64 (of_nat q))" "0 \<le> fl (of_nat n / 1000000000)"
    by (simp_all add: u64_to_f64_bounds fl_nonneg)
  show ?thesis
  proof (cases "n = 0")
    case False
    then have "of_nat 1 \<le> (of_nat n :: rat)" by (intro of_nat_mono) simp
    then have "1 / 1000000000 \<le> (of_nat n / 1000000000 :: rat)"
      by (simp only: of_nat_1)
    then have "1 / 2 ^ 30 \<le> (of_nat n / 1000000000 :: rat)"
      by (rule order_trans [rotated]) simp
    then have "1 / 2 ^ 30 \<le> fl (of_nat n / 1000000000)" by (rule fl.rnd_lower [OF r])
    then show ?thesis unfolding d using nn by (intro fl.rnd_lower [OF r]) linarith
  next
    case True
    then have "0 < q" using assms(1) unfolding n_def q_def by (metis div_mult_mod_eq add.right_neutral gr0I mult_is_0)
    then have "unat (of_nat q :: u64) \<noteq> 0" using assms(2) by (simp add: unat_of_nat duration_ok_def q_def)
    then have "1 \<le> fval (u64_to_f64 (of_nat q))"
      by (intro fval_u64_to_f64_pos) (simp add: word_less_nat_alt)
    then show ?thesis unfolding d using nn by (intro fl.rnd_lower [OF r]) simp
  qed
qed

lemma warmup_limit: "duration_add (from_secs w) (from_millis 100) = Some (from_secs w + 100000000)"
proof -
  have "from_secs w + 100000000 < 2 ^ 64 * 1000000000"
  proof -
    have "Suc (unat w) \<le> 2 ^ 64" using unsigned_less [of w, where 'a = nat] by simp
    then have "Suc (unat w) * 1000000000 \<le> 2 ^ 64 * 1000000000" by (rule mult_le_mono1)
    then show ?thesis by (simp add: from_secs_def)
  qed
  then have "(from_secs w + 100000000) div 1000000000 < 2 ^ 64"
    by (simp add: less_mult_imp_div_less)
  then show ?thesis by (simp add: duration_add_def from_millis_def)
qed

end
