(* ===== verification/Event_Loop.thy ===== *)
theory Event_Loop
  imports Prelude
begin

text \<open>
  A receiver whose tasks act in any order: a step for each action, which may fail, and a
  check whether everything the function awaits is there, which ends it before the next action.
  The locale has what follows from that alone; the receivers of \<open>modes/tcp.rs\<close> and
  \<open>modes/file.rs\<close> are instances.
\<close>

text \<open>The state after a sequence of actions.\<close>

fun run_steps :: "('s \<Rightarrow> 'e \<Rightarrow> 's outcome) \<Rightarrow> 's \<Rightarrow> 'e list \<Rightarrow> 's outcome" where
  "run_steps step s [] = Inr s"
| "run_steps step s (ev # evs) = and_then (step s ev) (\<lambda>s'. run_steps step s' evs)"

lemma run_steps_append:
  "run_steps step s (xs @ ys) = and_then (run_steps step s xs) (\<lambda>s'. run_steps step s' ys)"
proof (induction xs arbitrary: s)
  case (Cons x xs)
  then show ?case by (cases "step s x") simp_all
qed simp

lemma run_steps_split:
  assumes "run_steps step s evs = Inr s'" "ev \<in> set evs"
  shows "\<exists>xs ys s1 s2. evs = xs @ ev # ys \<and> run_steps step s xs = Inr s1 \<and> step s1 ev = Inr s2
    \<and> run_steps step s2 ys = Inr s'"
proof -
  obtain xs ys where x: "evs = xs @ ev # ys" using assms(2) by (meson split_list)
  with assms(1) show ?thesis by (auto simp: run_steps_append and_then_Inr)
qed

text \<open>What each step keeps, a sequence keeps.\<close>

lemma run_steps_invariant:
  assumes "run_steps step s evs = Inr s'" "I s"
    and "\<And>s ev s'. ev \<in> set evs \<Longrightarrow> step s ev = Inr s' \<Longrightarrow> I s \<Longrightarrow> I s'"
  shows "I s'"
  using assms
proof (induction evs arbitrary: s)
  case (Cons ev evs)
  then obtain s1 where s1: "step s ev = Inr s1" "run_steps step s1 evs = Inr s'" by (auto simp: and_then_Inr)
  have "I s1" by (rule Cons.prems(3) [OF _ s1(1) Cons.prems(2)]) simp
  from Cons.IH [OF s1(2) this] Cons.prems(3) show ?case by (meson list.set_intros(2))
qed simp

locale event_loop =
  fixes step :: "'s \<Rightarrow> 'e \<Rightarrow> 's outcome" and finish :: "'s \<Rightarrow> 'r option"
    and run :: "'s \<Rightarrow> 'e list \<Rightarrow> 'r outcome option"
  assumes run_finished: "finish s = Some r \<Longrightarrow> run s evs = Some (Inr r)"
    and run_waiting: "finish s = None \<Longrightarrow> run s [] = None"
    and run_step: "finish s = None \<Longrightarrow>
      run s (ev # evs) = (case step s ev of Inl f \<Rightarrow> Some (Inl f) | Inr s' \<Rightarrow> run s' evs)"
begin

text \<open>A result comes from the first state in which the function can finish.\<close>

lemma run_result:
  assumes "run s evs = Some (Inr r)"
  shows "\<exists>xs ys s'. evs = xs @ ys \<and> run_steps step s xs = Inr s' \<and> finish s' = Some r"
  using assms
proof (induction evs arbitrary: s)
  case Nil
  then show ?case by (cases "finish s") (simp_all add: run_waiting run_finished)
next
  case (Cons ev evs)
  show ?case
  proof (cases "finish s")
    case (Some r')
    with Cons.prems show ?thesis
      by (intro exI [of _ "[]"] exI [of _ "ev # evs"] exI [of _ s]) (simp add: run_finished)
  next
    case None
    then obtain s1 where s1: "step s ev = Inr s1" "run s1 evs = Some (Inr r)"
      using Cons.prems by (auto simp: run_step split: sum.splits)
    from Cons.IH [OF s1(2)] obtain xs ys s' where
      "evs = xs @ ys" "run_steps step s1 xs = Inr s'" "finish s' = Some r" by blast
    with s1(1) show ?thesis by (intro exI [of _ "ev # xs"] exI [of _ ys] exI [of _ s']) simp
  qed
qed

lemma run_invariant:
  assumes "run s evs = Some (Inr r)" "I s" "\<And>s ev s'. step s ev = Inr s' \<Longrightarrow> I s \<Longrightarrow> I s'"
  shows "\<exists>s'. I s' \<and> finish s' = Some r"
  using run_result [OF assms(1)] run_steps_invariant [where I = I, OF _ assms(2)] assms(3) by metis

text \<open>Once it can finish, it has.\<close>

lemma run_returns:
  assumes "run_steps step s xs = Inr s'" "finish s' \<noteq> None"
  shows "\<exists>r. run s (xs @ ys) = Some (Inr r)"
  using assms(1)
proof (induction xs arbitrary: s)
  case Nil
  with assms(2) show ?case by (auto simp: run_finished)
next
  case (Cons ev xs)
  then obtain s1 where s1: "step s ev = Inr s1" "run_steps step s1 xs = Inr s'" by (auto simp: and_then_Inr)
  from Cons.IH [OF s1(2)] s1(1) show ?case
    by (cases "finish s") (auto simp: run_step run_finished)
qed

text \<open>More actions do not change what it has returned.\<close>

lemma run_more: "run s xs = Some y \<Longrightarrow> run s (xs @ ys) = Some y"
proof (induction xs arbitrary: s)
  case Nil
  then show ?case by (cases "finish s") (simp_all add: run_waiting run_finished)
next
  case (Cons ev xs)
  then show ?case by (cases "finish s") (auto simp: run_step run_finished split: sum.splits)
qed

end

end
