(* ===== verification/Cli.thy ===== *)
theory Cli
  imports F64
begin

text \<open>
  \<open>src/src/cli.rs\<close>: the parsed options, the mode selection, the bitrate parser and the
  rendering of a rate. Parsing the command line itself is the \<open>clap\<close> crate and not modelled;
  what the derived parser guarantees (exactly one of \<open>--server\<close> and \<open>--client\<close>, at most one
  mode flag) are the predicates \<open>role_group\<close> and \<open>mode_group\<close>.

  Text the program reads is a list of Unicode scalar values (\<open>chars\<close>), text it prints a
  string. \<open>parse_f64\<close> is the standard library's \<open>f64::from_str\<close>, \<open>fixed\<close> its \<open>{:.n}\<close>.
\<close>

definition DEFAULT_PORT :: u16 where
  "DEFAULT_PORT = 5201"

section \<open>Rendering a rate\<close>

datatype format = Bits | Bytes | Mbps | Gbps

text \<open>\<open>{:.k}\<close>: the exact decimal expansion, rounded half to even at the \<open>k\<close>-th digit.\<close>

definition fixed_rat :: "nat \<Rightarrow> rat \<Rightarrow> string" where
  "fixed_rat k x =
     (let n = nat (rne (x * 10 ^ k))
      in if k = 0 then show_nat n
         else show_nat (n div 10 ^ k) @ ''.'' @ pad_left (CHR ''0'') k (show_nat (n mod 10 ^ k)))"

fun fixed :: "nat \<Rightarrow> f64 \<Rightarrow> string" where
  "fixed k NaN = ''NaN''"
| "fixed k PosInf = ''inf''"
| "fixed k NegInf = ''-inf''"
| "fixed k NegZero = ''-'' @ fixed_rat k 0"
| "fixed k (Fin x) = (if x < 0 then ''-'' @ fixed_rat k (- x) else fixed_rat k x)"

fun render :: "format \<Rightarrow> f64 \<Rightarrow> string" where
  "render Bits bits_per_sec = fixed 0 bits_per_sec @ '' bit/s''"
| "render Bytes bits_per_sec = fixed 0 (fdiv bits_per_sec (Fin 8)) @ '' byte/s''"
| "render Mbps bits_per_sec = fixed 2 (fdiv bits_per_sec (Fin 1000000)) @ '' Mbps''"
| "render Gbps bits_per_sec = fixed 2 (fdiv bits_per_sec (Fin 1000000000)) @ '' Gbps''"

section \<open>Options\<close>

record role_flags =
  rl_server :: bool
  rl_client :: "string option"

datatype cli_mode = TcpMode | UdpMode | FileMode

fun mode_display :: "cli_mode \<Rightarrow> string" where
  "mode_display TcpMode = ''TCP''"
| "mode_display UdpMode = ''UDP''"
| "mode_display FileMode = ''FILE''"

record mode_flags =
  mf_tcp :: bool
  mf_udp :: bool
  mf_file :: "string option"

record client_opts =
  o_mode :: mode_flags
  o_duration :: u64
  o_parallel :: u32
  o_bidir :: bool
  o_bitrate :: "u64 option"
  o_packet :: usize
  o_null_source :: bool
  o_json :: bool

record cli =
  c_role :: role_flags
  c_client_opts :: client_opts
  c_port :: u16
  c_format :: format
  c_verbose :: bool

definition role_group :: "role_flags \<Rightarrow> bool" where
  "role_group r \<longleftrightarrow> (rl_server r \<longleftrightarrow> rl_client r = None)"

definition mode_group :: "mode_flags \<Rightarrow> bool" where
  "mode_group f \<longleftrightarrow>
     of_bool (mf_tcp f) + of_bool (mf_udp f) + of_bool (mf_file f \<noteq> None) \<le> (1::nat)"

definition selected :: "mode_flags \<Rightarrow> cli_mode option" where
  "selected f =
     (if mf_tcp f then Some TcpMode
      else if mf_udp f then Some UdpMode
      else if mf_file f \<noteq> None then Some FileMode
      else None)"

section \<open>Text input\<close>

type_synonym chars = "nat list"

definition chars_of :: "string \<Rightarrow> chars" where
  "chars_of s = map of_char s"

text \<open>\<open>char::is_whitespace\<close> (the Unicode property \<open>White_Space\<close>) and \<open>str::trim\<close>.\<close>

definition is_whitespace :: "nat \<Rightarrow> bool" where
  "is_whitespace c \<longleftrightarrow>
     9 \<le> c \<and> c \<le> 13 \<or> c = 32 \<or> c = 133 \<or> c = 160 \<or> c = 5760 \<or> 8192 \<le> c \<and> c \<le> 8202
     \<or> c = 8232 \<or> c = 8233 \<or> c = 8239 \<or> c = 8287 \<or> c = 12288"

definition trim :: "chars \<Rightarrow> chars" where
  "trim s = rev (dropWhile is_whitespace (rev (dropWhile is_whitespace s)))"

definition is_digit :: "nat \<Rightarrow> bool" where
  "is_digit c \<longleftrightarrow> 48 \<le> c \<and> c \<le> 57"

definition digits_value :: "chars \<Rightarrow> nat" where
  "digits_value ds = foldl (\<lambda>n c. 10 * n + (c - 48)) 0 ds"

definition to_ascii_lowercase :: "chars \<Rightarrow> chars" where
  "to_ascii_lowercase s = map (\<lambda>c. if 65 \<le> c \<and> c \<le> 90 then c + 32 else c) s"

text \<open>An optional sign: whether it is a minus, and the rest.\<close>

fun split_sign :: "chars \<Rightarrow> bool \<times> chars" where
  "split_sign (c # cs) = (if c = 45 then (True, cs) else if c = 43 then (False, cs) else (False, c # cs))"
| "split_sign [] = (False, [])"

text \<open>The exponent part: empty, or \<open>e\<close> or \<open>E\<close>, a sign and digits.\<close>

definition parse_exponent :: "chars \<Rightarrow> int option" where
  "parse_exponent s =
     (case s of
        [] \<Rightarrow> Some 0
      | c # cs \<Rightarrow>
          if c = 101 \<or> c = 69 then
            (let (neg, ds) = split_sign cs
             in if ds \<noteq> [] \<and> list_all is_digit ds
                then Some (if neg then - int (digits_value ds) else int (digits_value ds))
                else None)
          else None)"

text \<open>Digits, a point and digits (one of the two parts not empty), and the exponent.\<close>

definition parse_number :: "chars \<Rightarrow> rat option" where
  "parse_number s =
     (let ip = takeWhile is_digit s; r = dropWhile is_digit s;
          (fp, r') = (case r of
             c # cs \<Rightarrow> if c = 46 then (takeWhile is_digit cs, dropWhile is_digit cs) else ([], r)
           | [] \<Rightarrow> ([], []))
      in if ip = [] \<and> fp = [] then None
         else (case parse_exponent r' of
             None \<Rightarrow> None
           | Some e \<Rightarrow> Some (of_nat (digits_value (ip @ fp)) * 10 powi (e - int (length fp)))))"

definition parse_f64 :: "chars \<Rightarrow> f64 option" where
  "parse_f64 s =
     (let (neg, r) = split_sign s; l = to_ascii_lowercase r
      in if l = chars_of ''nan'' then Some NaN
         else if l = chars_of ''inf'' \<or> l = chars_of ''infinity'' then Some (signed_inf neg)
         else (case parse_number r of
             None \<Rightarrow> None
           | Some x \<Rightarrow> Some (if neg then fneg (round64 x) else round64 x)))"

section \<open>The bitrate parser\<close>

datatype bitrate_error = InvalidBitrate chars | NegativeBitrate chars

definition bitrate_suffix :: "chars \<Rightarrow> chars \<times> rat" where
  "bitrate_suffix s =
     (if s = [] then (s, 1)
      else if last s = 75 \<or> last s = 107 then (butlast s, 1000)
      else if last s = 77 \<or> last s = 109 then (butlast s, 1000000)
      else if last s = 71 \<or> last s = 103 then (butlast s, 1000000000)
      else (s, 1))"

definition parse_bitrate :: "chars \<Rightarrow> bitrate_error + u64" where
  "parse_bitrate input =
     (let s = trim input; (num, mult) = bitrate_suffix s
      in case parse_f64 (trim num) of
           None \<Rightarrow> Inl (InvalidBitrate s)
         | Some value \<Rightarrow>
             if flt value (Fin 0) then Inl (NegativeBitrate s)
             else Inr (f64_to_u64 (fmul value (Fin mult))))"

section \<open>Decimal text\<close>

lemma digits_value_snoc: "digits_value (ds @ [d]) = 10 * digits_value ds + (d - 48)"
  by (simp add: digits_value_def)

lemma of_char_digit_char: "d < 10 \<Longrightarrow> (of_char (digit_char d) :: nat) = 48 + d"
  by (simp add: digit_char_def)

lemma chars_of_show_nat:
  "chars_of (show_nat n) \<noteq> [] \<and> list_all is_digit (chars_of (show_nat n))
   \<and> digits_value (chars_of (show_nat n)) = n"
proof (induction n rule: show_nat.induct)
  case (1 n)
  show ?case
  proof (cases "n < 10")
    case True
    then show ?thesis
      by (simp add: show_nat.simps [of n] chars_of_def of_char_digit_char is_digit_def digits_value_def)
  next
    case False
    have "n mod 10 < 10" by simp
    note dc = of_char_digit_char [OF this]
    have eq: "chars_of (show_nat n) = chars_of (show_nat (n div 10)) @ [48 + n mod 10]"
      using False by (simp add: show_nat.simps [of n] chars_of_def dc)
    have "is_digit (48 + n mod 10)" by (simp add: is_digit_def)
    with 1 False show ?thesis unfolding eq by (simp add: digits_value_snoc)
  qed
qed

lemma is_digit_not_space: "is_digit c \<Longrightarrow> \<not> is_whitespace c"
  by (auto simp: is_digit_def is_whitespace_def)

lemma trim_id:
  assumes "s = [] \<or> \<not> is_whitespace (hd s) \<and> \<not> is_whitespace (last s)"
  shows "trim s = s"
proof (cases s rule: rev_cases)
  case (snoc xs x)
  moreover have "dropWhile is_whitespace s = s" using assms by (cases s) auto
  ultimately show ?thesis using assms by (simp add: trim_def)
qed (simp add: trim_def)

text \<open>A run of digits denotes its number, and no keyword.\<close>

lemma parse_number_digits:
  assumes "ds \<noteq> []" "list_all is_digit ds"
  shows "parse_number ds = Some (of_nat (digits_value ds))"
proof -
  have tw: "takeWhile is_digit ds = ds" and dw: "dropWhile is_digit ds = []"
    using assms(2) by (simp_all add: list_all_iff)
  show ?thesis using assms(1) by (simp add: parse_number_def parse_exponent_def Let_def tw dw)
qed

lemma parse_f64_digits:
  assumes "ds \<noteq> []" "list_all is_digit ds"
  shows "parse_f64 ds = Some (round64 (of_nat (digits_value ds)))"
proof -
  obtain d ds' where ds: "ds = d # ds'" "is_digit d" using assms by (cases ds) auto
  then have "to_ascii_lowercase ds \<noteq> chars_of (c # cs)" if "\<not> is_digit (of_char c)" for c cs
    using that by (auto simp: to_ascii_lowercase_def chars_of_def is_digit_def)
  moreover have "split_sign ds = (False, ds)" using ds by (auto simp: is_digit_def)
  moreover have "\<not> is_digit (of_char CHR ''n'')" "\<not> is_digit (of_char CHR ''i'')"
    by (simp_all add: is_digit_def)
  ultimately show ?thesis
    using parse_number_digits [OF assms] by (simp add: parse_f64_def)
qed

definition suffix_mult :: "chars \<Rightarrow> nat option" where
  "suffix_mult sfx =
     (if sfx = [] then Some 1
      else if sfx = chars_of ''K'' \<or> sfx = chars_of ''k'' then Some 1000
      else if sfx = chars_of ''M'' \<or> sfx = chars_of ''m'' then Some 1000000
      else if sfx = chars_of ''G'' \<or> sfx = chars_of ''g'' then Some 1000000000
      else None)"

lemma parse_number_decimal:
  assumes "ds \<noteq> []" "list_all is_digit ds" "list_all is_digit fs"
  shows "parse_number (ds @ 46 # fs) = Some (of_nat (digits_value (ds @ fs)) / 10 ^ length fs)"
proof -
  have nd: "\<not> is_digit 46" by (simp add: is_digit_def)
  have tw: "takeWhile is_digit (ds @ 46 # fs) = ds" and dw: "dropWhile is_digit (ds @ 46 # fs) = 46 # fs"
    using assms(2) nd by (simp_all add: list_all_iff takeWhile_append2 dropWhile_append2)
  have tf: "takeWhile is_digit fs = fs" and df: "dropWhile is_digit fs = []"
    using assms(3) by (simp_all add: list_all_iff)
  have "(10::rat) powi (0 - int (length fs)) = 1 / 10 ^ length fs"
    by (simp add: power_int_minus divide_inverse)
  then show ?thesis using assms(1) by (simp add: parse_number_def parse_exponent_def Let_def tw dw tf df)
qed

text \<open>The fixed-point output reads back as the value, rounded at its last digit.\<close>

lemma digits_value_append: "digits_value (xs @ ys) = digits_value xs * 10 ^ length ys + digits_value ys"
proof (induction ys rule: rev_induct)
  case (snoc y ys)
  then show ?case by (simp add: digits_value_snoc flip: append_assoc)
qed (simp add: digits_value_def)

lemma length_show_nat: "0 < k \<Longrightarrow> n < 10 ^ k \<Longrightarrow> length (show_nat n) \<le> k"
proof (induction n arbitrary: k rule: show_nat.induct)
  case (1 n)
  show ?case
  proof (cases "n < 10")
    case False
    with "1.prems" obtain j where j: "k = Suc (Suc j)" by (cases k; cases "k - 1") auto
    with "1.prems" have "n div 10 < 10 ^ Suc j" by (simp add: div_less_iff_less_mult mult.commute)
    from "1.IH" [OF False _ this] j False show ?thesis by (simp add: show_nat.simps [of n])
  qed (use "1.prems" in \<open>simp add: show_nat.simps [of n]\<close>)
qed

lemma pad_left_digits:
  assumes "0 < k" "n < 10 ^ k"
  defines "fs \<equiv> chars_of (pad_left (CHR ''0'') k (show_nat n))"
  shows "length fs = k" "list_all is_digit fs" "digits_value fs = n"
proof -
  have zeros: "digits_value (replicate j 48) = 0" "list_all is_digit (replicate j 48)" for j
    by (induction j) (simp_all add: digits_value_def is_digit_def)
  have fs: "fs = replicate (k - length (show_nat n)) 48 @ chars_of (show_nat n)"
    by (simp add: fs_def pad_left_def chars_of_def)
  show "length fs = k" using length_show_nat [OF assms(1,2)] by (simp add: fs chars_of_def)
  show "list_all is_digit fs" "digits_value fs = n"
    using chars_of_show_nat [of n] by (simp_all add: fs digits_value_append zeros)
qed

lemma fixed_rat_parses:
  assumes "0 \<le> x"
  shows "parse_number (chars_of (fixed_rat k x)) = Some (of_int (rne (x * 10 ^ k)) / 10 ^ k)"
proof -
  define n where "n = nat (rne (x * 10 ^ k))"
  have "0 \<le> rne (x * 10 ^ k)" using rne_mono [of 0 "x * 10 ^ k"] assms rne_of_int [of 0] by simp
  then have n: "of_int (rne (x * 10 ^ k)) = (of_nat n :: rat)" by (simp add: n_def)
  show ?thesis
  proof (cases "k = 0")
    case True
    then have "fixed_rat k x = show_nat n" by (simp add: fixed_rat_def n_def)
    with chars_of_show_nat [of n] True n show ?thesis
      using parse_number_digits [of "chars_of (show_nat n)"] by simp
  next
    case False
    let ?ds = "chars_of (show_nat (n div 10 ^ k))" and ?fs = "chars_of (pad_left (CHR ''0'') k (show_nat (n mod 10 ^ k)))"
    have fs: "length ?fs = k" "list_all is_digit ?fs" "digits_value ?fs = n mod 10 ^ k"
      using pad_left_digits [of k "n mod 10 ^ k"] False by simp_all
    have "chars_of (fixed_rat k x) = ?ds @ 46 # ?fs"
      using False by (simp add: fixed_rat_def n_def [symmetric] Let_def) (simp add: chars_of_def)
    moreover have "digits_value (?ds @ ?fs) = n"
      using chars_of_show_nat [of "n div 10 ^ k"] fs div_mult_mod_eq [of n "10 ^ k"] by (simp only: digits_value_append)
    ultimately show ?thesis
      using parse_number_decimal [of ?ds ?fs] chars_of_show_nat [of "n div 10 ^ k"] fs n by simp
  qed
qed

lemma fixed_rat_error: "\<bar>of_int (rne (x * 10 ^ k)) / 10 ^ k - x\<bar> \<le> 1 / (2 * 10 ^ k)"
proof -
  have "of_int (rne (x * 10 ^ k)) / 10 ^ k - x = (of_int (rne (x * 10 ^ k)) - x * 10 ^ k) / 10 ^ k"
    by (simp add: diff_divide_distrib)
  then have "\<bar>of_int (rne (x * 10 ^ k)) / 10 ^ k - x\<bar> = \<bar>of_int (rne (x * 10 ^ k)) - x * 10 ^ k\<bar> / 10 ^ k"
    by (simp add: abs_divide)
  also have "\<dots> \<le> (1/2) / 10 ^ k" by (rule divide_right_mono [OF rne_bounds]) simp
  finally show ?thesis by simp
qed

text \<open>Two roundings and a truncation keep the parsed rate within two of the exact one.\<close>

lemma two_roundings:
  fixes q k :: rat
  assumes "0 \<le> q" "1 \<le> k" "k \<le> 2 ^ 30" "q * k \<le> 2 ^ 50"
  shows "\<bar>fl (fl q * k) - q * k\<bar> < 1"
proof -
  define h where "h = (2::rat) powi (- 1074) / 2"
  have h: "0 < h" "h * 2 ^ 41 \<le> 1"
  proof -
    show "0 < h" by (simp add: h_def)
    have "(2::rat) powi (- 1074) \<le> 2 powi (- 40)" by (rule powi2_mono) simp
    then show "h * 2 ^ 41 \<le> 1" by (simp add: h_def power_int_minus field_simps)
  qed
  have e1: "\<bar>fl q - q\<bar> * k \<le> (q / 2 ^ 53 + h) * k"
    using fl_error [of q] assms by (intro mult_right_mono) (simp_all add: h_def)
  have hk: "h * k \<le> h * 2 ^ 30" using h assms(3) by (intro mult_left_mono) simp_all
  have E: "\<bar>fl q * k - q * k\<bar> \<le> 1/8 + 1/2048"
  proof -
    have "\<bar>fl q * k - q * k\<bar> = \<bar>fl q - q\<bar> * k"
      using assms(2) by (simp add: abs_mult flip: left_diff_distrib)
    also have "\<dots> \<le> (q * k) / 2 ^ 53 + h * k" using e1 by (simp add: distrib_right)
    finally show ?thesis using assms(4) hk h(2) by simp
  qed
  have nn: "0 \<le> fl q * k" using assms by (simp add: fl_nonneg)
  have "\<bar>fl (fl q * k) - fl q * k\<bar> \<le> (fl q * k) / 2 ^ 53 + h"
    using fl_error [of "fl q * k"] nn by (simp add: h_def)
  moreover have "fl q * k \<le> 2 ^ 50 + 1" using E assms(4) by linarith
  ultimately have "\<bar>fl (fl q * k) - fl q * k\<bar> \<le> 1/8 + 1/2048" using h by simp
  with E show ?thesis by linarith
qed

lemma parse_f64_decimal:
  assumes "ds \<noteq> []" "list_all is_digit ds" "list_all is_digit fs"
  shows "parse_f64 (ds @ 46 # fs) = Some (round64 (of_nat (digits_value (ds @ fs)) / 10 ^ length fs))"
proof -
  obtain d ds' where ds: "ds = d # ds'" "is_digit d" using assms by (cases ds) auto
  then have "to_ascii_lowercase (ds @ 46 # fs) \<noteq> chars_of (c # cs)" if "\<not> is_digit (of_char c)" for c cs
    using that by (auto simp: to_ascii_lowercase_def chars_of_def is_digit_def)
  moreover have "split_sign (ds @ 46 # fs) = (False, ds @ 46 # fs)" using ds by (auto simp: is_digit_def)
  moreover have "\<not> is_digit (of_char CHR ''n'')" "\<not> is_digit (of_char CHR ''i'')"
    by (simp_all add: is_digit_def)
  ultimately show ?thesis
    using parse_number_decimal [OF assms] by (simp add: parse_f64_def)
qed

lemma suffix_mult_cases:
  "suffix_mult sfx = Some k \<Longrightarrow> sfx = [] \<and> k = 1 \<or> (\<exists>c. sfx = [c] \<and> \<not> is_digit c \<and> \<not> is_whitespace c)"
  by (auto simp: suffix_mult_def chars_of_def is_digit_def is_whitespace_def split: if_splits)

lemma suffix_mult_range: "suffix_mult sfx = Some k \<Longrightarrow> 1 \<le> k \<and> k \<le> 2 ^ 30"
  by (auto simp: suffix_mult_def split: if_splits)

text \<open>A number that starts with a digit and ends in one or in the point, with a suffix.\<close>

lemma bitrate_suffix_number:
  assumes "num \<noteq> []" "is_digit (hd num)" "is_digit (last num) \<or> last num = 46"
    and "suffix_mult sfx = Some k"
  shows "bitrate_suffix (num @ sfx) = (num, of_nat k) \<and> trim (num @ sfx) = num @ sfx \<and> trim num = num"
proof -
  have sp: "\<not> is_whitespace (hd num)" "\<not> is_whitespace (last num)"
    using assms(2,3) by (auto simp: is_digit_def is_whitespace_def)
  have "\<not> is_whitespace (last (num @ sfx))"
    using sp suffix_mult_cases [OF assms(4)] by auto
  then have "trim (num @ sfx) = num @ sfx" "trim num = num"
    using assms(1) sp by (auto intro!: trim_id)
  moreover have "bitrate_suffix (num @ sfx) = (num, of_nat k)"
    using assms(1,3,4)
    by (auto simp: bitrate_suffix_def suffix_mult_def chars_of_def is_digit_def butlast_append split: if_splits)
  ultimately show ?thesis by simp
qed

lemma parse_f64_negative:
  assumes "ds \<noteq> []" "list_all is_digit ds"
  shows "parse_f64 (45 # ds) = Some (fneg (round64 (of_nat (digits_value ds))))"
proof -
  obtain d ds' where ds: "ds = d # ds'" "is_digit d" using assms by (cases ds) auto
  then have "to_ascii_lowercase ds \<noteq> chars_of (c # cs)" if "\<not> is_digit (of_char c)" for c cs
    using that by (auto simp: to_ascii_lowercase_def chars_of_def is_digit_def)
  moreover have "\<not> is_digit (of_char CHR ''n'')" "\<not> is_digit (of_char CHR ''i'')"
    by (simp_all add: is_digit_def)
  ultimately show ?thesis
    using parse_number_digits [OF assms] by (simp add: parse_f64_def)
qed

lemma flt_neg_round64:
  assumes "0 < n"
  shows "flt (fneg (round64 (of_nat n))) (Fin 0)"
proof -
  have "(1::rat) \<le> of_nat n" using assms of_nat_mono [of 1 n, where 'a = rat] by simp
  then have "1 \<le> fl (of_nat n)" by (rule fl.rnd_lower [OF fl.rnd_1])
  moreover have "- f64_limit < 1" using f64_limit_pos by simp
  ultimately show ?thesis by (auto simp: round64_def Let_def)
qed

section \<open>Properties\<close>

text \<open>
  C36. Whole rates parse exactly: the decimal digits of a number, with no suffix or one of
  K, M and G in either case, parse to that number times 1, \<open>10^3\<close>, \<open>10^6\<close> or \<open>10^9\<close>,
  as long as the product is at most \<open>2^53\<close> bits per second.
\<close>

theorem parse_bitrate_integer:
  assumes "suffix_mult sfx = Some k" and "n * k \<le> 2 ^ 53"
  shows "parse_bitrate (chars_of (show_nat n) @ sfx) = Inr (of_nat (n * k))"
proof -
  define ds where "ds = chars_of (show_nat n)"
  have ds: "ds \<noteq> []" "list_all is_digit ds" "digits_value ds = n"
    using chars_of_show_nat [of n] by (simp_all add: ds_def)
  have ends: "is_digit (hd ds)" "is_digit (last ds) \<or> last ds = 46"
    using ds(1,2) by (simp_all add: list_all_iff)
  have "n \<le> n * k" using suffix_mult_range [OF assms(1)] by (cases k) simp_all
  then have n: "n \<le> 2 ^ 53" using assms(2) by (rule order_trans)
  have nk: "n * k < 2 ^ 64" using assms(2) by simp
  note v = fmul_nat [OF assms(2)] f64_to_u64_nat [OF nk]
  show ?thesis
    unfolding parse_bitrate_def ds_def [symmetric] Let_def
    using bitrate_suffix_number [OF ds(1) ends assms(1)] parse_f64_digits [OF ds(1,2)] ds(3)
      round64_nat [OF n] v by (simp add: flt_finite del: of_nat_mult)
qed

theorem parse_bitrate_integer_witness:
  "parse_bitrate (chars_of (show_nat 500) @ chars_of ''M'') = Inr (of_nat (500 * 1000000))"
  by (rule parse_bitrate_integer) (simp_all add: suffix_mult_def chars_of_def)

text \<open>
  C37. Rates with a decimal point parse to within two bits per second: for digits, a point
  and digits with a suffix, denoting \<open>x\<close> up to \<open>2^50\<close>, the parser returns an integer \<open>r\<close>
  with \<open>x - 2 < r < x + 1\<close> (two roundings and a truncation).
\<close>

theorem parse_bitrate_decimal:
  assumes "ds \<noteq> []" "list_all is_digit ds" "list_all is_digit fs" "suffix_mult sfx = Some k"
    and "x = of_nat (digits_value (ds @ fs)) / 10 ^ length fs * of_nat k" and "x \<le> 2 ^ 50"
  shows "\<exists>r. parse_bitrate (ds @ 46 # fs @ sfx) = Inr r \<and>
           of_nat (unat r) < x + 1 \<and> x < of_nat (unat r) + (2::rat)"
proof -
  define q where "q = (of_nat (digits_value (ds @ fs)) / 10 ^ length fs :: rat)"
  have kk: "1 \<le> (of_nat k :: rat)" "(of_nat k :: rat) \<le> 2 ^ 30"
    using suffix_mult_range [OF assms(4)] of_nat_mono [of k "2 ^ 30", where 'a = rat] by simp_all
  have q: "0 \<le> q" "q * of_nat k \<le> 2 ^ 50" using assms(5,6) by (simp_all add: q_def)
  then have "q \<le> 2 ^ 50" using mult_left_mono [OF kk(1) q(1)] by simp
  then have qm: "q \<le> fmax" using power_le_fmax [of 50] by simp
  note R = two_roundings [OF q(1) kk q(2)]
  have nn: "0 \<le> fl q * of_nat k" using q by (simp add: fl_nonneg)
  then have y0: "0 \<le> fl (fl q * of_nat k)" by (rule fl_nonneg)
  have y1: "fl (fl q * of_nat k) < 2 ^ 64" using R q(2) by simp
  have "fl q \<le> 2 ^ 50" using \<open>q \<le> 2 ^ 50\<close> fl.rnd_upper [OF fl_2_power] by blast
  then have "fl q * of_nat k \<le> 2 ^ 50 * 2 ^ 30" using kk fl_nonneg [OF q(1)] by (intro mult_mono) simp_all
  then have "fl q * of_nat k \<le> fmax" using power_le_fmax [of 80] by simp
  then have prod: "fmul (Fin (fl q)) (Fin (of_nat k)) = Fin (fl (fl q * of_nat k))"
    using fl_nonneg [OF q(1)] by (intro fmul_nonneg) simp_all
  have "parse_bitrate ((ds @ 46 # fs) @ sfx) = Inr (f64_to_u64 (Fin (fl (fl q * of_nat k))))"
  proof -
    have "is_digit (hd (ds @ 46 # fs))" "is_digit (last (ds @ 46 # fs)) \<or> last (ds @ 46 # fs) = 46"
      using assms(1-3) by (auto simp: list_all_iff last_append intro: last_in_set)
    note B = bitrate_suffix_number [OF _ this assms(4)]
    show ?thesis
      unfolding parse_bitrate_def Let_def
      using B parse_f64_decimal [OF assms(1-3)] round64_nonneg [OF q(1) qm] prod fl_nonneg [OF q(1)]
      by (simp add: q_def [symmetric])
  qed
  moreover have "x = q * of_nat k" by (simp add: assms(5) q_def)
  moreover define r where "r = f64_to_u64 (Fin (fl (fl q * of_nat k)))"
  then have "of_nat (unat r) < q * of_nat k + 1 \<and> q * of_nat k < of_nat (unat r) + 2"
    using f64_to_u64_floor [OF y0 y1] R by (simp only:) linarith
  ultimately show ?thesis by (intro exI [of _ r]) (simp add: r_def)
qed

theorem parse_bitrate_decimal_witness:
  "\<exists>r. parse_bitrate ([50] @ 46 # [53] @ chars_of ''M'') = Inr r \<and>
     of_nat (unat r) < (2500000::rat) + 1 \<and> 2500000 < of_nat (unat r) + (2::rat)"
  by (rule parse_bitrate_decimal [where k = 1000000])
     (simp_all add: is_digit_def suffix_mult_def chars_of_def digits_value_def)

text \<open>
  A negative rate is an error, never coerced: a minus sign before the digits of a
  positive number of any size, with any suffix, gives the error that names the input.
\<close>

lemma parse_bitrate_negative:
  assumes "0 < n" "suffix_mult sfx = Some k"
  shows "parse_bitrate (45 # chars_of (show_nat n) @ sfx)
           = Inl (NegativeBitrate (45 # chars_of (show_nat n) @ sfx))"
proof -
  define ds where "ds = chars_of (show_nat n)"
  have ds: "ds \<noteq> []" "list_all is_digit ds" "digits_value ds = n"
    using chars_of_show_nat [of n] by (simp_all add: ds_def)
  have la: "is_digit (last ds)" using ds(1,2) by (simp add: list_all_iff)
  have sp: "\<not> is_whitespace 45" "\<not> is_whitespace (last (45 # ds))"
    using la ds(1) by (auto simp: is_digit_def is_whitespace_def)
  then have "trim (45 # ds) = 45 # ds" by (intro trim_id) simp
  moreover have "trim (45 # ds @ sfx) = 45 # ds @ sfx"
    using sp ds(1) suffix_mult_cases [OF assms(2)] by (intro trim_id) auto
  moreover have "bitrate_suffix (45 # ds @ sfx) = (45 # ds, of_nat k)"
    using ds(1) la assms(2)
    by (auto simp: bitrate_suffix_def suffix_mult_def chars_of_def is_digit_def butlast_append split: if_splits)
  ultimately show ?thesis
    unfolding parse_bitrate_def ds_def [symmetric] Let_def
    using parse_f64_negative [OF ds(1,2)] ds(3) flt_neg_round64 [OF assms(1)] by simp
qed

lemma parse_bitrate_negative_witness:
  "parse_bitrate (45 # chars_of (show_nat 5) @ chars_of ''M'')
     = Inl (NegativeBitrate (45 # chars_of (show_nat 5) @ chars_of ''M''))"
  by (rule parse_bitrate_negative [where k = 1000000]) (simp_all add: suffix_mult_def chars_of_def)

text \<open>The unit of a format, in bits per second, and its number of decimals.\<close>

fun unit_of :: "format \<Rightarrow> string \<times> nat \<times> nat" where
  "unit_of Bits = ('' bit/s'', 1, 0)"
| "unit_of Bytes = ('' byte/s'', 8, 0)"
| "unit_of Mbps = ('' Mbps'', 10 ^ 6, 2)"
| "unit_of Gbps = ('' Gbps'', 10 ^ 9, 2)"

lemma abs_scale: "0 \<le> d \<Longrightarrow> \<bar>a * d - b * d\<bar> = \<bar>a - b\<bar> * d" for a b d :: rat
  by (metis abs_mult abs_of_nonneg left_diff_distrib)

lemma fdiv_unit:
  assumes "0 \<le> v" "v \<le> fmax" and d: "0 < d" "d \<le> 2 ^ 30"
  shows "\<exists>w. fdiv (Fin v) (Fin (of_nat d)) = Fin w \<and> 0 \<le> w \<and> \<bar>w * of_nat d - v\<bar> \<le> v / 2 ^ 53 + 1 / 10 ^ 9"
proof (cases "v = 0")
  case False
  define h where "h = (2::rat) powi (- 1074) / 2"
  have h: "0 < h" "h * 2 ^ 70 \<le> 1"
  proof -
    have "(2::rat) powi (- 1074) \<le> 2 powi (- 69)" by (rule powi2_mono) simp
    then show "0 < h" "h * 2 ^ 70 \<le> 1" by (simp_all add: h_def power_int_minus field_simps)
  qed
  let ?q = "v / of_nat d"
  have d': "1 \<le> (of_nat d :: rat)" "(of_nat d :: rat) \<le> 2 ^ 30"
    using d of_nat_mono [of d "2 ^ 30", where 'a = rat] by simp_all
  have "v \<le> fmax * of_nat d"
    using mult_left_mono [OF d'(1), of fmax] assms(1,2) by simp
  then have q: "0 \<le> ?q" "?q \<le> fmax" using assms(1) d by (simp_all add: divide_le_eq)
  have "\<bar>fl ?q - ?q\<bar> \<le> ?q / 2 ^ 53 + h" using fl_error [of ?q] q by (simp add: h_def)
  then have "\<bar>fl ?q - ?q\<bar> * of_nat d \<le> (?q / 2 ^ 53 + h) * of_nat d" by (rule mult_right_mono) simp
  moreover have "\<bar>fl ?q * of_nat d - v\<bar> = \<bar>fl ?q - ?q\<bar> * of_nat d" using d abs_scale [of "of_nat d" "fl ?q" ?q] by simp
  moreover have "(?q / 2 ^ 53 + h) * of_nat d = v / 2 ^ 53 + h * of_nat d" using d by (simp add: field_simps)
  moreover have "h * of_nat d \<le> 1 / 10 ^ 9"
  proof -
    have "h * of_nat d \<le> h * 2 ^ 30" using h(1) d'(2) by (intro mult_left_mono) simp_all
    also have "\<dots> \<le> 1 / 10 ^ 9" using h(2) by simp
    finally show ?thesis .
  qed
  ultimately have "\<bar>fl ?q * of_nat d - v\<bar> \<le> v / 2 ^ 53 + 1 / 10 ^ 9" by linarith
  with q assms(1) False d show ?thesis
    by (intro exI [of _ "fl ?q"]) (simp add: fdiv_def round64_nonneg fl_nonneg)
qed (use d in \<open>simp add: fdiv_def signed_zero_def\<close>)

lemma render_fixed:
  assumes "0 \<le> v" "v \<le> fmax" "unit_of fmt = (u, d, k)"
  shows "\<exists>w. render fmt (Fin v) = fixed_rat k w @ u \<and> 0 \<le> w \<and> \<bar>w * of_nat d - v\<bar> \<le> v / 2 ^ 53 + 1 / 10 ^ 9"
proof -
  have fin: "fixed k (Fin w) = fixed_rat k w" if "0 \<le> w" for w using that by simp
  show ?thesis
  proof (cases "fmt = Bits")
    case True
    then have "u = '' bit/s''" "d = 1" "k = 0" using assms(3) by simp_all
    with assms(1) True show ?thesis by (intro exI [of _ v]) simp
  next
    case False
    with assms(3) have d: "0 < d" "d \<le> 2 ^ 30" and r: "render fmt (Fin v) = fixed k (fdiv (Fin v) (Fin (of_nat d))) @ u"
      by (cases fmt; auto simp del: fixed.simps)+
    from fdiv_unit [OF assms(1,2) d] show ?thesis unfolding r using fin by fastforce
  qed
qed

text \<open>
  C38. A printed rate is right to half a unit of its last digit: what \<open>render\<close> prints for a rate of
  \<open>v\<close> bits per second is the unit of the format after a decimal number, and that number, times the
  unit, differs from \<open>v\<close> by at most half a unit of the last digit and the rounding of one division.
\<close>

theorem render_accurate:
  assumes "0 \<le> v" and "v \<le> fmax" and "unit_of fmt = (u, d, k)"
  shows "\<exists>num y. render fmt (Fin v) = num @ u \<and> parse_number (chars_of num) = Some y
    \<and> \<bar>y * of_nat d - v\<bar> \<le> of_nat d / (2 * 10 ^ k) + v / 2 ^ 53 + 1 / 10 ^ 9"
proof -
  obtain w where w: "render fmt (Fin v) = fixed_rat k w @ u" "0 \<le> w" "\<bar>w * of_nat d - v\<bar> \<le> v / 2 ^ 53 + 1 / 10 ^ 9"
    using render_fixed [OF assms] by blast
  let ?y = "of_int (rne (w * 10 ^ k)) / 10 ^ k :: rat"
  have "\<bar>?y - w\<bar> * of_nat d \<le> 1 / (2 * 10 ^ k) * of_nat d"
    by (rule mult_right_mono [OF fixed_rat_error]) simp
  moreover have "\<bar>?y * of_nat d - w * of_nat d\<bar> = \<bar>?y - w\<bar> * of_nat d" by (rule abs_scale) simp
  ultimately have "\<bar>?y * of_nat d - v\<bar> \<le> of_nat d / (2 * 10 ^ k) + v / 2 ^ 53 + 1 / 10 ^ 9"
    using w(3) by simp
  with w(1) fixed_rat_parses [OF w(2)] show ?thesis by blast
qed

theorem render_accurate_witness:
  "\<exists>num y. render Mbps (Fin 941234567) = num @ '' Mbps'' \<and> parse_number (chars_of num) = Some y
     \<and> \<bar>y * of_nat (10 ^ 6) - 941234567\<bar> \<le> of_nat (10 ^ 6) / (2 * 10 ^ 2) + 941234567 / 2 ^ 53 + 1 / (10 :: rat) ^ 9"
  using power_le_fmax [of 40] by (intro render_accurate) simp_all

text \<open>
  The mode is the flag that is set: when at most one mode flag is given (which the
  argument group enforces), \<open>selected\<close> returns a mode exactly if its flag is set, and
  \<open>None\<close> exactly if no flag is.
\<close>

lemma selected_spec:
  assumes "mode_group f"
  shows "(selected f = Some TcpMode \<longleftrightarrow> mf_tcp f) \<and> (selected f = Some UdpMode \<longleftrightarrow> mf_udp f)
    \<and> (selected f = Some FileMode \<longleftrightarrow> mf_file f \<noteq> None)
    \<and> (selected f = None \<longleftrightarrow> \<not> mf_tcp f \<and> \<not> mf_udp f \<and> mf_file f = None)"
  using assms by (auto simp: selected_def mode_group_def split: if_splits)

lemma selected_spec_witness:
  "selected \<lparr>mf_tcp = False, mf_udp = True, mf_file = None\<rparr> = Some UdpMode"
proof -
  have "mode_group \<lparr>mf_tcp = False, mf_udp = True, mf_file = None\<rparr>" by (simp add: mode_group_def)
  from selected_spec [OF this] show ?thesis by simp
qed

section \<open>Inputs the parser does not treat as documented\<close>

text \<open>
  The words the standard library reads as a float are accepted as rates (not a number as 0,
  infinity as the largest \<open>u64\<close>), and a fraction can lose a unit to the truncating cast:
  \<open>1.001M\<close> is 1000999 bits per second.
\<close>

lemma parse_bitrate_words:
  "parse_bitrate (chars_of ''nan'') = Inr 0" "parse_bitrate (chars_of ''inf'') = Inr (- 1)"
  by (simp_all add: parse_bitrate_def chars_of_def trim_def is_whitespace_def bitrate_suffix_def
      Let_def parse_f64_def to_ascii_lowercase_def fmul_def signed_inf_def)

lemma parse_bitrate_loses_a_unit: "parse_bitrate (chars_of ''1.001M'') = Inr 1000999"
proof -
  have num: "parse_f64 (chars_of ''1.001'') = Some (round64 (1001 / 1000))"
    using parse_f64_decimal [of "chars_of ''1''" "chars_of ''001''"]
    by (simp add: chars_of_def is_digit_def digits_value_def)
  have val: "f64_to_u64 (fmul (round64 (1001 / 1000)) (Fin 1000000)) = 1000999"
    "\<not> flt (round64 (1001 / 1000)) (Fin 0)"
    by code_simp+
  have "bitrate_suffix (chars_of ''1.001M'') = (chars_of ''1.001'', 1000000)"
    "trim (chars_of ''1.001M'') = chars_of ''1.001M''" "trim (chars_of ''1.001'') = chars_of ''1.001''"
    by (simp_all add: bitrate_suffix_def chars_of_def trim_def is_whitespace_def)
  with num val show ?thesis by (simp add: parse_bitrate_def)
qed

end
