(* ===== verification/Meter.thy ===== *)
theory Meter
  imports Cli Proto Timing
begin

text \<open>
  \<open>src/src/meter.rs\<close>: byte counters, the splitmix64 payload generator, the conversion to
  bits per second and the once-per-second sampler.

  A counter is the value of its \<open>AtomicU64\<close> (\<open>fetch_add\<close> wraps); what the concurrent tasks
  do between two readings is in the readings. The sampler is a function of its ticks: for
  each, the clock and the counter values read. It returns \<open>None\<close> while it still waits for
  a tick, otherwise a panic or the samples and the lines printed to standard error.
\<close>

section \<open>Counters\<close>

type_synonym counter = u64

definition counter_new :: counter where
  "counter_new = 0"

definition counter_add :: "counter \<Rightarrow> u64 \<Rightarrow> counter" where
  "counter_add c n = c + n"

definition total :: "profile \<Rightarrow> counter list \<Rightarrow> u64 option" where
  "total p counters = usum p counters"

section \<open>The payload generator\<close>

definition SPLITMIX_GAMMA :: u64 where
  "SPLITMIX_GAMMA = 0x9E3779B97F4A7C15"

definition splitmix_mix :: "u64 \<Rightarrow> u64" where
  "splitmix_mix s =
     (let z = s;
          z = (z XOR drop_bit 30 z) * 0xBF58476D1CE4E5B9;
          z = (z XOR drop_bit 27 z) * 0x94D049BB133111EB
      in z XOR drop_bit 31 z)"

text \<open>The closure \<open>next\<close>: the new state and the output.\<close>

definition splitmix_next :: "u64 \<Rightarrow> u64 \<times> u64" where
  "splitmix_next s = (let s' = s + SPLITMIX_GAMMA in (s', splitmix_mix s'))"

text \<open>\<open>fill_random\<close>: chunks of eight bytes, then the remainder from one more output.\<close>

function fill_random :: "bytes \<Rightarrow> u64 \<Rightarrow> bytes" where
  "fill_random buf s =
     (if 8 \<le> length buf then
        (let (s', w) = splitmix_next s in u64_to_le w @ fill_random (drop 8 buf) s')
      else if buf \<noteq> [] then take (length buf) (u64_to_le (snd (splitmix_next s)))
      else [])"
  by pat_completeness auto
termination
  by (relation "measure (\<lambda>(buf, s). length buf)") auto

declare fill_random.simps [simp del]

text \<open>\<open>payload_preview\<close>; the three bytes after the hex digits are the ellipsis in UTF-8.\<close>

definition hex_byte :: "u8 \<Rightarrow> string" where
  "hex_byte b = [hex_digit (unat b div 16), hex_digit (unat b mod 16), CHR '' '']"

definition payload_preview :: "bytes \<Rightarrow> string" where
  "payload_preview buf =
     (let n = min (length buf) 16;
          hex = concat (map hex_byte (take n buf));
          distinct = card (set buf)
      in rev (dropWhile (\<lambda>c. c = CHR '' '') (rev hex)) @ [CHR 0xE2, CHR 0x80, CHR 0xA6]
         @ '' ('' @ show_nat distinct @ ''/256 distinct byte values)'')"

section \<open>Rates\<close>

definition bits_per_sec :: "u64 \<Rightarrow> f64 \<Rightarrow> f64" where
  "bits_per_sec bytes secs =
     (if fle secs (Fin 0) then Fin 0 else fdiv (fmul (u64_to_f64 bytes) (Fin 8)) secs)"

section \<open>The sampler\<close>

definition readout_line :: "format \<Rightarrow> duration \<Rightarrow> f64 \<Rightarrow> bool \<Rightarrow> string" where
  "readout_line fmt elapsed bps warm =
     ''['' @ pad_left (CHR '' '') 5 (fixed 1 (as_secs_f64 elapsed)) @ ''s] '' @ render fmt bps
     @ (if warm then ''  (warm-up, excluded)'' else [])"

type_synonym tick = "instant \<times> counter list"

fun sampler_loop ::
  "profile \<Rightarrow> instant \<Rightarrow> duration \<Rightarrow> duration \<Rightarrow> format \<Rightarrow> bool \<Rightarrow> u64 \<Rightarrow> instant \<Rightarrow> tick list
     \<Rightarrow> (sample list \<times> string list) outcome option" where
  "sampler_loop p t0 window warmup fmt quiet last_bytes last_t [] = None"
| "sampler_loop p t0 window warmup fmt quiet last_bytes last_t ((now, vals) # ticks) =
     (case total p vals of
        None \<Rightarrow> Some (Inl (Panic ''arithmetic overflow''))
      | Some cur \<Rightarrow>
          (let interval_bytes = saturating_sub cur last_bytes;
               interval_secs = as_secs_f64 (duration_since now last_t);
               bps = bits_per_sec interval_bytes interval_secs;
               s = \<lparr>s_t_secs = as_secs_f64 (duration_since now t0), s_bytes = interval_bytes,
                    s_bits_per_sec = bps, s_packets_lost = None, s_jitter_ms = None\<rparr>;
               elapsed = duration_since now t0
           in case (if quiet then Some []
                    else (case duration_add warmup (from_millis 100) of
                            None \<Rightarrow> None
                          | Some limit \<Rightarrow> Some [readout_line fmt elapsed bps (elapsed \<le> limit)])) of
                None \<Rightarrow> Some (Inl (Panic ''overflow when adding durations''))
              | Some lines \<Rightarrow>
                  if window \<le> elapsed then Some (Inr ([s], lines))
                  else (case sampler_loop p t0 window warmup fmt quiet cur now ticks of
                          None \<Rightarrow> None
                        | Some (Inl e) \<Rightarrow> Some (Inl e)
                        | Some (Inr (ss, ls)) \<Rightarrow> Some (Inr (s # ss, lines @ ls)))))"

definition run_sampler ::
  "profile \<Rightarrow> counter list \<Rightarrow> instant \<Rightarrow> duration \<Rightarrow> duration \<Rightarrow> format \<Rightarrow> bool \<Rightarrow> tick list
     \<Rightarrow> (sample list \<times> string list) outcome option" where
  "run_sampler p counters t0 window warmup fmt quiet ticks =
     (case total p counters of
        None \<Rightarrow> Some (Inl (Panic ''arithmetic overflow''))
      | Some last_bytes \<Rightarrow> sampler_loop p t0 window warmup fmt quiet last_bytes t0 ticks)"

section \<open>Facts about the generator\<close>

lemma xor_shift_inj:
  assumes "0 < k" "(x::u64) XOR drop_bit k x = y XOR drop_bit k y"
  shows "x = y"
proof -
  define d where "d = x XOR y"
  have "d XOR drop_bit k d = (x XOR drop_bit k x) XOR (y XOR drop_bit k y)"
    by (rule bit_word_eqI) (auto simp: d_def bit_simps)
  then have "d XOR drop_bit k d = 0" using assms(2) by simp
  moreover have "d = (d XOR drop_bit k d) XOR drop_bit k d" by (simp add: xor.assoc)
  ultimately have "d = drop_bit k d" by simp
  then have "unat d = unat d div 2 ^ k" by (metis unat_drop_bit_eq drop_bit_eq_div)
  moreover have "1 < (2::nat) ^ k" using assms(1) by (rule one_less_power [rotated]) simp
  then have "unat d div 2 ^ k < unat d" if "unat d \<noteq> 0"
    using that by (intro div_less_dividend) simp_all
  ultimately have "unat d = 0" by force
  then have "d = 0" by (simp add: unat_eq_0)
  moreover have "x = d XOR y" by (simp add: d_def xor.assoc)
  ultimately show ?thesis by simp
qed

lemma mult_inv_inj:
  fixes a b x y :: u64
  assumes "b * a = 1" "x * a = y * a"
  shows "x = y"
proof -
  have "x * (b * a) = x * a * b" "y * (b * a) = y * a * b" by (simp_all only: ac_simps)
  with assms show ?thesis by simp
qed

lemma splitmix_mix_inj: "splitmix_mix s = splitmix_mix t \<Longrightarrow> s = t"
proof -
  define f g h where "f z = z XOR drop_bit 30 z" and "g z = z XOR drop_bit 27 z"
    and "h z = z XOR drop_bit 31 z" for z :: u64
  define A B :: u64 where "A = 0xBF58476D1CE4E5B9" and "B = 0x94D049BB133111EB"
  have inj: "f x = f y \<Longrightarrow> x = y" "g x = g y \<Longrightarrow> x = y" "h x = h y \<Longrightarrow> x = y" for x y
    unfolding f_def g_def h_def by (erule xor_shift_inj [OF zero_less_numeral])+
  have A: "0x96DE1B173F119089 * A = 1" and B: "0x319642B2D24D8EC3 * B = 1"
    by (simp_all add: A_def B_def)
  have mix: "splitmix_mix z = h (g (f z * A) * B)" for z
    by (simp only: splitmix_mix_def Let_def f_def g_def h_def A_def B_def)
  assume "splitmix_mix s = splitmix_mix t"
  then have "g (f s * A) * B = g (f t * A) * B" unfolding mix by (rule inj)
  then have "g (f s * A) = g (f t * A)" by (rule mult_inv_inj [OF B])
  then have "f s * A = f t * A" by (rule inj)
  then have "f s = f t" by (rule mult_inv_inj [OF A])
  then show "s = t" by (rule inj)
qed

lemma gamma_mult_inj: "(x::u64) * SPLITMIX_GAMMA = y * SPLITMIX_GAMMA \<Longrightarrow> x = y"
  by (rule mult_inv_inj [where b = "0xF1DE83E19937733D"]) (simp_all add: SPLITMIX_GAMMA_def)

lemma length_fill_random [simp]: "length (fill_random buf s) = length buf"
  by (induction buf s rule: fill_random.induct)
     (subst fill_random.simps, simp add: splitmix_next_def Let_def)

definition payload_word :: "u64 \<Rightarrow> nat \<Rightarrow> u64" where
  "payload_word s i = splitmix_mix (s + of_nat (Suc i) * SPLITMIX_GAMMA)"

lemma payload_word_Suc: "payload_word (s + SPLITMIX_GAMMA) i = payload_word s (Suc i)"
  by (simp add: payload_word_def algebra_simps)

lemma fill_random_nth:
  "j < length buf \<Longrightarrow> fill_random buf s ! j = u64_to_le (payload_word s (j div 8)) ! (j mod 8)"
proof (induction buf s arbitrary: j rule: fill_random.induct)
  case (1 buf s)
  have nx: "splitmix_next s = (s + SPLITMIX_GAMMA, payload_word s 0)"
    by (simp add: splitmix_next_def Let_def payload_word_def)
  show ?case
  proof (cases "8 \<le> length buf")
    case True
    have eq: "fill_random buf s = u64_to_le (payload_word s 0) @ fill_random (drop 8 buf) (s + SPLITMIX_GAMMA)"
      using True by (subst fill_random.simps) (simp add: nx)
    show ?thesis
    proof (cases "j < 8")
      case True
      then show ?thesis by (simp add: eq nth_append)
    next
      case False
      then have "fill_random (drop 8 buf) (s + SPLITMIX_GAMMA) ! (j - 8)
          = u64_to_le (payload_word (s + SPLITMIX_GAMMA) ((j - 8) div 8)) ! ((j - 8) mod 8)"
        using 1 True nx by (intro "1.IH") auto
      moreover have "Suc ((j - 8) div 8) = j div 8" "(j - 8) mod 8 = j mod 8"
        using False by (simp_all add: le_div_geq le_mod_geq not_less)
      ultimately show ?thesis using False by (simp add: eq nth_append payload_word_Suc)
    qed
  next
    case False
    with "1.prems" have "buf \<noteq> []" "j div 8 = 0" "j mod 8 = j" by auto
    with False "1.prems" show ?thesis by (subst fill_random.simps) (simp add: nx)
  qed
qed

lemma payload_word_inj_seed: "payload_word s i = payload_word t i \<Longrightarrow> s = t"
  unfolding payload_word_def by (drule splitmix_mix_inj) (simp only: add_right_cancel)

lemma unat_of_nat_u64: "n < 2 ^ 64 \<Longrightarrow> unat (of_nat n :: u64) = n"
  by (simp add: unat_of_nat)

lemma of_nat_u64_inj: "i < 2 ^ 64 \<Longrightarrow> j < 2 ^ 64 \<Longrightarrow> (of_nat i :: u64) = of_nat j \<Longrightarrow> i = j"
  by (metis unat_of_nat_u64)

lemma payload_word_inj_index:
  assumes "payload_word s i = payload_word s j" "Suc i < 2 ^ 64" "Suc j < 2 ^ 64"
  shows "i = j"
proof -
  have "s + of_nat (Suc i) * SPLITMIX_GAMMA = s + of_nat (Suc j) * SPLITMIX_GAMMA"
    using assms(1) unfolding payload_word_def by (rule splitmix_mix_inj)
  then have "of_nat (Suc i) * SPLITMIX_GAMMA = of_nat (Suc j) * SPLITMIX_GAMMA" by simp
  then have "(of_nat (Suc i) :: u64) = of_nat (Suc j)" by (rule gamma_mult_inj)
  then have "Suc i = Suc j" by (rule of_nat_u64_inj [OF assms(2,3)])
  then show ?thesis by simp
qed

lemma fill_random_word:
  assumes "8 * Suc i \<le> length buf"
  shows "take 8 (drop (8 * i) (fill_random buf s)) = u64_to_le (payload_word s i)"
proof (rule nth_equalityI)
  show "length (take 8 (drop (8 * i) (fill_random buf s))) = length (u64_to_le (payload_word s i))"
    using assms by simp
next
  fix k assume "k < length (take 8 (drop (8 * i) (fill_random buf s)))"
  then have k: "k < 8" "8 * i + k < length buf" using assms by simp_all
  moreover have "(8 * i + k) div 8 = i" "(8 * i + k) mod 8 = k" using k(1) by simp_all
  ultimately show "take 8 (drop (8 * i) (fill_random buf s)) ! k = u64_to_le (payload_word s i) ! k"
    using fill_random_nth [OF k(2), of s] assms by simp
qed

lemma u64_to_le_inj: "u64_to_le v = u64_to_le w \<Longrightarrow> v = w"
  by (metis u64_from_le_to_le)

section \<open>Rates are finite and grow with the bytes\<close>

lemma fmul_8: "fval (fmul (u64_to_f64 b) (Fin 8)) = fl (fval (u64_to_f64 b) * 8)"
    "rep (fmul (u64_to_f64 b) (Fin 8))"
    "0 \<le> fval (fmul (u64_to_f64 b) (Fin 8))" "fval (fmul (u64_to_f64 b) (Fin 8)) \<le> 2 ^ 67"
proof -
  have "fval (u64_to_f64 b) * 8 \<le> 2 ^ 67" using u64_to_f64_bounds(2) [of b] by simp
  moreover have "(2::rat) ^ 67 \<le> fmax" by (rule power_le_fmax) simp
  ultimately have b: "\<bar>fval (u64_to_f64 b) * fval (Fin 8)\<bar> \<le> fmax"
    using u64_to_f64_bounds(1) [of b] by simp
  show v: "fval (fmul (u64_to_f64 b) (Fin 8)) = fl (fval (u64_to_f64 b) * 8)"
    and "rep (fmul (u64_to_f64 b) (Fin 8))"
    using fmul_finite [OF u64_to_f64(3) _ b] by simp_all
  show "0 \<le> fval (fmul (u64_to_f64 b) (Fin 8))"
    unfolding v using u64_to_f64_bounds(1) [of b] by (simp add: fl_nonneg)
  show "fval (fmul (u64_to_f64 b) (Fin 8)) \<le> 2 ^ 67"
    unfolding v by (rule fl.rnd_upper [OF fl_2_power]) fact
qed

lemma bits_per_sec_val:
  assumes "0 < d" "duration_ok d"
  shows "fval (bits_per_sec b (as_secs_f64 d))
           = fl (fl (fval (u64_to_f64 b) * 8) / fval (as_secs_f64 d))"
    and "rep (bits_per_sec b (as_secs_f64 d))"
proof -
  let ?n = "fmul (u64_to_f64 b) (Fin 8)" and ?s = "as_secs_f64 d"
  have s: "1 / 2 ^ 30 \<le> fval ?s" by (rule as_secs_f64_pos [OF assms])
  then have pos: "0 < fval ?s" by (rule order_less_le_trans [rotated]) simp
  have "fval ?n / fval ?s \<le> 2 ^ 67 / (1 / 2 ^ 30)"
    using fmul_8(3,4) [of b] s by (intro frac_le) simp_all
  also have "\<dots> \<le> fmax" using power_le_fmax [of 97] by simp
  finally have q: "\<bar>fval ?n / fval ?s\<bar> \<le> fmax" using fmul_8(3) [of b] pos by simp
  have "\<not> fle ?s (Fin 0)" using pos as_secs_f64_finite [of d] by (simp add: fle_finite)
  then have eq: "bits_per_sec b ?s = fdiv ?n ?s" by (simp add: bits_per_sec_def)
  show "fval (bits_per_sec b ?s) = fl (fl (fval (u64_to_f64 b) * 8) / fval ?s)"
    and "rep (bits_per_sec b ?s)"
    using fdiv_finite [OF rep_finite [OF fmul_8(2)] as_secs_f64_finite _ q] pos fmul_8(1)
    unfolding eq by simp_all
qed

lemma bits_per_sec_zero: "bits_per_sec b (as_secs_f64 0) = Fin 0"
  using as_secs_f64_finite [of 0] by (simp add: bits_per_sec_def fle_finite)

section \<open>The sampler adds up\<close>

text \<open>Counters only grow: the totals read at the ticks exist and are in ascending order.\<close>

fun mono_totals :: "profile \<Rightarrow> u64 \<Rightarrow> tick list \<Rightarrow> bool" where
  "mono_totals p b [] = True"
| "mono_totals p b ((now, vals) # ticks) =
     (case total p vals of None \<Rightarrow> False | Some v \<Rightarrow> b \<le> v \<and> mono_totals p v ticks)"

lemma sampler_loop_result:
  assumes "mono_totals p b ticks" "warmup = from_secs w" "k < length ticks"
    and "window \<le> duration_since (fst (ticks ! k)) t0"
    and "\<forall>i<k. duration_since (fst (ticks ! i)) t0 < window"
  shows "\<exists>ss ls final. sampler_loop p t0 window warmup fmt quiet b t ticks = Some (Inr (ss, ls))
           \<and> length ss = Suc k \<and> total p (snd (ticks ! k)) = Some final
           \<and> sum_list (map (unat \<circ> s_bytes) ss) = unat final - unat b \<and> b \<le> final"
  using assms
proof (induction ticks arbitrary: b t k)
  case Nil
  then show ?case by simp
next
  case (Cons tk ticks)
  obtain now vals where tk: "tk = (now, vals)" by fastforce
  with Cons.prems(1) obtain cur where cur: "total p vals = Some cur" "b \<le> cur" "mono_totals p cur ticks"
    by (auto split: option.splits)
  have lim: "duration_add warmup (from_millis 100) = Some (from_secs w + 100000000)"
    using Cons.prems(2) warmup_limit by simp
  show ?case
  proof (cases k)
    case 0
    with Cons.prems(4) tk have "window \<le> duration_since now t0" by simp
    then show ?thesis
      using 0 tk cur(1,2) lim by (simp add: Let_def unat_saturating_sub)
  next
    case (Suc k')
    then have nw: "\<not> window \<le> duration_since now t0"
      using Cons.prems(5) tk by (metis fst_conv not_le nth_Cons_0 zero_less_Suc)
    have "k' < length ticks" "window \<le> duration_since (fst (ticks ! k')) t0"
      using Cons.prems(3,4) Suc by simp_all
    moreover have "\<forall>i<k'. duration_since (fst (ticks ! i)) t0 < window"
      using Cons.prems(5) Suc by (metis Suc_less_eq nth_Cons_Suc)
    ultimately obtain ss ls final where IH:
      "sampler_loop p t0 window warmup fmt quiet cur now ticks = Some (Inr (ss, ls))"
      "length ss = Suc k'" "total p (snd (ticks ! k')) = Some final"
      "sum_list (map (unat \<circ> s_bytes) ss) = unat final - unat cur" "cur \<le> final"
      using Cons.IH [OF cur(3) Cons.prems(2), of k' now] by blast
    obtain s lines where step:
      "sampler_loop p t0 window warmup fmt quiet b t (tk # ticks) = Some (Inr (s # ss, lines @ ls))"
      "s_bytes s = saturating_sub cur b"
      using tk cur(1) lim nw IH(1) by (cases quiet) (simp_all add: Let_def)
    have "unat b \<le> unat cur" "unat cur \<le> unat final"
      using cur(2) IH(5) by (simp_all add: word_le_nat_alt)
    then have "unat cur - unat b + (unat final - unat cur) = unat final - unat b" by simp
    then have "sum_list (map (unat \<circ> s_bytes) (s # ss)) = unat final - unat b"
      by (simp add: step(2) IH(4) unat_saturating_sub)
    moreover have "total p (snd ((tk # ticks) ! k)) = Some final" "length (s # ss) = Suc k"
      using IH(2,3) Suc by simp_all
    moreover have "b \<le> final" using cur(2) IH(5) by (rule order_trans)
    ultimately show ?thesis using step(1) by blast
  qed
qed

section \<open>Properties\<close>

text \<open>
  C39. Every tick's bytes are counted once: when the counters only grow and tick \<open>k\<close> is the
  first at which the window has passed, the sampler stops at that tick without a panic, with
  one sample per tick, whose bytes add up to the growth of the counters from its start.
\<close>

theorem run_sampler_conserves:
  assumes "total p counters = Some b" and "mono_totals p b ticks" and "warmup = from_secs w"
    and "k < length ticks" and "window \<le> duration_since (fst (ticks ! k)) t0"
    and "\<forall>i<k. duration_since (fst (ticks ! i)) t0 < window"
  shows "\<exists>ss ls final. run_sampler p counters t0 window warmup fmt quiet ticks = Some (Inr (ss, ls))
           \<and> length ss = Suc k \<and> total p (snd (ticks ! k)) = Some final
           \<and> sum_list (map (unat \<circ> s_bytes) ss) = unat final - unat b \<and> b \<le> final"
  using sampler_loop_result [OF assms(2-6)] assms(1) by (simp add: run_sampler_def)

theorem run_sampler_conserves_witness:
  "\<exists>ss ls final.
     run_sampler Debug [1, 2] 0 2000000000 (from_secs 1) Mbps False
       [(1000000000, [10, 20]), (2000000000, [15, 40]), (3000000000, [50, 60])] = Some (Inr (ss, ls))
     \<and> length ss = Suc 1 \<and> total Debug [15, 40] = Some final
     \<and> sum_list (map (unat \<circ> s_bytes) ss) = unat final - unat (3::u64) \<and> 3 \<le> final"
proof -
  let ?ticks = "[(1000000000, [10, 20]), (2000000000, [15, 40]), (3000000000, [50, 60])] :: tick list"
  have "total Debug [1, 2] = Some 3" "mono_totals Debug 3 ?ticks"
    by (simp_all add: total_def usum_def uadd_def)
  from run_sampler_conserves [OF this refl, of 1 2000000000 0 1 Mbps False] show ?thesis
    by (simp add: duration_since_def)
qed

text \<open>
  Different seeds give different payloads, in the first eight bytes already: the mixing
  function of the generator is a bijection.
\<close>

lemma fill_random_seeds_differ:
  assumes "8 \<le> length buf" and "s \<noteq> t"
  shows "take 8 (fill_random buf s) \<noteq> take 8 (fill_random buf t)"
proof
  assume "take 8 (fill_random buf s) = take 8 (fill_random buf t)"
  then have "payload_word s 0 = payload_word t 0"
    using fill_random_word [of 0 buf s] fill_random_word [of 0 buf t] assms(1)
    by (simp add: u64_to_le_inj)
  then show False using assms(2) payload_word_inj_seed by blast
qed

lemma fill_random_seeds_differ_witness:
  "take 8 (fill_random (replicate 8 0) 1) \<noteq> take 8 (fill_random (replicate 8 0) 2)"
  by (rule fill_random_seeds_differ) simp_all

text \<open>
  A payload does not repeat: no two aligned eight-byte words of one buffer are equal, so
  a link that looks for repeats of words finds none.
\<close>

lemma fill_random_words_differ:
  assumes "8 * Suc i \<le> length buf" and "8 * Suc j \<le> length buf" and "length buf < 2 ^ 64" and "i \<noteq> j"
  shows "take 8 (drop (8 * i) (fill_random buf s)) \<noteq> take 8 (drop (8 * j) (fill_random buf s))"
proof
  assume "take 8 (drop (8 * i) (fill_random buf s)) = take 8 (drop (8 * j) (fill_random buf s))"
  then have "payload_word s i = payload_word s j"
    using fill_random_word [OF assms(1)] fill_random_word [OF assms(2)] by (simp add: u64_to_le_inj)
  moreover have "Suc i < 2 ^ 64" "Suc j < 2 ^ 64" using assms(1-3) by simp_all
  ultimately show False using assms(4) payload_word_inj_index by blast
qed

lemma fill_random_words_differ_witness:
  "take 8 (drop (8 * 0) (fill_random (replicate 16 0) 7)) \<noteq> take 8 (drop (8 * 1) (fill_random (replicate 16 0) 7))"
  by (rule fill_random_words_differ) simp_all

text \<open>
  The payload is determined by the seed, byte by byte: what a buffer held before does not
  matter, and a shorter buffer holds a prefix of a longer one's payload, whether or not its
  length is a multiple of eight.
\<close>

lemma fill_random_prefix:
  "fill_random (replicate (min n (length buf)) c) s = take n (fill_random buf s)"
  by (rule nth_equalityI) (simp_all add: fill_random_nth)

text \<open>
  Rates are well defined: over any measured duration the rate is a finite number, not
  negative, and grows with the bytes; over no time at all it is 0 instead of a division by 0.
\<close>

lemma bits_per_sec_sound:
  assumes "duration_ok d" and "b \<le> b'"
  shows "is_finite (bits_per_sec b (as_secs_f64 d)) \<and> 0 \<le> fval (bits_per_sec b (as_secs_f64 d))
    \<and> fval (bits_per_sec b (as_secs_f64 d)) \<le> fval (bits_per_sec b' (as_secs_f64 d))
    \<and> bits_per_sec b (as_secs_f64 0) = Fin 0"
proof (cases "d = 0")
  case True
  then show ?thesis by (simp add: bits_per_sec_zero)
next
  case False
  then have d: "0 < d" by simp
  have s: "0 \<le> fval (as_secs_f64 d)" by (rule as_secs_f64_nonneg)
  have n: "0 \<le> fl (fval (u64_to_f64 b) * 8)" using fmul_8(1,3) [of b] by simp
  have "fl (fval (u64_to_f64 b) * 8) \<le> fl (fval (u64_to_f64 b') * 8)"
    using u64_to_f64_mono [OF assms(2)] by (intro fl_mono) simp
  then have "fl (fl (fval (u64_to_f64 b) * 8) / fval (as_secs_f64 d))
      \<le> fl (fl (fval (u64_to_f64 b') * 8) / fval (as_secs_f64 d))"
    using s by (rule fl_mono [OF divide_right_mono])
  moreover have "0 \<le> fl (fl (fval (u64_to_f64 b) * 8) / fval (as_secs_f64 d))"
    using n s by (intro fl_nonneg) simp
  ultimately show ?thesis
    using bits_per_sec_val [OF d assms(1)] rep_finite by (simp add: bits_per_sec_zero)
qed

lemma bits_per_sec_sound_witness:
  "is_finite (bits_per_sec 1 (as_secs_f64 1000000000)) \<and> 0 \<le> fval (bits_per_sec 1 (as_secs_f64 1000000000))
    \<and> fval (bits_per_sec 1 (as_secs_f64 1000000000)) \<le> fval (bits_per_sec 2 (as_secs_f64 1000000000))
    \<and> bits_per_sec 1 (as_secs_f64 0) = Fin 0"
  by (rule bits_per_sec_sound) (simp_all add: duration_ok_def)

end
