(* ===== verification/LossJitter.thy ===== *)
theory LossJitter
  imports Proto "HOL-Library.Multiset"
begin

text \<open>
  \<open>src/src/modes/udp.rs\<close>, the measurement: the 16-byte datagram header, the pacing rate, and
  the accumulator \<open>LossJitter\<close> with its operations \<open>new\<close>, \<open>observe\<close>, \<open>snapshot\<close> and
  \<open>into_result\<close>. Additions and subtractions of machine integers take the build profile and
  return \<open>None\<close> where a debug build panics.

  The lemmas give the accumulator after any sequence of datagrams in closed form
  (\<open>observe_all_stats\<close>), from which loss, reordering and duplicates follow; the jitter is
  treated with the \<open>rounding\<close> interface of \<open>F64\<close>.
\<close>

section \<open>Constants and the datagram header\<close>

definition HEADER_LEN :: nat where
  "HEADER_LEN = 16"

definition JITTER_GAIN :: f64 where
  "JITTER_GAIN = Fin (1 / 16)"

definition TICKS_PER_SEC :: u64 where
  "TICKS_PER_SEC = 1000"

definition packets_per_tick :: "u64 \<Rightarrow> usize \<Rightarrow> u64 \<Rightarrow> f64" where
  "packets_per_tick bitrate pkt_size ticks_per_sec =
     (let bits_per_packet = fmul (u64_to_f64 pkt_size) (Fin 8)
      in fdiv (fdiv (u64_to_f64 bitrate) bits_per_packet) (u64_to_f64 ticks_per_sec))"

text \<open>Writing the header panics on a buffer shorter than it.\<close>

definition stamp :: "bytes \<Rightarrow> u64 \<Rightarrow> u64 \<Rightarrow> bytes option" where
  "stamp buf seq send_ns =
     (if length buf < 16 then None else Some (u64_to_le seq @ u64_to_le send_ns @ drop 16 buf))"

definition unstamp :: "bytes \<Rightarrow> (u64 \<times> u64) option" where
  "unstamp buf =
     (if length buf < HEADER_LEN then None
      else Some (from_le (take 8 buf), from_le (take 8 (drop 8 buf))))"

section \<open>The accumulator\<close>

record loss_jitter =
  warmup_packets :: u64
  lj_bytes :: u64
  received :: u64
  min_seq :: "u64 option"
  max_seq :: u64
  prev_transit :: "i64 option"
  jitter_ns :: f64

record snapshot =
  sn_bytes :: u64
  sn_lost :: u64
  sn_jitter_ms :: f64

definition lj_new :: "u64 \<Rightarrow> loss_jitter" where
  "lj_new w =
     \<lparr>warmup_packets = w, lj_bytes = 0, received = 0, min_seq = None, max_seq = 0,
      prev_transit = None, jitter_ns = Fin 0\<rparr>"

definition smooth :: "f64 \<Rightarrow> f64 \<Rightarrow> f64" where
  "smooth j d = fadd j (fmul (fsub d j) JITTER_GAIN)"

definition observe :: "profile \<Rightarrow> loss_jitter \<Rightarrow> u64 \<Rightarrow> u64 \<Rightarrow> u64 \<Rightarrow> u64 \<Rightarrow> loss_jitter option" where
  "observe p a seq send_ns recv_ns n =
     (if seq < warmup_packets a then Some a
      else do {
        bytes' \<leftarrow> uadd p (lj_bytes a) n;
        received' \<leftarrow> uadd p (received a) 1;
        let min' = (case min_seq a of None \<Rightarrow> seq | Some m \<Rightarrow> min m seq);
        let max' = max (max_seq a) seq;
        transit \<leftarrow> ssub p recv_ns send_ns;
        jitter' \<leftarrow> (case prev_transit a of
            None \<Rightarrow> Some (jitter_ns a)
          | Some prev \<Rightarrow> do {
              diff \<leftarrow> ssub p transit prev;
              d \<leftarrow> sabs p diff;
              Some (smooth (jitter_ns a) (i64_to_f64 d))
            });
        Some (a\<lparr>lj_bytes := bytes', received := received', min_seq := Some min', max_seq := max',
                prev_transit := Some transit, jitter_ns := jitter'\<rparr>)
      })"

definition expected :: "profile \<Rightarrow> loss_jitter \<Rightarrow> u64 option" where
  "expected p a =
     (case min_seq a of
        Some m \<Rightarrow> do { d \<leftarrow> usub p (max_seq a) m; uadd p d 1 }
      | None \<Rightarrow> Some 0)"

definition lj_snapshot :: "profile \<Rightarrow> loss_jitter \<Rightarrow> snapshot option" where
  "lj_snapshot p a = do {
     e \<leftarrow> expected p a;
     Some \<lparr>sn_bytes = lj_bytes a, sn_lost = saturating_sub e (received a),
           sn_jitter_ms = fdiv (jitter_ns a) (Fin 1000000)\<rparr>
   }"

definition into_result :: "profile \<Rightarrow> loss_jitter \<Rightarrow> f64 \<Rightarrow> test_result option" where
  "into_result p a secs = do {
     e \<leftarrow> expected p a;
     let lost = saturating_sub e (received a);
     let ratio = (if 0 < e then fdiv (u64_to_f64 lost) (u64_to_f64 e) else Fin 0);
     Some \<lparr>role = Receive, r_bytes = lj_bytes a, r_duration_secs = secs,
           r_bits_per_sec =
             (if flt (Fin 0) secs then fdiv (fmul (u64_to_f64 (lj_bytes a)) (Fin 8)) secs else Fin 0),
           r_bytes_per_sec =
             (if flt (Fin 0) secs then fdiv (u64_to_f64 (lj_bytes a)) secs else Fin 0),
           packets_expected = Some e, packets_received = Some (received a),
           packets_lost = Some lost, loss_ratio = Some ratio,
           jitter_ms = Some (fdiv (jitter_ns a) (Fin 1000000)), samples = []\<rparr>
   }"

section \<open>Sequences of datagrams\<close>

text \<open>A datagram as observed: sequence number, send and receive stamp, length.\<close>

record packet =
  pk_seq :: u64
  pk_send :: u64
  pk_recv :: u64
  pk_len :: u64

fun observe_all :: "profile \<Rightarrow> loss_jitter \<Rightarrow> packet list \<Rightarrow> loss_jitter option" where
  "observe_all p a [] = Some a"
| "observe_all p a (k # ks) = do {
     a' \<leftarrow> observe p a (pk_seq k) (pk_send k) (pk_recv k) (pk_len k);
     observe_all p a' ks
   }"

definition in_window :: "u64 \<Rightarrow> packet list \<Rightarrow> packet list" where
  "in_window w ks = filter (\<lambda>k. \<not> pk_seq k < w) ks"

lemma observe_all_append:
  "observe_all p a (xs @ ys) = do { a' \<leftarrow> observe_all p a xs; observe_all p a' ys }"
  by (induction xs arbitrary: a) (auto split: Option.bind_splits)

lemma observe_warmup_packets: "observe p a s t r n = Some a' \<Longrightarrow> warmup_packets a' = warmup_packets a"
  by (auto simp: observe_def Let_def split: if_splits Option.bind_splits)

lemma observe_all_warmup_packets: "observe_all p a ks = Some a' \<Longrightarrow> warmup_packets a' = warmup_packets a"
  by (induction ks arbitrary: a) (auto dest: observe_warmup_packets split: Option.bind_splits)

text \<open>The warm-up datagrams leave no trace.\<close>

lemma observe_all_in_window: "observe_all p a ks = observe_all p a (in_window (warmup_packets a) ks)"
proof (induction ks arbitrary: a)
  case Nil
  then show ?case by (simp add: in_window_def)
next
  case (Cons k ks)
  show ?case
  proof (cases "pk_seq k < warmup_packets a")
    case True
    with Cons show ?thesis by (simp add: in_window_def observe_def)
  next
    case False
    then show ?thesis
      using Cons observe_warmup_packets by (fastforce simp: in_window_def split: Option.bind_splits)
  qed
qed

text \<open>The accumulator's counts as a function of the datagrams in the window.\<close>

definition lj_stats :: "loss_jitter \<Rightarrow> packet list \<Rightarrow> bool" where
  "lj_stats a ks \<longleftrightarrow>
     lj_bytes a = sum_list (map pk_len ks) \<and> received a = of_nat (length ks)
     \<and> min_seq a = (if ks = [] then None else Some (Min (set (map pk_seq ks))))
     \<and> max_seq a = Max (insert 0 (set (map pk_seq ks)))"

lemma lj_stats_new: "lj_stats (lj_new w) []"
  by (simp add: lj_stats_def lj_new_def)

lemma lj_stats_observe:
  assumes "lj_stats a ks" "\<not> pk_seq k < warmup_packets a"
    and "observe p a (pk_seq k) (pk_send k) (pk_recv k) (pk_len k) = Some a'"
  shows "lj_stats a' (ks @ [k])"
proof -
  let ?s = "set (map pk_seq ks)"
  have "lj_bytes a' = lj_bytes a + pk_len k" "received a' = received a + 1"
    "max_seq a' = max (max_seq a) (pk_seq k)"
    "min_seq a' = Some (case min_seq a of None \<Rightarrow> pk_seq k | Some m \<Rightarrow> min m (pk_seq k))"
    using assms(2,3) by (auto simp: observe_def Let_def dest: uadd_SomeD split: Option.bind_splits)
  moreover have "Max (insert 0 (insert (pk_seq k) ?s)) = max (Max (insert 0 ?s)) (pk_seq k)"
    by (subst insert_commute, subst Max_insert) (auto simp: max.commute)
  moreover have "Min (insert (pk_seq k) ?s) = min (Min ?s) (pk_seq k)" if "ks \<noteq> []"
    using that by (subst Min_insert) (auto simp: min.commute)
  ultimately show ?thesis using assms(1) by (auto simp: lj_stats_def)
qed

lemma observe_all_stats_from:
  assumes "lj_stats a ks" "observe_all p a ks' = Some a'" "\<forall>k\<in>set ks'. \<not> pk_seq k < warmup_packets a"
  shows "lj_stats a' (ks @ ks')"
  using assms
proof (induction ks' arbitrary: a ks)
  case Nil
  then show ?case by simp
next
  case (Cons k ks')
  then obtain a1 where a1: "observe p a (pk_seq k) (pk_send k) (pk_recv k) (pk_len k) = Some a1"
    "observe_all p a1 ks' = Some a'" by (auto split: Option.bind_splits)
  have "lj_stats a1 (ks @ [k])" using Cons.prems a1(1) by (auto intro: lj_stats_observe)
  moreover have "\<forall>k\<in>set ks'. \<not> pk_seq k < warmup_packets a1"
    using Cons.prems(3) by (simp add: observe_warmup_packets [OF a1(1)])
  ultimately have "lj_stats a' ((ks @ [k]) @ ks')"
    using a1(2) Cons.IH by blast
  then show ?case by simp
qed

lemma observe_all_stats:
  assumes "observe_all p (lj_new w) ks = Some a"
  shows "lj_stats a (in_window w ks)"
proof -
  have "observe_all p (lj_new w) (in_window w ks) = Some a"
    using assms observe_all_in_window [of p "lj_new w" ks] by (simp add: lj_new_def)
  then have "lj_stats a ([] @ in_window w ks)"
    by (rule observe_all_stats_from [OF lj_stats_new]) (auto simp: in_window_def lj_new_def)
  then show ?thesis by simp
qed

lemma observe_Release: "\<exists>a'. observe Release a s t r n = Some a'"
  by (auto simp: observe_def chk_simps Let_def split: option.splits)

lemma observe_all_Release: "\<exists>a'. observe_all Release a ks = Some a'"
proof (induction ks arbitrary: a)
  case (Cons k ks)
  then show ?case using observe_Release by (metis bind.bind_lunit observe_all.simps(2))
qed simp

text \<open>A 16-byte datagram, for examples.\<close>

abbreviation pk :: "u64 \<Rightarrow> u64 \<Rightarrow> u64 \<Rightarrow> packet" where
  "pk s t r \<equiv> \<lparr>pk_seq = s, pk_send = t, pk_recv = r, pk_len = 16\<rparr>"

section \<open>Loss\<close>

definition seqs :: "packet list \<Rightarrow> u64 set" where
  "seqs ks = set (map pk_seq ks)"

text \<open>The sequence numbers between the smallest and the largest seen that were not seen.\<close>

definition missing :: "packet list \<Rightarrow> u64 set" where
  "missing ks = {Min (seqs ks)..Max (seqs ks)} - seqs ks"

definition duplicates :: "packet list \<Rightarrow> nat" where
  "duplicates ks = length ks - card (seqs ks)"

definition full_range :: "packet list \<Rightarrow> bool" where
  "full_range ks \<longleftrightarrow> Min (seqs ks) = 0 \<and> Max (seqs ks) = - 1"

lemma card_word_interval: "a \<le> b \<Longrightarrow> card {a..b} = unat b - unat a + 1" for a b :: u64
proof -
  assume "a \<le> b"
  have "unat ` {a..b} = {unat a..unat b}"
  proof
    show "unat ` {a..b} \<subseteq> {unat a..unat b}" by (auto simp: word_le_nat_alt)
  next
    show "{unat a..unat b} \<subseteq> unat ` {a..b}"
    proof
      fix n assume n: "n \<in> {unat a..unat b}"
      then have "n < 2 ^ 64" using unsigned_less [of b, where 'a = nat] by simp
      then have "unat (of_nat n :: u64) = n" by (simp add: unat_of_nat)
      with n show "n \<in> unat ` {a..b}" by (intro image_eqI [of _ _ "of_nat n"]) (auto simp: word_le_nat_alt)
    qed
  qed
  then have "card {a..b} = card {unat a..unat b}"
    by (metis card_image inj_on_def word_unat_eq_iff)
  then show ?thesis using \<open>a \<le> b\<close> by (simp add: word_le_nat_alt)
qed

lemma seqs_props [simp]: "finite (seqs ks)" "seqs ks = {} \<longleftrightarrow> ks = []"
  by (simp_all add: seqs_def)

lemma Min_le_Max_seqs: "ks \<noteq> [] \<Longrightarrow> Min (seqs ks) \<le> Max (seqs ks)"
  by (meson Max_in Min_le seqs_props)

lemma seqs_interval: "seqs ks \<subseteq> {Min (seqs ks)..Max (seqs ks)}"
  by auto

lemma span_fits:
  assumes "ks \<noteq> []" "\<not> full_range ks"
  shows "unat (Max (seqs ks)) - unat (Min (seqs ks)) + 1 < 2 ^ 64"
proof -
  have "unat (Max (seqs ks)) < 2 ^ 64" using unsigned_less [of "Max (seqs ks)", where 'a = nat] by simp
  moreover have "unat (Min (seqs ks)) \<noteq> 0 \<or> unat (Max (seqs ks)) \<noteq> 2 ^ 64 - 1"
  proof (rule ccontr)
    assume "\<not> ?thesis"
    moreover have "unat (- 1 :: u64) = 2 ^ 64 - 1"
      by (simp add: unsigned_minus_1_eq_mask mask_eq_exp_minus_1)
    ultimately have "unat (Min (seqs ks)) = unat (0::u64)" "unat (Max (seqs ks)) = unat (- 1 :: u64)"
      by (simp_all del: unsigned_minus_1_eq_mask)
    then have "full_range ks" unfolding full_range_def by (simp only: word_unat_eq_iff)
    with assms(2) show False by simp
  qed
  ultimately show ?thesis by simp linarith
qed

lemma expected_value:
  assumes "lj_stats a ks" "ks \<noteq> []" "\<not> full_range ks"
  shows "\<exists>e. expected p a = Some e \<and> unat e = card {Min (seqs ks)..Max (seqs ks)}"
proof -
  let ?m = "Min (seqs ks)" and ?M = "Max (seqs ks)"
  have mm: "min_seq a = Some ?m" "max_seq a = ?M"
    using assms(1,2) by (simp_all add: lj_stats_def seqs_def)
  have le: "?m \<le> ?M" by (rule Min_le_Max_seqs [OF assms(2)])
  have d: "unat (?M - ?m) = unat ?M - unat ?m" using le by (simp add: unat_sub)
  then have "unat (?M - ?m) + unat (1::u64) < 2 ^ LENGTH(64)"
    using span_fits [OF assms(2,3)] by simp
  note ok = uadd_ok [OF this, of p] unat_add_exact [OF this]
  have "expected p a = Some (?M - ?m + 1)" using mm ok(1) le by (simp add: expected_def usub_ok)
  with ok(2) d show ?thesis by (simp add: card_word_interval [OF le])
qed

lemma missing_count: "card (missing ks) + card (seqs ks) = card {Min (seqs ks)..Max (seqs ks)}"
  unfolding missing_def by (metis seqs_interval card_Diff_subset card_mono finite_atLeastAtMost
      le_add_diff_inverse2 seqs_props(1))

lemma into_result_fields:
  assumes "expected p a = Some e"
  shows "\<exists>r. into_result p a secs = Some r \<and> packets_received r = Some (received a)
    \<and> packets_expected r = Some e \<and> packets_lost r = Some (saturating_sub e (received a))"
  using assms by (auto simp: into_result_def Let_def)



text \<open>
  C19. Reordering changes no count: two arrival orders of the same datagrams give the same
  bytes, packet counts, loss, loss ratio and rate.
\<close>

theorem reordering_is_not_loss:
  assumes "mset ks = mset ks'"
    and "observe_all p (lj_new w) ks = Some a" and "observe_all p (lj_new w) ks' = Some a'"
  shows "lj_bytes a = lj_bytes a' \<and> received a = received a' \<and> expected p a = expected p a' \<and>
    map_option (\<lambda>r. (packets_expected r, packets_received r, packets_lost r, loss_ratio r, r_bytes r, r_bits_per_sec r))
      (into_result p a secs)
    = map_option (\<lambda>r. (packets_expected r, packets_received r, packets_lost r, loss_ratio r, r_bytes r, r_bits_per_sec r))
      (into_result p a' secs)"
proof -
  have m: "mset (in_window w ks) = mset (in_window w ks')"
    using assms(1) by (simp add: in_window_def)
  have s: "set (map pk_seq (in_window w ks)) = set (map pk_seq (in_window w ks'))"
    using mset_eq_setD [OF m] by simp
  have b: "sum_list (map pk_len (in_window w ks)) = sum_list (map pk_len (in_window w ks'))"
    using m by (metis mset_map sum_mset_sum_list)
  have l: "length (in_window w ks) = length (in_window w ks')" by (rule mset_eq_length [OF m])
  have "lj_bytes a = lj_bytes a'" "received a = received a'" "min_seq a = min_seq a'" "max_seq a = max_seq a'"
    using observe_all_stats [OF assms(2)] observe_all_stats [OF assms(3)] s b l
    unfolding lj_stats_def by (auto simp del: set_map)
  then show ?thesis by (simp add: expected_def into_result_def Let_def split: option.splits Option.bind_splits)
qed

theorem reordering_is_not_loss_witness:
  "\<exists>a a'. observe_all Release (lj_new 0) [pk 0 1 2, pk 1 3 9] = Some a
     \<and> observe_all Release (lj_new 0) [pk 1 3 9, pk 0 1 2] = Some a' \<and> expected Release a = expected Release a'"
proof -
  obtain a a' where o: "observe_all Release (lj_new 0) [pk 0 1 2, pk 1 3 9] = Some a"
    "observe_all Release (lj_new 0) [pk 1 3 9, pk 0 1 2] = Some a'" using observe_all_Release by blast
  have "mset [pk 0 1 2, pk 1 3 9] = mset [pk 1 3 9, pk 0 1 2]" by simp
  from reordering_is_not_loss [OF this o] o show ?thesis by blast
qed

text \<open>
  The loss ratio of every result is a finite number between 0 and 1, the division of two
  rounded counts included.
\<close>

lemma loss_ratio_unit:
  assumes "into_result p a secs = Some r"
  shows "\<exists>x. loss_ratio r = Some x \<and> is_finite x \<and> 0 \<le> fval x \<and> fval x \<le> 1"
proof -
  obtain e where e: "expected p a = Some e"
    and r: "loss_ratio r = Some (if 0 < e then fdiv (u64_to_f64 (saturating_sub e (received a))) (u64_to_f64 e) else Fin 0)"
    using assms by (auto simp: into_result_def Let_def split: Option.bind_splits)
  show ?thesis
  proof (cases "0 < e")
    case False
    with r show ?thesis by simp
  next
    case True
    let ?l = "fval (u64_to_f64 (saturating_sub e (received a)))" and ?e = "fval (u64_to_f64 e)"
    have e1: "1 \<le> ?e" by (rule fval_u64_to_f64_pos [OF True])
    have q: "0 \<le> ?l / ?e" "?l / ?e \<le> 1"
      using e1 u64_to_f64_bounds(1) [of "saturating_sub e (received a)"] u64_to_f64_mono [OF saturating_sub_le [of e "received a"]]
      by (simp_all add: divide_le_eq)
    then have "\<bar>?l / ?e\<bar> \<le> fmax" using power_le_fmax [of 0] by simp
    note D = fdiv_finite [OF u64_to_f64(3) u64_to_f64(3) _ this]
    have "?e \<noteq> 0" using e1 by simp
    from D [OF this] True r fl.rnd_unit [OF q] show ?thesis by (auto simp: rep_finite)
  qed
qed

lemma loss_ratio_unit_witness:
  "\<exists>r x. into_result Debug (lj_new 0) (Fin 1) = Some r \<and> loss_ratio r = Some x \<and> fval x \<le> 1"
proof -
  obtain r where "into_result Debug (lj_new 0) (Fin 1) = Some r"
    by (simp add: into_result_def expected_def lj_new_def)
  then show ?thesis using loss_ratio_unit [of Debug "lj_new 0" "Fin 1" r] by blast
qed

section \<open>Jitter\<close>

definition transit_of :: "packet \<Rightarrow> i64" where
  "transit_of k = pk_recv k - pk_send k"

definition abs_i64 :: "i64 \<Rightarrow> i64" where
  "abs_i64 d = (if sint d < 0 then - d else d)"

text \<open>The absolute transit differences of consecutive datagrams, \<open>|D|\<close> of RFC 3550.\<close>

fun transit_steps :: "i64 option \<Rightarrow> packet list \<Rightarrow> i64 list" where
  "transit_steps _ [] = []"
| "transit_steps None (k # ks) = transit_steps (Some (transit_of k)) ks"
| "transit_steps (Some t) (k # ks) = abs_i64 (transit_of k - t) # transit_steps (Some (transit_of k)) ks"

lemma observe_jitter:
  assumes "observe p a (pk_seq k) (pk_send k) (pk_recv k) (pk_len k) = Some a'"
    and "\<not> pk_seq k < warmup_packets a"
  shows "prev_transit a' = Some (transit_of k)"
    and "jitter_ns a' = (case prev_transit a of None \<Rightarrow> jitter_ns a
           | Some t \<Rightarrow> smooth (jitter_ns a) (i64_to_f64 (abs_i64 (transit_of k - t))))"
  using assms
  by (auto simp: observe_def Let_def transit_of_def abs_i64_def ssub_def sabs_def
      split: option.splits Option.bind_splits if_splits)

lemma i64_to_f64_nat:
  assumes "0 \<le> sint d" "sint d \<le> 2 ^ 53"
  shows "i64_to_f64 d = Fin (of_int (sint d))"
  using round64_nat [of "nat (sint d)"] assms by (simp add: i64_to_f64_def nat_le_iff)

text \<open>One step stays between the old jitter and the new difference.\<close>

lemma smooth_between:
  assumes "rep j" "0 \<le> fval j" "fval j \<le> B" "0 \<le> n" "of_int n \<le> B" "B \<le> 2 ^ 53"
  shows "rep (smooth j (Fin (of_int n)))" and "0 \<le> fval (smooth j (Fin (of_int n)))"
    and "fval (smooth j (Fin (of_int n))) \<le> B"
proof -
  let ?x = "fval j" and ?d = "of_int n :: rat"
  have n: "\<bar>n\<bar> \<le> 2 ^ 53"
  proof -
    have "(of_int n :: rat) \<le> of_int (2 ^ 53)" using assms(5,6) by simp
    then have "n \<le> 2 ^ 53" by (simp only: of_int_le_iff)
    with assms(4) show ?thesis by simp
  qed
  have rx: "fl ?x = ?x" and rd: "fl ?d = ?d" using assms(1) n by (simp_all add: rep_def fl_of_int)
  have big: "\<bar>y\<bar> \<le> fmax" if "\<bar>y\<bar> \<le> 2 ^ 55" for y :: rat
    using that power_le_fmax [of 55] by linarith
  have d0: "0 \<le> ?d" using assms(4) by simp
  have "\<bar>?d - ?x\<bar> \<le> 2 ^ 53" using assms d0 by linarith
  then have "\<bar>?d - ?x\<bar> \<le> 2 ^ 55" by (rule order_trans) simp
  note s1 = fsub_finite [OF _ rep_finite [OF assms(1)], of "Fin ?d", simplified, OF big [OF this]]
  define u where "u = fl (?d - ?x)"
  have u: "\<bar>u\<bar> \<le> 2 ^ 53"
    using fl.rnd_upper [OF fl_2_power, of "\<bar>?d - ?x\<bar>" 53] \<open>\<bar>?d - ?x\<bar> \<le> 2 ^ 53\<close> by (simp add: u_def fl_abs)
  then have "\<bar>u * (1 / 16)\<bar> \<le> 2 ^ 55" by (simp add: abs_mult)
  note s2 = fmul_finite [OF rep_finite [OF s1(2)], of JITTER_GAIN, unfolded JITTER_GAIN_def s1(1) u_def [symmetric], simplified]
  have v: "fval (fmul (fsub (Fin ?d) j) JITTER_GAIN) = fl (u / 16)"
    "rep (fmul (fsub (Fin ?d) j) JITTER_GAIN)"
    using s2 big [OF \<open>\<bar>u * (1 / 16)\<bar> \<le> 2 ^ 55\<close>] by (simp_all add: JITTER_GAIN_def)
  have "\<bar>u / 16\<bar> \<le> 2 ^ 53" using u by simp
  then have "fl \<bar>u / 16\<bar> \<le> 2 ^ 53" by (rule fl.rnd_upper [OF fl_2_power])
  then have "\<bar>fl (u / 16)\<bar> \<le> 2 ^ 53" by (simp only: fl_abs)
  then have "\<bar>?x + fl (u / 16)\<bar> \<le> 2 ^ 55" using assms(2,3,6) by (simp add: abs_le_iff)
  then have b: "\<bar>?x + fval (fmul (fsub (Fin ?d) j) JITTER_GAIN)\<bar> \<le> fmax" unfolding v(1) by (rule big)
  note s3 = fadd_finite [OF rep_finite [OF assms(1)] rep_finite [OF v(2)] b]
  show "rep (smooth j (Fin ?d))" using s3(2) by (simp add: smooth_def)
  have val: "fval (smooth j (Fin ?d)) = fl (?x + fl (fl (?d - ?x) / 16))"
    using s3(1) by (simp add: smooth_def v(1) u_def)
  show "0 \<le> fval (smooth j (Fin ?d))"
    using fl.rnd_smooth(1) [OF rx rd] assms(2) d0 unfolding val by simp
  show "fval (smooth j (Fin ?d)) \<le> B"
    using fl.rnd_smooth(2) [OF rx rd] assms(3,5) unfolding val by simp
qed

lemma jitter_bounds_from:
  assumes "observe_all p a ks = Some a'" "\<forall>k\<in>set ks. \<not> pk_seq k < warmup_packets a"
    and "\<forall>d\<in>set (transit_steps (prev_transit a) ks). 0 \<le> sint d \<and> sint d \<le> B"
    and "rep (jitter_ns a)" "0 \<le> fval (jitter_ns a)" "fval (jitter_ns a) \<le> of_int B" "B \<le> 2 ^ 53"
  shows "rep (jitter_ns a') \<and> 0 \<le> fval (jitter_ns a') \<and> fval (jitter_ns a') \<le> of_int B"
  using assms
proof (induction ks arbitrary: a)
  case Nil
  then show ?case by simp
next
  case (Cons k ks)
  then obtain a1 where a1: "observe p a (pk_seq k) (pk_send k) (pk_recv k) (pk_len k) = Some a1"
    "observe_all p a1 ks = Some a'" by (auto split: Option.bind_splits)
  have w: "\<not> pk_seq k < warmup_packets a" using Cons.prems(2) by simp
  note J = observe_jitter [OF a1(1) w]
  have B: "(of_int B :: rat) \<le> 2 ^ 53"
  proof -
    have "(of_int B :: rat) \<le> of_int (2 ^ 53)" using Cons.prems(7) by (simp only: of_int_le_iff)
    then show ?thesis by simp
  qed
  have "rep (jitter_ns a1) \<and> 0 \<le> fval (jitter_ns a1) \<and> fval (jitter_ns a1) \<le> of_int B"
  proof (cases "prev_transit a")
    case None
    with J Cons.prems(4-6) show ?thesis by simp
  next
    case (Some t)
    let ?d = "abs_i64 (transit_of k - t)"
    have d: "0 \<le> sint ?d" "sint ?d \<le> B" using Cons.prems(3) Some by simp_all
    then have "i64_to_f64 ?d = Fin (of_int (sint ?d))"
      using Cons.prems(7) by (intro i64_to_f64_nat) simp_all
    with J(2) have eq: "jitter_ns a1 = smooth (jitter_ns a) (Fin (of_int (sint ?d)))"
      by (simp only: Some option.case)
    have "(of_int (sint ?d) :: rat) \<le> of_int B" using d(2) by (simp only: of_int_le_iff)
    note smooth_between [OF Cons.prems(4-6) d(1) this B]
    then show ?thesis unfolding eq by (intro conjI)
  qed
  moreover have "\<forall>k\<in>set ks. \<not> pk_seq k < warmup_packets a1"
    using Cons.prems(2) by (simp add: observe_warmup_packets [OF a1(1)])
  moreover have "\<forall>d\<in>set (transit_steps (prev_transit a1) ks). 0 \<le> sint d \<and> sint d \<le> B"
    using Cons.prems(3) J(1) by (cases "prev_transit a") simp_all
  ultimately show ?case using Cons.IH [OF a1(2)] Cons.prems(7) by blast
qed

text \<open>
  C17. The smoothed jitter of RFC 3550 stays in range: if every transit difference is at most B
  nanoseconds, the floating-point accumulator is finite and lies between 0 and B after any number
  of datagrams, its rounding included.
\<close>

theorem jitter_bounded_by_differences:
  assumes "observe_all p (lj_new w) ks = Some a" and "0 \<le> B" and "B \<le> 2 ^ 53"
    and "\<forall>d\<in>set (transit_steps None (in_window w ks)). 0 \<le> sint d \<and> sint d \<le> B"
  shows "is_finite (jitter_ns a) \<and> 0 \<le> fval (jitter_ns a) \<and> fval (jitter_ns a) \<le> of_int B"
proof -
  have "observe_all p (lj_new w) (in_window w ks) = Some a"
    using assms(1) observe_all_in_window [of p "lj_new w" ks] by (simp add: lj_new_def)
  from jitter_bounds_from [OF this, of B] show ?thesis
    using assms by (auto simp: lj_new_def in_window_def rep_finite)
qed

theorem jitter_bounded_by_differences_witness:
  "\<exists>a. observe_all Release (lj_new 0) [pk 0 0 500, pk 1 1000 2500] = Some a \<and> fval (jitter_ns a) \<le> 1000"
proof -
  let ?ks = "[pk 0 0 500, pk 1 1000 2500]"
  obtain a where a: "observe_all Release (lj_new 0) ?ks = Some a" using observe_all_Release by blast
  have "transit_steps None (in_window 0 ?ks) = [1000]" by code_simp
  moreover have "sint (1000 :: i64) = 1000" by code_simp
  ultimately show ?thesis using a jitter_bounded_by_differences [of Release 0 ?ks a 1000] by simp
qed

section \<open>Clock offsets\<close>

definition shift_clocks :: "u64 \<Rightarrow> u64 \<Rightarrow> packet \<Rightarrow> packet" where
  "shift_clocks c d k = k\<lparr>pk_send := pk_send k + c, pk_recv := pk_recv k + d\<rparr>"

definition shift_state :: "u64 \<Rightarrow> loss_jitter \<Rightarrow> loss_jitter" where
  "shift_state off a = a\<lparr>prev_transit := map_option (\<lambda>t. t + off) (prev_transit a)\<rparr>"

lemma observe_Release_eq:
  "observe Release a s sent rcv n = Some (if s < warmup_packets a then a else
     a\<lparr>lj_bytes := lj_bytes a + n, received := received a + 1,
       min_seq := Some (case min_seq a of None \<Rightarrow> s | Some m \<Rightarrow> min m s), max_seq := max (max_seq a) s,
       prev_transit := Some (rcv - sent),
       jitter_ns := (case prev_transit a of None \<Rightarrow> jitter_ns a
         | Some t \<Rightarrow> smooth (jitter_ns a) (i64_to_f64 (abs_i64 (rcv - sent - t))))\<rparr>)"
  by (cases "prev_transit a") (simp_all add: observe_def uadd_Release ssub_Release sabs_Release Let_def abs_i64_def)

lemma observe_shift:
  "observe Release (shift_state (d - c) a) s (sent + c) (rcv + d) n
     = map_option (shift_state (d - c)) (observe Release a s sent rcv n)"
proof -
  have t: "rcv + d - (sent + c) = (rcv - sent) + (d - c)" by simp
  have "x + off - (t + off) = x - t" for x off t :: i64 by simp
  then show ?thesis
    unfolding observe_Release_eq t by (cases "prev_transit a") (simp_all add: shift_state_def)
qed

lemma observe_all_shift:
  "observe_all Release (shift_state (d - c) a) (map (shift_clocks c d) ks)
     = map_option (shift_state (d - c)) (observe_all Release a ks)"
proof (induction ks arbitrary: a)
  case (Cons k ks)
  obtain a1 where "observe Release a (pk_seq k) (pk_send k) (pk_recv k) (pk_len k) = Some a1"
    using observe_Release by blast
  then show ?case
    using Cons observe_shift [of d c a "pk_seq k" "pk_send k" "pk_recv k" "pk_len k"] by (simp add: shift_clocks_def)
qed simp

lemma into_result_shift: "into_result p (shift_state off a) secs = into_result p a secs"
proof -
  have "expected p (shift_state off a) = expected p a"
    by (simp add: expected_def shift_state_def split: option.split)
  moreover have "received (shift_state off a) = received a" "lj_bytes (shift_state off a) = lj_bytes a"
    "jitter_ns (shift_state off a) = jitter_ns a" by (simp_all add: shift_state_def)
  ultimately show ?thesis by (simp only: into_result_def)
qed

text \<open>
  C18. The two monotonic clocks need not agree: adding any constants to the sender's and to the
  receiver's clock leaves the whole result unchanged, jitter included (release build).
\<close>

theorem clock_offset_cancels:
  "do { a \<leftarrow> observe_all Release (lj_new w) (map (shift_clocks c d) ks); into_result Release a secs }
   = do { a \<leftarrow> observe_all Release (lj_new w) ks; into_result Release a secs }"
proof -
  obtain a where a: "observe_all Release (lj_new w) ks = Some a" using observe_all_Release by blast
  have "shift_state (d - c) (lj_new w) = lj_new w" by (simp add: shift_state_def lj_new_def)
  then have "observe_all Release (lj_new w) (map (shift_clocks c d) ks) = Some (shift_state (d - c) a)"
    using observe_all_shift [of d c "lj_new w" ks] a by simp
  with a show ?thesis by (simp only: Option.bind.bind_lunit into_result_shift)
qed

text \<open>
  The datagram header round-trips: a buffer long enough for it is stamped in place, its
  padding kept, and reading it back gives the sequence number and the send time.
\<close>

lemma stamp_unstamp:
  assumes "HEADER_LEN \<le> length buf"
  shows "\<exists>buf'. stamp buf seq send_ns = Some buf' \<and> length buf' = length buf \<and>
           unstamp buf' = Some (seq, send_ns) \<and> drop HEADER_LEN buf' = drop HEADER_LEN buf"
  using assms by (simp add: stamp_def unstamp_def HEADER_LEN_def)

lemma stamp_unstamp_witness:
  "\<exists>buf'. stamp (replicate 20 7) 5 9 = Some buf' \<and> unstamp buf' = Some (5, 9) \<and> drop HEADER_LEN buf' = replicate 4 7"
  using stamp_unstamp [of "replicate 20 7" 5 9] by (auto simp: HEADER_LEN_def)

section \<open>No panic on honest traffic\<close>

lemma sint_diff_exact:
  "- (2 ^ 63) \<le> sint a - sint b \<Longrightarrow> sint a - sint b < 2 ^ 63 \<Longrightarrow> sint (a - b) = sint a - sint b"
  for a b :: i64
  by (simp add: sint_word_ariths signed_take_bit_int_eq_self)

lemma sint_of_small: "unat t < 2 ^ 62 \<Longrightarrow> 0 \<le> sint t \<and> sint t < 2 ^ 62" for t :: u64
proof -
  assume a: "unat t < 2 ^ 62"
  then have "uint t < 2 ^ 62" by (simp only: unat_eq_nat_uint nat_less_iff uint_ge_0) simp
  then have "sint t = uint t" unfolding sint_uint by (intro signed_take_bit_int_eq_self) (simp_all add: order_trans [of _ 0])
  with \<open>uint t < 2 ^ 62\<close> show ?thesis by simp
qed

lemma ssub_ok:
  "- (2 ^ 63) \<le> sint a - sint b \<Longrightarrow> sint a - sint b < 2 ^ 63 \<Longrightarrow> ssub p a b = Some (a - b)"
  by (simp add: ssub_def)

definition honest :: "packet \<Rightarrow> bool" where
  "honest k \<longleftrightarrow> unat (pk_send k) < 2 ^ 62 \<and> unat (pk_recv k) < 2 ^ 62"

definition transit_ok :: "loss_jitter \<Rightarrow> bool" where
  "transit_ok a \<longleftrightarrow> (\<forall>t. prev_transit a = Some t \<longrightarrow> - (2 ^ 62) < sint t \<and> sint t < 2 ^ 62)"

lemma observe_honest:
  assumes "honest k" "transit_ok a"
    and "unat (lj_bytes a) + unat (pk_len k) < 2 ^ 64" "unat (received a) + 1 < 2 ^ 64"
  shows "\<exists>a'. observe p a (pk_seq k) (pk_send k) (pk_recv k) (pk_len k) = Some a'
    \<and> observe Release a (pk_seq k) (pk_send k) (pk_recv k) (pk_len k) = Some a' \<and> transit_ok a'
    \<and> unat (lj_bytes a') \<le> unat (lj_bytes a) + unat (pk_len k) \<and> unat (received a') \<le> unat (received a) + 1"
proof -
  note r = sint_of_small [of "pk_recv k"] and s = sint_of_small [of "pk_send k"]
  let ?t = "pk_recv k - pk_send k"
  have b: "- (2 ^ 62) < sint (pk_recv k) - sint (pk_send k)" "sint (pk_recv k) - sint (pk_send k) < 2 ^ 62"
    using assms(1) r s by (simp_all add: honest_def)
  have t: "ssub p (pk_recv k) (pk_send k) = Some ?t" "sint ?t = sint (pk_recv k) - sint (pk_send k)"
    using b by (auto intro!: ssub_ok sint_diff_exact)
  have d: "ssub p ?t u = Some (?t - u) \<and> sabs p (?t - u) = Some (abs_i64 (?t - u))" if "prev_transit a = Some u" for u
  proof -
    have u: "- (2 ^ 62) < sint u" "sint u < 2 ^ 62" using assms(2) that by (simp_all add: transit_ok_def)
    have v: "- (2 ^ 63) < sint ?t - sint u" "sint ?t - sint u < 2 ^ 63"
      using b u unfolding t(2) by simp_all
    then have "sint (?t - u) = sint ?t - sint u" by (intro sint_diff_exact) simp_all
    with v have "sint (?t - u) \<noteq> - (2 ^ 63)" by linarith
    with v show ?thesis by (intro conjI ssub_ok) (simp_all add: sabs_def abs_i64_def)
  qed
  have "uadd p (lj_bytes a) (pk_len k) = Some (lj_bytes a + pk_len k)"
    "uadd p (received a) 1 = Some (received a + 1)"
    using assms(3,4) by (simp_all add: uadd_ok)
  with t(1) d have "observe p a (pk_seq k) (pk_send k) (pk_recv k) (pk_len k)
      = observe Release a (pk_seq k) (pk_send k) (pk_recv k) (pk_len k)"
    unfolding observe_Release_eq by (cases "prev_transit a") (simp_all add: observe_def Let_def)
  moreover have "- (2 ^ 62) < sint ?t" "sint ?t < 2 ^ 62" using b t(2) by simp_all
  moreover have "unat (lj_bytes a + pk_len k) = unat (lj_bytes a) + unat (pk_len k)"
    "unat (received a + 1) = unat (received a) + 1"
    using assms(3,4) unat_add_exact [of "lj_bytes a" "pk_len k"] unat_add_exact [of "received a" 1] by simp_all
  ultimately show ?thesis
    using assms(2) unfolding observe_Release_eq by (auto simp: transit_ok_def)
qed

lemma observe_all_honest:
  assumes "\<forall>k\<in>set ks. honest k" "transit_ok a"
    and "unat (lj_bytes a) + sum_list (map (\<lambda>k. unat (pk_len k)) ks) < 2 ^ 64"
    and "unat (received a) + length ks < 2 ^ 64"
  shows "\<exists>a'. observe_all p a ks = Some a' \<and> observe_all Release a ks = Some a'"
  using assms
proof (induction ks arbitrary: a)
  case Nil
  then show ?case by simp
next
  case (Cons k ks)
  obtain a1 where a1: "observe p a (pk_seq k) (pk_send k) (pk_recv k) (pk_len k) = Some a1"
    "observe Release a (pk_seq k) (pk_send k) (pk_recv k) (pk_len k) = Some a1" "transit_ok a1"
    "unat (lj_bytes a1) \<le> unat (lj_bytes a) + unat (pk_len k)" "unat (received a1) \<le> unat (received a) + 1"
    using observe_honest [of k a p] Cons.prems by auto
  have "\<exists>a'. observe_all p a1 ks = Some a' \<and> observe_all Release a1 ks = Some a'"
    using Cons.prems a1(3-5) by (intro Cons.IH) simp_all
  with a1(1,2) show ?case by simp
qed

text \<open>
  Datagrams stamped within 146 years of the start of their clocks never make the
  accumulator overflow: the debug build does not panic and agrees with the release build.
\<close>

lemma honest_traffic_no_panic:
  assumes "\<forall>k\<in>set ks. honest k"
    and "sum_list (map (\<lambda>k. unat (pk_len k)) ks) < 2 ^ 64" and "length ks < 2 ^ 64"
  shows "\<exists>a. observe_all p (lj_new w) ks = Some a \<and> observe_all Release (lj_new w) ks = Some a"
  using assms by (intro observe_all_honest) (simp_all add: lj_new_def transit_ok_def)

lemma honest_traffic_no_panic_witness:
  "\<exists>a. observe_all Debug (lj_new 0) [pk 0 10 20, pk 1 30 40] = Some a
     \<and> observe_all Release (lj_new 0) [pk 0 10 20, pk 1 30 40] = Some a"
  using honest_traffic_no_panic [of "[pk 0 10 20, pk 1 30 40]" Debug 0] by (simp add: honest_def)

section \<open>Where the measurement departs from the document\<close>

lemma duplicates_mask_loss:
  "do { a \<leftarrow> observe_all Debug (lj_new 0) [pk 0 0 0, pk 2 0 0, pk 2 0 0]; map_option packets_lost (into_result Debug a (Fin 1)) }
     = Some (Some 0)"
  by code_simp

lemma full_span_overflows:
  "do { a \<leftarrow> observe_all Debug (lj_new 0) [pk 0 0 0, pk (- 1) 0 0]; lj_snapshot Debug a } = None"
  "do { a \<leftarrow> observe_all Release (lj_new 0) [pk 0 0 0, pk (- 1) 0 0]; expected Release a } = Some 0"
  by code_simp+

lemma hostile_stamp_panics:
  "observe Debug (lj_new 0) 0 (2 ^ 63) 0 16 = None"
  by code_simp

end
