(* ===== verification/UdpServer.thy ===== *)
theory UdpServer
  imports LossJitter Meter
begin

text \<open>
  \<open>src/src/modes/udp.rs\<close>, the receiver \<open>serve\<close>: a function of the order in which
  \<open>tokio::select!\<close> sees its three futures complete, the \<open>Stop\<close> of the control side, a tick of
  the sampler, a datagram or an error of the socket, each with the clock readings the branch
  makes. It gives \<open>None\<close> while it still waits, otherwise an error, a panic or the result
  with the lines printed.

  The lemmas show that the loop refines the accumulator of \<open>LossJitter\<close> run over the
  datagrams taken in, whatever the ticks, and what the time series adds up to.
\<close>

section \<open>The receiver\<close>

text \<open>The datagram size of a negotiation.\<close>

definition packet_size :: "negotiate \<Rightarrow> usize" where
  "packet_size neg = max (case packet_bytes neg of None \<Rightarrow> 1472 | Some n \<Rightarrow> n) (of_nat HEADER_LEN)"

definition warmup_threshold :: "profile \<Rightarrow> negotiate \<Rightarrow> u64 option" where
  "warmup_threshold p neg = do {
     bits_per_packet \<leftarrow> umul p (packet_size neg) 8;
     let pps = (case bitrate_bps neg of None \<Rightarrow> 0 | Some b \<Rightarrow> b) div max bits_per_packet 1;
     umul p pps (warmup_secs neg)
   }"

record udp_rx =
  rx_acc :: loss_jitter
  rx_measure_start :: "instant option"
  rx_samples :: "sample list"
  rx_lines :: "string list"
  rx_last :: snapshot
  rx_last_t :: instant

datatype udp_event =
  StopAt instant | TickAt instant | Datagram bytes instant instant | RecvFails io_error

definition udp_readout :: "format \<Rightarrow> duration \<Rightarrow> f64 \<Rightarrow> u64 \<Rightarrow> f64 \<Rightarrow> bool \<Rightarrow> string" where
  "udp_readout fmt elapsed bps lost jitter warm =
     ''['' @ pad_left (CHR '' '') 5 (fixed 1 (as_secs_f64 elapsed)) @ ''s] '' @ render fmt bps
     @ '' | loss '' @ show_nat (unat lost) @ '' | jitter '' @ fixed 3 jitter @ '' ms''
     @ (if warm then ''  (warm-up, excluded)'' else [])"

definition udp_tick ::
  "profile \<Rightarrow> format \<Rightarrow> duration \<Rightarrow> instant \<Rightarrow> udp_rx \<Rightarrow> instant \<Rightarrow> udp_rx outcome" where
  "udp_tick p fmt warmup t0 st now =
     and_then (or_panic (lj_snapshot p (rx_acc st))) (\<lambda>cur.
       let interval_bytes = saturating_sub (sn_bytes cur) (sn_bytes (rx_last st));
           interval_lost = saturating_sub (sn_lost cur) (sn_lost (rx_last st));
           secs = as_secs_f64 (duration_since now (rx_last_t st));
           bps = (if flt (Fin 0) secs then fdiv (fmul (u64_to_f64 interval_bytes) (Fin 8)) secs else Fin 0);
           elapsed = duration_since now t0
       in and_then (or_panic (duration_add warmup (from_millis 100))) (\<lambda>limit.
            Inr (st\<lparr>
              rx_lines := rx_lines st @
                [udp_readout fmt elapsed bps interval_lost (sn_jitter_ms cur) (elapsed \<le> limit)],
              rx_samples := rx_samples st @
                [\<lparr>s_t_secs = as_secs_f64 elapsed, s_bytes = interval_bytes, s_bits_per_sec = bps,
                  s_packets_lost = Some interval_lost, s_jitter_ms = Some (sn_jitter_ms cur)\<rparr>],
              rx_last := cur, rx_last_t := now\<rparr>)))"

definition udp_recv ::
  "profile \<Rightarrow> instant \<Rightarrow> nat \<Rightarrow> u64 \<Rightarrow> udp_rx \<Rightarrow> bytes \<Rightarrow> instant \<Rightarrow> instant \<Rightarrow> udp_rx outcome" where
  "udp_recv p t0 buf_len warmup_pkts st d now1 now2 =
     (let got = take buf_len d
      in case unstamp got of
           None \<Rightarrow> Inr st
         | Some (seq, send_ns) \<Rightarrow>
             (let recv_ns = as_nanos_u64 (duration_since now1 t0);
                  started = (if warmup_pkts \<le> seq \<and> rx_measure_start st = None
                             then Some now2 else rx_measure_start st)
              in and_then (or_panic (observe p (rx_acc st) seq send_ns recv_ns (of_nat (length got)))) (\<lambda>acc.
                   Inr (st\<lparr>rx_measure_start := started, rx_acc := acc\<rparr>))))"

definition udp_finish :: "profile \<Rightarrow> udp_rx \<Rightarrow> instant \<Rightarrow> (test_result \<times> string list) outcome" where
  "udp_finish p st now =
     (let secs = (case rx_measure_start st of None \<Rightarrow> Fin 0 | Some s \<Rightarrow> as_secs_f64 (duration_since now s))
      in and_then (or_panic (into_result p (rx_acc st) secs)) (\<lambda>result.
           Inr (result\<lparr>samples := rx_samples st\<rparr>, rx_lines st)))"

fun udp_loop ::
  "profile \<Rightarrow> format \<Rightarrow> duration \<Rightarrow> instant \<Rightarrow> nat \<Rightarrow> u64 \<Rightarrow> udp_rx \<Rightarrow> udp_event list
     \<Rightarrow> (test_result \<times> string list) outcome option" where
  "udp_loop p fmt warmup t0 buf_len w st [] = None"
| "udp_loop p fmt warmup t0 buf_len w st (StopAt now # evs) = Some (udp_finish p st now)"
| "udp_loop p fmt warmup t0 buf_len w st (TickAt now # evs) =
     (case udp_tick p fmt warmup t0 st now of
        Inl e \<Rightarrow> Some (Inl e)
      | Inr st' \<Rightarrow> udp_loop p fmt warmup t0 buf_len w st' evs)"
| "udp_loop p fmt warmup t0 buf_len w st (Datagram d now1 now2 # evs) =
     (case udp_recv p t0 buf_len w st d now1 now2 of
        Inl e \<Rightarrow> Some (Inl e)
      | Inr st' \<Rightarrow> udp_loop p fmt warmup t0 buf_len w st' evs)"
| "udp_loop p fmt warmup t0 buf_len w st (RecvFails e # evs) = Some (Inl (Io e))"

definition udp_rx_init :: "u64 \<Rightarrow> instant \<Rightarrow> snapshot \<Rightarrow> udp_rx" where
  "udp_rx_init w t0 snap =
     \<lparr>rx_acc = lj_new w, rx_measure_start = None, rx_samples = [], rx_lines = [],
      rx_last = snap, rx_last_t = t0\<rparr>"

definition serve_udp ::
  "profile \<Rightarrow> negotiate \<Rightarrow> format \<Rightarrow> instant \<Rightarrow> udp_event list
     \<Rightarrow> (test_result \<times> string list) outcome option" where
  "serve_udp p neg fmt t0 evs =
     (case warmup_threshold p neg of
        None \<Rightarrow> Some (Inl (Panic ''arithmetic overflow''))
      | Some w \<Rightarrow>
          (case zeroed_vec (max (packet_size neg) 65535) of
             Inl e \<Rightarrow> Some (Inl e)
           | Inr buf \<Rightarrow>
               (case lj_snapshot p (lj_new w) of
                  None \<Rightarrow> Some (Inl (Panic ''arithmetic overflow''))
                | Some snap \<Rightarrow>
                    udp_loop p fmt (from_secs (warmup_secs neg)) t0 (length buf) w
                      (udp_rx_init w t0 snap) evs)))"

section \<open>The receiver: lemmas\<close>

text \<open>The datagrams the loop takes in, in order, and whether it reaches \<open>Stop\<close>.\<close>

fun delivered :: "udp_event list \<Rightarrow> (bytes \<times> instant) list" where
  "delivered [] = []"
| "delivered (StopAt now # evs) = []"
| "delivered (TickAt now # evs) = delivered evs"
| "delivered (Datagram d now1 now2 # evs) = (d, now1) # delivered evs"
| "delivered (RecvFails e # evs) = []"

fun stops :: "udp_event list \<Rightarrow> bool" where
  "stops [] = False"
| "stops (StopAt now # evs) = True"
| "stops (RecvFails e # evs) = False"
| "stops (_ # evs) = stops evs"

fun ticks_before_stop :: "udp_event list \<Rightarrow> nat" where
  "ticks_before_stop (TickAt now # evs) = Suc (ticks_before_stop evs)"
| "ticks_before_stop (Datagram d now1 now2 # evs) = ticks_before_stop evs"
| "ticks_before_stop _ = 0"

text \<open>A datagram as the accumulator sees it; one shorter than the header is not seen.\<close>

definition packet_of :: "instant \<Rightarrow> nat \<Rightarrow> bytes \<times> instant \<Rightarrow> packet option" where
  "packet_of t0 buf_len = (\<lambda>(d, now).
     map_option (\<lambda>(seq, send_ns). \<lparr>pk_seq = seq, pk_send = send_ns,
         pk_recv = as_nanos_u64 (duration_since now t0), pk_len = of_nat (length (take buf_len d))\<rparr>)
       (unstamp (take buf_len d)))"

definition observed :: "instant \<Rightarrow> nat \<Rightarrow> udp_event list \<Rightarrow> packet list" where
  "observed t0 buf_len evs = List.map_filter (packet_of t0 buf_len) (delivered evs)"

text \<open>The window opens at the first datagram past the warm-up and closes at \<open>Stop\<close>.\<close>

fun window_start :: "nat \<Rightarrow> u64 \<Rightarrow> udp_event list \<Rightarrow> instant option" where
  "window_start b w (Datagram d now1 now2 # evs) =
     (case unstamp (take b d) of
        None \<Rightarrow> window_start b w evs
      | Some (seq, _) \<Rightarrow> if w \<le> seq then Some now2 else window_start b w evs)"
| "window_start b w (TickAt now # evs) = window_start b w evs"
| "window_start b w _ = None"

fun stop_time :: "udp_event list \<Rightarrow> instant" where
  "stop_time (StopAt now # evs) = now"
| "stop_time (_ # evs) = stop_time evs"
| "stop_time [] = 0"

definition secs_between :: "instant option \<Rightarrow> instant \<Rightarrow> f64" where
  "secs_between start stop =
     (case start of None \<Rightarrow> Fin 0 | Some s \<Rightarrow> as_secs_f64 (duration_since stop s))"

definition first_some :: "'a option \<Rightarrow> 'a option \<Rightarrow> 'a option" where
  "first_some x y = (case x of None \<Rightarrow> y | Some v \<Rightarrow> Some v)"

lemma first_some_simps [simp]: "first_some None y = y" "first_some (Some v) y = Some v" "first_some x None = x"
  by (simp_all add: first_some_def split: option.split)

lemma observed_simps [simp]:
  "observed t0 b [] = []" "observed t0 b (StopAt now # evs) = []"
  "observed t0 b (RecvFails e # evs) = []" "observed t0 b (TickAt now # evs) = observed t0 b evs"
  "observed t0 b (Datagram d now1 now2 # evs) =
     (case packet_of t0 b (d, now1) of None \<Rightarrow> observed t0 b evs | Some k \<Rightarrow> k # observed t0 b evs)"
  by (simp_all add: observed_def List.map_filter_simps split: option.split)

lemma udp_tick_acc:
  "udp_tick p fmt warmup t0 st now = Inr st' \<Longrightarrow> rx_acc st' = rx_acc st \<and> rx_measure_start st' = rx_measure_start st"
  by (auto simp: udp_tick_def Let_def and_then_Inr)

lemma udp_recv_acc:
  assumes "udp_recv p t0 b w st d now1 now2 = Inr st'"
  shows "case packet_of t0 b (d, now1) of None \<Rightarrow> st' = st
    | Some k \<Rightarrow> observe p (rx_acc st) (pk_seq k) (pk_send k) (pk_recv k) (pk_len k) = Some (rx_acc st')"
    and "first_some (rx_measure_start st') (window_start b w evs)
      = first_some (rx_measure_start st) (window_start b w (Datagram d now1 now2 # evs))"
  using assms by (auto simp: udp_recv_def packet_of_def Let_def and_then_Inr split: option.splits if_splits)

lemma udp_loop_measures:
  assumes "udp_loop p fmt warmup t0 b w st evs = Some (Inr (r, ls))"
  shows "\<exists>a r0. observe_all p (rx_acc st) (observed t0 b evs) = Some a
    \<and> into_result p a (secs_between (first_some (rx_measure_start st) (window_start b w evs)) (stop_time evs)) = Some r0
    \<and> r = r0\<lparr>samples := samples r\<rparr>"
  using assms
proof (induction p fmt warmup t0 b w st evs rule: udp_loop.induct)
  case (2 p fmt warmup t0 b w st now evs)
  then have "and_then (or_panic (into_result p (rx_acc st) (secs_between (rx_measure_start st) now)))
      (\<lambda>result. Inr (result\<lparr>samples := rx_samples st\<rparr>, rx_lines st)) = Inr (r, ls)"
    by (simp add: udp_finish_def Let_def secs_between_def)
  then show ?case by (auto simp: and_then_Inr)
next
  case (3 p fmt warmup t0 b w st now evs)
  then obtain st' where st': "udp_tick p fmt warmup t0 st now = Inr st'"
    "udp_loop p fmt warmup t0 b w st' evs = Some (Inr (r, ls))" by (auto split: sum.splits)
  from "3.IH" [OF st'] show ?case by (simp add: udp_tick_acc [OF st'(1)])
next
  case (4 p fmt warmup t0 b w st d now1 now2 evs)
  then obtain st' where st': "udp_recv p t0 b w st d now1 now2 = Inr st'"
    "udp_loop p fmt warmup t0 b w st' evs = Some (Inr (r, ls))" by (auto split: sum.splits)
  note A = udp_recv_acc(1) [OF st'(1)] and M = udp_recv_acc(2) [OF st'(1), of evs]
  from "4.IH" [OF st'] A show ?case unfolding M stop_time.simps
    by (auto simp del: window_start.simps split: option.splits)
qed simp_all

lemma lj_snapshot_Release: "\<exists>s. lj_snapshot Release a = Some s"
  by (auto simp: lj_snapshot_def expected_def chk_simps split: option.split)

lemma into_result_Release: "\<exists>r. into_result Release a secs = Some r"
  by (auto simp: into_result_def expected_def chk_simps Let_def split: option.split)

lemma udp_tick_Release: "\<exists>st'. udp_tick Release fmt (from_secs s) t0 st now = Inr st'"
  using lj_snapshot_Release [of "rx_acc st"] by (auto simp: udp_tick_def Let_def warmup_limit)

lemma udp_recv_Release: "\<exists>st'. udp_recv Release t0 b w st d now1 now2 = Inr st'"
proof (cases "unstamp (take b d)")
  case (Some h)
  obtain seq ns where h: "h = (seq, ns)" by (cases h)
  obtain acc where "observe Release (rx_acc st) seq ns (as_nanos_u64 (duration_since now1 t0))
      (of_nat (length (take b d))) = Some acc" using observe_Release by blast
  with Some h show ?thesis by (simp add: udp_recv_def Let_def)
qed (simp add: udp_recv_def)

lemma udp_loop_Release: "stops evs \<Longrightarrow> \<exists>y. udp_loop Release fmt (from_secs s) t0 b w st evs = Some (Inr y)"
proof (induction evs arbitrary: st)
  case (Cons ev evs)
  show ?case
  proof (cases ev)
    case (StopAt now)
    obtain r where "into_result Release (rx_acc st) (case rx_measure_start st of None \<Rightarrow> Fin 0
        | Some s \<Rightarrow> as_secs_f64 (duration_since now s)) = Some r" using into_result_Release by blast
    with StopAt show ?thesis by (simp add: udp_finish_def Let_def)
  next
    case (TickAt now)
    then show ?thesis using Cons udp_tick_Release [of fmt s t0 st now] by auto
  next
    case (Datagram d now1 now2)
    then show ?thesis using Cons udp_recv_Release [of t0 b w st d now1 now2] by auto
  qed (use Cons in simp_all)
qed simp

lemma warmup_threshold_Release: "\<exists>w. warmup_threshold Release neg = Some w"
  by (simp add: warmup_threshold_def chk_simps)

definition rx_buf_len :: "negotiate \<Rightarrow> nat" where
  "rx_buf_len neg = max (unat (packet_size neg)) 65535"

lemma zeroed_vec_ok: "unat n < 2 ^ 63 \<Longrightarrow> zeroed_vec n = Inr (replicate (unat n) 0)"
  by (simp add: zeroed_vec_def)

text \<open>The setup of \<open>serve\<close>, leaving the loop.\<close>

lemma serve_udp_loop:
  assumes "serve_udp p neg fmt t0 evs = Some (Inr y)"
  shows "\<exists>w snap. warmup_threshold p neg = Some w \<and> lj_snapshot p (lj_new w) = Some snap \<and>
     udp_loop p fmt (from_secs (warmup_secs neg)) t0 (rx_buf_len neg) w (udp_rx_init w t0 snap) evs = Some (Inr y)"
  using assms
  by (auto simp: serve_udp_def zeroed_vec_def rx_buf_len_def unat_max_word split: option.splits sum.splits if_splits)

lemma serve_udp_Release:
  assumes "stops evs" "unat (packet_size neg) < 2 ^ 63"
  shows "\<exists>y. serve_udp Release neg fmt t0 evs = Some (Inr y)"
proof -
  obtain w where w: "warmup_threshold Release neg = Some w" using warmup_threshold_Release by blast
  obtain snap where s: "lj_snapshot Release (lj_new w) = Some snap" using lj_snapshot_Release by blast
  have "unat (max (packet_size neg) 65535) < 2 ^ 63" using assms(2) by (simp add: unat_max_word)
  from zeroed_vec_ok [OF this] udp_loop_Release [OF assms(1)] w s show ?thesis by (simp add: serve_udp_def)
qed

lemma serve_udp_result:
  assumes "stops evs" and "unat (packet_size neg) < 2 ^ 63"
  shows "\<exists>w a r0 r ls. serve_udp Release neg fmt t0 evs = Some (Inr (r, ls))
     \<and> warmup_threshold Release neg = Some w
     \<and> observe_all Release (lj_new w) (observed t0 (rx_buf_len neg) evs) = Some a
     \<and> into_result Release a (secs_between (window_start (rx_buf_len neg) w evs) (stop_time evs)) = Some r0
     \<and> r = r0\<lparr>samples := samples r\<rparr>"
proof -
  obtain r ls where y: "serve_udp Release neg fmt t0 evs = Some (Inr (r, ls))"
    using serve_udp_Release [OF assms] by (metis surj_pair)
  from serve_udp_loop [OF y] obtain w snap where w: "warmup_threshold Release neg = Some w"
    "udp_loop Release fmt (from_secs (warmup_secs neg)) t0 (rx_buf_len neg) w (udp_rx_init w t0 snap) evs = Some (Inr (r, ls))"
    by blast
  from udp_loop_measures [OF w(2)] y w(1) show ?thesis by (simp add: udp_rx_init_def)
qed


text \<open>A negotiation of UDP, for examples: rate, warm-up seconds and datagram size.\<close>

abbreviation udp_negotiate :: "u64 \<Rightarrow> u64 \<Rightarrow> usize \<Rightarrow> negotiate" where
  "udp_negotiate rate warmup n \<equiv>
     \<lparr>mode = Udp, duration_secs = 1, warmup_secs = warmup, parallel = 1, buffer_bytes = 1024, bidir = False,
      bitrate_bps = Some rate, packet_bytes = Some n, file_len = None, null_source = None\<rparr>"


section \<open>The time series\<close>

definition rx_ok :: "udp_rx \<Rightarrow> bool" where
  "rx_ok st \<longleftrightarrow> sn_bytes (rx_last st) \<le> lj_bytes (rx_acc st)
     \<and> sum_list (map (\<lambda>s. unat (s_bytes s)) (rx_samples st)) = unat (sn_bytes (rx_last st))"

lemma observe_Debug_mono: "observe Debug a s t r n = Some a' \<Longrightarrow> lj_bytes a \<le> lj_bytes a'"
  by (auto simp: observe_def Let_def word_le_nat_alt dest!: uadd_Debug_unat split: if_splits Option.bind_splits)

lemma lj_snapshot_bytes: "lj_snapshot p a = Some s \<Longrightarrow> sn_bytes s = lj_bytes a"
  by (auto simp: lj_snapshot_def split: Option.bind_splits)

lemma udp_tick_ok:
  assumes "udp_tick p fmt warmup t0 st now = Inr st'" "rx_ok st"
  shows "rx_ok st'" and "length (rx_samples st') = Suc (length (rx_samples st))"
  using assms
  by (auto simp: udp_tick_def Let_def and_then_Inr rx_ok_def unat_saturating_sub word_le_nat_alt
      dest!: lj_snapshot_bytes)

lemma udp_recv_ok:
  assumes "udp_recv Debug t0 b w st d now1 now2 = Inr st'" "rx_ok st"
  shows "rx_ok st'" and "rx_samples st' = rx_samples st"
  using assms
  by (auto simp: udp_recv_def Let_def and_then_Inr rx_ok_def split: option.splits
      dest!: observe_Debug_mono)

lemma udp_loop_samples:
  assumes "udp_loop Debug fmt warmup t0 b w st evs = Some (Inr (r, ls))" "rx_ok st"
  shows "sum_list (map (\<lambda>s. unat (s_bytes s)) (samples r)) \<le> unat (r_bytes r)
    \<and> length (samples r) = length (rx_samples st) + ticks_before_stop evs"
  using assms
proof (induction "Debug" fmt warmup t0 b w st evs rule: udp_loop.induct)
  case (2 fmt warmup t0 b w st now evs)
  then show ?case
    by (auto simp: udp_finish_def Let_def and_then_Inr into_result_def rx_ok_def word_le_nat_alt
        split: Option.bind_splits)
next
  case (3 fmt warmup t0 b w st now evs)
  then obtain st' where st': "udp_tick Debug fmt warmup t0 st now = Inr st'"
    "udp_loop Debug fmt warmup t0 b w st' evs = Some (Inr (r, ls))" by (auto split: sum.splits)
  from "3.hyps" [OF st'] udp_tick_ok [OF st'(1) "3.prems"(2)] show ?case by simp
next
  case (4 fmt warmup t0 b w st d now1 now2 evs)
  then obtain st' where st': "udp_recv Debug t0 b w st d now1 now2 = Inr st'"
    "udp_loop Debug fmt warmup t0 b w st' evs = Some (Inr (r, ls))" by (auto split: sum.splits)
  from "4.hyps" [OF st'] udp_recv_ok [OF st'(1) "4.prems"(2)] show ?case by simp
qed simp_all

text \<open>Each tick takes one sample, in either build.\<close>

lemma udp_loop_sample_count:
  "udp_loop p fmt warmup t0 b w st evs = Some (Inr (r, ls)) \<Longrightarrow>
     length (samples r) = length (rx_samples st) + ticks_before_stop evs"
  by (induction p fmt warmup t0 b w st evs rule: udp_loop.induct)
     (fastforce simp: udp_finish_def udp_tick_def udp_recv_def Let_def and_then_Inr split: sum.splits option.splits)+

lemma serve_udp_sample_count:
  "serve_udp p neg fmt t0 evs = Some (Inr (r, ls)) \<Longrightarrow> length (samples r) = ticks_before_stop evs"
  using serve_udp_loop [of p neg fmt t0 evs "(r, ls)"] udp_loop_sample_count
  by (fastforce simp: udp_rx_init_def)

text \<open>
  C40. The time series of the UDP receiver has one sample per tick and never reports more
  bytes than the total: the samples' bytes add up to at most the result's (debug build, so that
  no counter wrapped).
\<close>

theorem udp_samples_within_total:
  assumes "serve_udp Debug neg fmt t0 evs = Some (Inr (r, ls))"
  shows "sum_list (map (\<lambda>s. unat (s_bytes s)) (samples r)) \<le> unat (r_bytes r)
    \<and> length (samples r) = ticks_before_stop evs"
proof -
  from serve_udp_loop [OF assms] obtain w snap where s: "lj_snapshot Debug (lj_new w) = Some snap"
    "udp_loop Debug fmt (from_secs (warmup_secs neg)) t0 (rx_buf_len neg) w (udp_rx_init w t0 snap) evs = Some (Inr (r, ls))"
    by blast
  have "rx_ok (udp_rx_init w t0 snap)"
    using s(1) by (auto simp: rx_ok_def udp_rx_init_def lj_snapshot_def lj_new_def expected_def)
  from udp_loop_samples [OF s(2) this] show ?thesis by (simp add: udp_rx_init_def)
qed

theorem udp_samples_within_total_witness:
  "\<exists>r ls. serve_udp Debug (udp_negotiate 1000000 0 1472) Mbps 0 [TickAt 1000000000, StopAt 2000000000] = Some (Inr (r, ls))
     \<and> sum_list (map (\<lambda>s. unat (s_bytes s)) (samples r)) \<le> unat (r_bytes r) \<and> length (samples r) = 1"
proof -
  have "\<exists>r ls. serve_udp Debug (udp_negotiate 1000000 0 1472) Mbps 0 [TickAt 1000000000, StopAt 2000000000] = Some (Inr (r, ls))"
    by (simp add: serve_udp_def warmup_threshold_def packet_size_def HEADER_LEN_def umul_def zeroed_vec_def
        lj_snapshot_def lj_new_def expected_def udp_tick_def udp_rx_init_def Let_def warmup_limit [of 0, simplified]
        udp_finish_def into_result_def)
  then obtain r ls where r:
    "serve_udp Debug (udp_negotiate 1000000 0 1472) Mbps 0 [TickAt 1000000000, StopAt 2000000000] = Some (Inr (r, ls))"
    by blast
  from udp_samples_within_total [OF r] r show ?thesis by auto
qed

end
