(* ===== verification/UdpClient.thy ===== *)
theory UdpClient
  imports UdpServer
begin

text \<open>
  \<open>src/src/modes/udp.rs\<close>, the sender \<open>drive\<close>: a function of its loop iterations, each with
  the clock at the loop condition, the clock and the outcome of each send, and the clock at
  the report. It returns the datagrams sent, the lines printed and how the function ended,
  and \<open>None\<close> while the loop still runs.

  The lemmas show that the pacing carry stays in \<open>[0, 1)\<close> and follows the rate asked for
  for every negotiation (\<open>pace_step\<close>, \<open>paced_bound\<close>), and that the datagrams are numbered
  consecutively.
\<close>

section \<open>The sender\<close>

text \<open>The sends of one burst: per send the clock at its stamp and the error it met, if any.\<close>

type_synonym sends = "nat \<Rightarrow> duration \<times> io_error option"

record udp_tx =
  tx_buf :: bytes
  tx_seq :: u64
  tx_carry :: f64
  tx_next_report :: duration
  tx_last_packets :: u64

fun burst :: "profile \<Rightarrow> sends \<Rightarrow> nat \<Rightarrow> nat \<Rightarrow> bytes \<Rightarrow> u64 \<Rightarrow> bytes list \<times> (bytes \<times> u64) outcome" where
  "burst p net i 0 buf seq = ([], Inr (buf, seq))"
| "burst p net i (Suc to_send) buf seq =
     (case stamp buf seq (as_nanos_u64 (fst (net i))) of
        None \<Rightarrow> ([], Inl (Panic ''range end index out of range''))
      | Some buf' \<Rightarrow>
          (case snd (net i) of
             Some e \<Rightarrow> ([], Inl (Io e))
           | None \<Rightarrow>
               (case uadd p seq 1 of
                  None \<Rightarrow> ([buf'], Inl (Panic ''arithmetic overflow''))
                | Some seq' \<Rightarrow>
                    (let (sent, r) = burst p net (Suc i) to_send buf' seq' in (buf' # sent, r)))))"

text \<open>The pacing step: the packets due now and the fraction carried forward.\<close>

definition pace :: "f64 \<Rightarrow> f64 \<Rightarrow> u64 \<times> f64" where
  "pace per_tick carry =
     (let c = fadd carry per_tick;
          to_send = f64_to_u64 (ffloor c)
      in (to_send, fsub c (u64_to_f64 to_send)))"

definition sent_readout :: "format \<Rightarrow> duration \<Rightarrow> f64 \<Rightarrow> u64 \<Rightarrow> bool \<Rightarrow> string" where
  "sent_readout fmt elapsed bps pkts warm =
     ''['' @ pad_left (CHR '' '') 5 (fixed 1 (as_secs_f64 elapsed)) @ ''s] '' @ render fmt bps
     @ '' sent | '' @ show_nat (unat pkts) @ '' pkts''
     @ (if warm then ''  (warm-up, excluded)'' else [])"

definition report ::
  "profile \<Rightarrow> format \<Rightarrow> bool \<Rightarrow> usize \<Rightarrow> duration \<Rightarrow> udp_tx \<Rightarrow> duration \<Rightarrow> (udp_tx \<times> string list) outcome" where
  "report p fmt quiet psize warmup st elapsed =
     (if quiet \<or> elapsed < tx_next_report st then Inr (st, [])
      else and_then (or_panic (usub p (tx_seq st) (tx_last_packets st))) (\<lambda>interval_packets.
        let bps = fmul (u64_to_f64 interval_packets) (fmul (u64_to_f64 psize) (Fin 8))
        in and_then (or_panic (duration_add warmup (from_millis 100))) (\<lambda>limit.
           and_then (or_panic (duration_add (tx_next_report st) (from_secs 1))) (\<lambda>next.
             Inr (st\<lparr>tx_last_packets := tx_seq st, tx_next_report := next\<rparr>,
                  [sent_readout fmt elapsed bps interval_packets (elapsed \<le> limit)])))))"

record udp_iteration =
  it_guard :: duration
  it_sends :: sends
  it_report :: duration

definition drive_step ::
  "profile \<Rightarrow> format \<Rightarrow> bool \<Rightarrow> usize \<Rightarrow> duration \<Rightarrow> f64 \<Rightarrow> udp_tx \<Rightarrow> udp_iteration
     \<Rightarrow> bytes list \<times> (udp_tx \<times> string list) outcome" where
  "drive_step p fmt quiet psize warmup per_tick st it =
     (let (to_send, carry') = pace per_tick (tx_carry st);
          (sent, r) = burst p (it_sends it) 0 (unat to_send) (tx_buf st) (tx_seq st)
      in (sent, and_then r (\<lambda>(buf', seq').
            report p fmt quiet psize warmup
              (st\<lparr>tx_buf := buf', tx_seq := seq', tx_carry := carry'\<rparr>) (it_report it))))"

fun drive_loop ::
  "profile \<Rightarrow> format \<Rightarrow> bool \<Rightarrow> usize \<Rightarrow> duration \<Rightarrow> duration \<Rightarrow> f64 \<Rightarrow> udp_tx \<Rightarrow> udp_iteration list
     \<Rightarrow> (bytes list \<times> string list \<times> unit outcome) option" where
  "drive_loop p fmt quiet psize total_dur warmup per_tick st [] = None"
| "drive_loop p fmt quiet psize total_dur warmup per_tick st (it # its) =
     (if \<not> it_guard it < total_dur then Some ([], [], Inr ())
      else
        (case drive_step p fmt quiet psize warmup per_tick st it of
           (sent, Inl e) \<Rightarrow> Some (sent, [], Inl e)
         | (sent, Inr (st', ls)) \<Rightarrow>
             map_option (\<lambda>(sent', ls', r). (sent @ sent', ls @ ls', r))
               (drive_loop p fmt quiet psize total_dur warmup per_tick st' its)))"

definition udp_tx_init :: "bytes \<Rightarrow> udp_tx" where
  "udp_tx_init buf =
     \<lparr>tx_buf = buf, tx_seq = 0, tx_carry = Fin 0, tx_next_report = from_secs 1, tx_last_packets = 0\<rparr>"

definition drive_rate :: "negotiate \<Rightarrow> f64" where
  "drive_rate neg =
     packets_per_tick (case bitrate_bps neg of None \<Rightarrow> 1000000000 | Some b \<Rightarrow> b) (packet_size neg) TICKS_PER_SEC"

text \<open>\<open>bind_r\<close> and \<open>connect_r\<close> are the outcomes of opening the socket.\<close>

definition drive_udp ::
  "profile \<Rightarrow> unit io_result \<Rightarrow> unit io_result \<Rightarrow> start \<Rightarrow> negotiate \<Rightarrow> format \<Rightarrow> bool
     \<Rightarrow> udp_iteration list \<Rightarrow> (bytes list \<times> string list \<times> unit outcome) option" where
  "drive_udp p bind_r connect_r st neg fmt quiet its =
     (case and_then (lift_io bind_r) (\<lambda>_. and_then (lift_io connect_r) (\<lambda>_.
             and_then (zeroed_vec (packet_size neg)) (\<lambda>buf.
               and_then (or_panic (uadd p (duration_secs neg) (warmup_secs neg))) (\<lambda>secs.
                 Inr (fill_random buf (server_seed st), secs))))) of
        Inl e \<Rightarrow> Some ([], [], Inl e)
      | Inr (buf, secs) \<Rightarrow>
          drive_loop p fmt quiet (packet_size neg) (from_secs secs) (from_secs (warmup_secs neg))
            (drive_rate neg) (udp_tx_init buf) its)"

section \<open>Pacing\<close>

text \<open>Every rate a negotiation can ask for is far below what the casts can hold.\<close>

lemma packet_size_ge: "16 \<le> unat (packet_size neg)"
proof -
  have "of_nat HEADER_LEN \<le> packet_size neg" by (simp add: packet_size_def)
  then show ?thesis by (simp add: word_le_nat_alt HEADER_LEN_def)
qed

lemma fdiv_shrinks:
  assumes "rep a" "0 \<le> fval a" "is_finite b" "1 \<le> fval b" "fl B = B" "fval a \<le> B" "B \<le> fmax"
  shows "rep (fdiv a b)" and "0 \<le> fval (fdiv a b)" and "fval (fdiv a b) \<le> B"
proof -
  have q: "0 \<le> fval a / fval b" "fval a / fval b \<le> fval a"
    using assms by (simp_all add: divide_le_eq mult_le_cancel_left1)
  then have "\<bar>fval a / fval b\<bar> \<le> fmax" using assms(6,7) by simp
  note D = fdiv_finite [OF rep_finite [OF assms(1)] assms(3) _ this]
  have "fval b \<noteq> 0" using assms(4) by auto
  note D = D [OF this]
  show "rep (fdiv a b)" by (rule D(2))
  show "0 \<le> fval (fdiv a b)" unfolding D(1) using q(1) by (rule fl_nonneg)
  show "fval (fdiv a b) \<le> B" unfolding D(1) using q(2) assms(5,6) by (intro fl.rnd_upper) simp_all
qed

lemma packets_per_tick_bounds:
  assumes "16 \<le> unat ps"
  shows "rep (packets_per_tick b ps TICKS_PER_SEC)" and "0 \<le> fval (packets_per_tick b ps TICKS_PER_SEC)"
    and "fval (packets_per_tick b ps TICKS_PER_SEC) \<le> 2 ^ 57"
proof -
  let ?m = "fmul (u64_to_f64 ps) (Fin 8)"
  have "(16::u64) \<le> ps" using assms by (simp add: word_le_nat_alt)
  then have "fval (u64_to_f64 16) \<le> fval (u64_to_f64 ps)" by (rule u64_to_f64_mono)
  moreover have "fval (u64_to_f64 16) = 16" by (subst u64_to_f64_exact) simp_all
  ultimately have ps: "16 \<le> fval (u64_to_f64 ps)" by simp
  have "fval (u64_to_f64 ps) * 8 \<le> 2 ^ 67" using u64_to_f64_bounds(2) [of ps] by simp
  then have "\<bar>fval (u64_to_f64 ps) * 8\<bar> \<le> fmax" using ps power_le_fmax [of 67] by simp
  note M = fmul_finite [OF u64_to_f64(3) _, of "Fin 8" ps, simplified, OF this]
  have m: "128 \<le> fval ?m"
  proof -
    have "fl (2 ^ 7) \<le> fl (fval (u64_to_f64 ps) * 8)" using ps by (intro fl_mono) simp
    then show ?thesis using M(1) fl_2_power [of 7] by simp
  qed
  let ?q = "fdiv (u64_to_f64 b) ?m"
  have q0: "0 \<le> fval (u64_to_f64 b) / fval ?m" "fval (u64_to_f64 b) / fval ?m \<le> 2 ^ 57"
  proof -
    show "0 \<le> fval (u64_to_f64 b) / fval ?m" using m u64_to_f64_bounds(1) [of b] by simp
    have "fval (u64_to_f64 b) \<le> 2 ^ 57 * fval ?m" using u64_to_f64_bounds(2) [of b] m by simp
    then show "fval (u64_to_f64 b) / fval ?m \<le> 2 ^ 57" using m by (simp add: divide_le_eq)
  qed
  then have "\<bar>fval (u64_to_f64 b) / fval ?m\<bar> \<le> fmax" using power_le_fmax [of 57] by simp
  note Q = fdiv_finite [OF u64_to_f64(3) rep_finite [OF M(2)] _ this]
  have "fval ?m \<noteq> 0" using m by auto
  note Q = Q [OF this]
  have q: "0 \<le> fval ?q" "fval ?q \<le> 2 ^ 57"
    unfolding Q(1) using q0 fl.rnd_upper [OF fl_2_power] by (simp_all only: fl_nonneg)
  have t: "is_finite (u64_to_f64 TICKS_PER_SEC)" "1 \<le> fval (u64_to_f64 TICKS_PER_SEC)"
    by (simp_all add: u64_to_f64(3) fval_u64_to_f64_pos TICKS_PER_SEC_def)
  note D = fdiv_shrinks [OF Q(2) q(1) t fl_2_power q(2) power_le_fmax]
  show "rep (packets_per_tick b ps TICKS_PER_SEC)" "0 \<le> fval (packets_per_tick b ps TICKS_PER_SEC)"
    "fval (packets_per_tick b ps TICKS_PER_SEC) \<le> 2 ^ 57"
    using D by (simp_all add: packets_per_tick_def Let_def)
qed

text \<open>A rate and a carry the sender can be in.\<close>

definition rate_ok :: "f64 \<Rightarrow> bool" where
  "rate_ok r \<longleftrightarrow> rep r \<and> 0 \<le> fval r \<and> fval r \<le> 2 ^ 57"

definition carry_ok :: "f64 \<Rightarrow> bool" where
  "carry_ok c \<longleftrightarrow> rep c \<and> 0 \<le> fval c \<and> fval c < 1"

lemma drive_rate_ok: "rate_ok (drive_rate neg)"
  unfolding rate_ok_def drive_rate_def using packets_per_tick_bounds packet_size_ge by blast

lemma nonneg_repr: "rep c \<Longrightarrow> 0 \<le> fval c \<Longrightarrow> fval c = 0 \<or> c = Fin (fval c)"
  by (cases c) (auto simp: rep_def)

text \<open>
  One step splits the rounded sum exactly: the packets due and the carry add up to it, and
  the carry is again below one.
\<close>

lemma pace_step:
  assumes "rate_ok r" "carry_ok c" "pace r c = (n, c')"
  shows "carry_ok c'" and "of_nat (unat n) + fval c' = fl (fval c + fval r)"
proof -
  let ?s = "fl (fval c + fval r)" and ?a = "fadd c r"
  have s0: "0 \<le> fval c + fval r" "fval c + fval r \<le> 2 ^ 58"
    using assms(1,2) by (simp_all add: rate_ok_def carry_ok_def)
  then have "\<bar>fval c + fval r\<bar> \<le> fmax" using power_le_fmax [of 58] by simp
  note A = fadd_finite [OF rep_finite rep_finite this]
  have a: "fval ?a = ?s" "rep ?a" using A assms(1,2) by (simp_all add: rate_ok_def carry_ok_def)
  have s: "0 \<le> ?s" "?s \<le> 2 ^ 58" using s0 fl.rnd_upper [OF fl_2_power] by (simp_all only: fl_nonneg)
  have n: "of_nat (unat n) = (of_int \<lfloor>?s\<rfloor> :: rat)" "unat n \<le> 2 ^ 58"
  proof -
    have fl0: "0 \<le> \<lfloor>?s\<rfloor>" "\<lfloor>?s\<rfloor> \<le> 2 ^ 58"
      using s by (simp, metis floor_mono floor_of_int of_int_numeral of_int_power)
    have le: "nat \<lfloor>?s\<rfloor> \<le> 2 ^ 58" using nat_mono [OF fl0(2)] by simp
    then have lt: "nat \<lfloor>?s\<rfloor> < 2 ^ 64" by (rule le_less_trans) simp
    have nn: "n = f64_to_u64 (ffloor ?a)" using assms(3) by (simp add: pace_def Let_def)
    have eq: "n = of_nat (nat \<lfloor>?s\<rfloor>)"
    proof (cases "?s = 0")
      case True
      then have "f64_to_u64 (ffloor ?a) = 0"
        using a f64_limit_pos by (cases ?a) (auto simp: rep_def round64_def Let_def signed_zero_def)
      with True nn show ?thesis by simp
    next
      case False
      then have "?a = Fin ?s" using nonneg_repr [OF a(2)] a(1) s(1) by simp
      moreover have "fl (of_int \<lfloor>?s\<rfloor>) = of_int \<lfloor>?s\<rfloor>" by (rule fl_floor) simp
      moreover have "(of_int \<lfloor>?s\<rfloor> :: rat) \<le> of_int (2 ^ 58)" using fl0(2) by (simp only: of_int_le_iff)
      then have "of_int \<lfloor>?s\<rfloor> \<le> fmax" by (rule order_trans) (use power_le_fmax [of 58] in simp)
      moreover have "0 \<le> (of_int \<lfloor>?s\<rfloor> :: rat)" using fl0(1) by (simp only: of_int_0_le_iff)
      ultimately have "ffloor ?a = Fin (of_int \<lfloor>?s\<rfloor>)" using round64_nonneg by simp
      moreover have "(of_int \<lfloor>?s\<rfloor> :: rat) = of_nat (nat \<lfloor>?s\<rfloor>)" using fl0(1) by simp
      ultimately show ?thesis using nn f64_to_u64_nat [OF lt] by simp
    qed
    have "unat n = nat \<lfloor>?s\<rfloor>" unfolding eq using lt by (simp only: unat_of_nat) (simp del: nat_less_iff)
    then show "of_nat (unat n) = (of_int \<lfloor>?s\<rfloor> :: rat)" "unat n \<le> 2 ^ 58" using fl0(1) le by simp_all
  qed
  have u: "fval (u64_to_f64 n) = of_int \<lfloor>?s\<rfloor>"
    using n(1) fl_floor [of ?s] by (simp add: u64_to_f64)
  have frac: "0 \<le> ?s - of_int \<lfloor>?s\<rfloor>" "?s - of_int \<lfloor>?s\<rfloor> < 1" by linarith+
  then have "\<bar>fval ?a - fval (u64_to_f64 n)\<bar> \<le> fmax" using power_le_fmax [of 0] by (simp add: a(1) u)
  note S = fsub_finite [OF rep_finite [OF a(2)] u64_to_f64(3) this]
  have c': "c' = fsub ?a (u64_to_f64 n)" using assms(3) by (auto simp: pace_def Let_def)
  have v: "fval c' = ?s - of_int \<lfloor>?s\<rfloor>"
    unfolding c' S(1) a(1) u using fl_frac [of ?s] s(1) by simp
  have "rep c'" unfolding c' by (rule S(2))
  then show "carry_ok c'" unfolding carry_ok_def v using frac by (intro conjI)
  show "of_nat (unat n) + fval c' = ?s" by (simp only: v n(1))
qed

text \<open>The packets due over a number of ticks, and the carry left.\<close>

fun paced :: "f64 \<Rightarrow> nat \<Rightarrow> f64 \<Rightarrow> nat \<times> f64" where
  "paced r 0 c = (0, c)"
| "paced r (Suc k) c =
     (let (n, c') = pace r c; (m, c'') = paced r k c' in (unat n + m, c''))"

definition pace_err :: "f64 \<Rightarrow> rat" where
  "pace_err r = (fval r + 1) / 2 ^ 53 + 2 powi (- 1074) / 2"

lemma paced_bound:
  assumes "rate_ok r" "carry_ok c" "paced r k c = (n, c')"
  shows "carry_ok c'" and "\<bar>of_nat n + fval c' - fval c - of_nat k * fval r\<bar> \<le> of_nat k * pace_err r"
proof -
  have "carry_ok c' \<and> \<bar>of_nat n + fval c' - fval c - of_nat k * fval r\<bar> \<le> of_nat k * pace_err r"
    using assms
  proof (induction k arbitrary: c n)
    case 0
    then show ?case by simp
  next
    case (Suc k)
    obtain n1 c1 where p: "pace r c = (n1, c1)" by fastforce
    obtain m where m: "paced r k c1 = (m, c')" "n = unat n1 + m"
      using Suc.prems(3) p by (auto split: prod.splits)
    note S = pace_step [OF Suc.prems(1,2) p]
    have IH: "carry_ok c'" "\<bar>of_nat m + fval c' - fval c1 - of_nat k * fval r\<bar> \<le> of_nat k * pace_err r"
      using Suc.IH [OF Suc.prems(1) S(1) m(1)] by simp_all
    have "\<bar>fval c + fval r\<bar> \<le> fval r + 1" using Suc.prems(1,2) by (simp add: rate_ok_def carry_ok_def)
    then have "\<bar>fval c + fval r\<bar> / 2 ^ 53 \<le> (fval r + 1) / 2 ^ 53" by (rule divide_right_mono) simp
    then have e: "\<bar>fl (fval c + fval r) - (fval c + fval r)\<bar> \<le> pace_err r"
      using fl_error [of "fval c + fval r"] unfolding pace_err_def by linarith
    have n: "(of_nat n :: rat) = of_nat (unat n1) + of_nat m" by (simp only: m(2) of_nat_add)
    have k: "of_nat (Suc k) * x = of_nat k * x + x" for x :: rat by (simp add: distrib_right)
    show ?case unfolding k n using IH e S(2) by (auto simp: abs_le_iff)
  qed
  then show "carry_ok c'" "\<bar>of_nat n + fval c' - fval c - of_nat k * fval r\<bar> \<le> of_nat k * pace_err r" by simp_all
qed

section \<open>What the sender sends\<close>

definition header_seqs :: "bytes list \<Rightarrow> u64 option list" where
  "header_seqs ds = map (\<lambda>d. map_option fst (unstamp d)) ds"

text \<open>Datagrams that carry consecutive numbers and the padding of the buffer.\<close>

definition numbered_from :: "u64 \<Rightarrow> bytes \<Rightarrow> bytes list \<Rightarrow> bool" where
  "numbered_from seq buf ds \<longleftrightarrow>
     header_seqs ds = map (\<lambda>j. Some (seq + of_nat j)) [0..<length ds]
     \<and> (\<forall>d\<in>set ds. length d = length buf \<and> drop HEADER_LEN d = drop HEADER_LEN buf)"

lemma upt_0_Suc: "[0..<Suc n] = 0 # map Suc [0..<n]"
  by (simp add: upt_conv_Cons map_Suc_upt del: upt_Suc)

lemma numbered_from_Nil [simp]: "numbered_from seq buf []"
  by (simp add: numbered_from_def header_seqs_def)

lemma numbered_from_Cons:
  "numbered_from seq buf (d # ds) \<longleftrightarrow> map_option fst (unstamp d) = Some seq \<and> length d = length buf
     \<and> drop HEADER_LEN d = drop HEADER_LEN buf \<and> numbered_from (seq + 1) buf ds"
  by (auto simp: numbered_from_def header_seqs_def upt_0_Suc ac_simps simp del: upt_Suc)

lemma numbered_from_append:
  "numbered_from seq buf (xs @ ys) \<longleftrightarrow> numbered_from seq buf xs \<and> numbered_from (seq + of_nat (length xs)) buf ys"
  by (induction xs arbitrary: seq) (auto simp: numbered_from_Cons ac_simps)

lemma numbered_from_cong:
  "length buf' = length buf \<Longrightarrow> drop HEADER_LEN buf' = drop HEADER_LEN buf \<Longrightarrow>
     numbered_from seq buf' ds = numbered_from seq buf ds"
  by (simp add: numbered_from_def)

lemma stamp_props:
  "stamp buf seq t = Some buf' \<Longrightarrow> length buf' = length buf \<and> drop HEADER_LEN buf' = drop HEADER_LEN buf
     \<and> unstamp buf' = Some (seq, t)"
  by (auto simp: stamp_def unstamp_def HEADER_LEN_def split: if_splits)

lemma burst_sends:
  assumes "burst p net i n buf seq = (sent, Inr (buf', seq'))"
  shows "length sent = n \<and> seq' = seq + of_nat n \<and> length buf' = length buf
    \<and> drop HEADER_LEN buf' = drop HEADER_LEN buf \<and> numbered_from seq buf sent"
  using assms
proof (induction n arbitrary: i buf seq sent)
  case (Suc n)
  obtain b1 sent1 where b1: "stamp buf seq (as_nanos_u64 (fst (net i))) = Some b1"
    and r: "burst p net (Suc i) n b1 (seq + 1) = (sent1, Inr (buf', seq'))" and s: "sent = b1 # sent1"
    using Suc.prems by (auto split: option.splits prod.splits dest: uadd_SomeD)
  note S = stamp_props [OF b1]
  from Suc.IH [OF r] show ?case
    using S numbered_from_cong [of b1 buf "seq + 1" sent1] by (simp add: s numbered_from_Cons)
qed simp

lemma report_keeps:
  "report p fmt quiet psize warmup st e = Inr (st', ls) \<Longrightarrow>
     tx_buf st' = tx_buf st \<and> tx_seq st' = tx_seq st \<and> tx_carry st' = tx_carry st"
  by (auto simp: report_def Let_def and_then_Inr split: if_splits)

lemma drive_step_sends:
  assumes "drive_step p fmt quiet psize warmup r st it = (sent, Inr (st', ls))"
  shows "\<exists>n c. pace r (tx_carry st) = (n, c) \<and> length sent = unat n \<and> tx_carry st' = c
    \<and> tx_seq st' = tx_seq st + n \<and> length (tx_buf st') = length (tx_buf st)
    \<and> drop HEADER_LEN (tx_buf st') = drop HEADER_LEN (tx_buf st) \<and> numbered_from (tx_seq st) (tx_buf st) sent"
proof -
  obtain n c where p: "pace r (tx_carry st) = (n, c)" by fastforce
  obtain buf' seq' where b: "burst p (it_sends it) 0 (unat n) (tx_buf st) (tx_seq st) = (sent, Inr (buf', seq'))"
    and rep: "report p fmt quiet psize warmup (st\<lparr>tx_buf := buf', tx_seq := seq', tx_carry := c\<rparr>) (it_report it) = Inr (st', ls)"
    using assms p by (auto simp: drive_step_def and_then_Inr split: prod.splits)
  from burst_sends [OF b] report_keeps [OF rep] p show ?thesis by simp
qed

definition iterations :: "duration \<Rightarrow> udp_iteration list \<Rightarrow> nat" where
  "iterations total_dur its = length (takeWhile (\<lambda>it. it_guard it < total_dur) its)"

lemma drive_loop_sends:
  assumes "drive_loop p fmt quiet psize total_dur warmup r st its = Some (sent, ls, Inr ())"
  shows "(\<exists>c. paced r (iterations total_dur its) (tx_carry st) = (length sent, c))
    \<and> numbered_from (tx_seq st) (tx_buf st) sent"
  using assms
proof (induction its arbitrary: st sent ls)
  case Nil
  then show ?case by simp
next
  case (Cons it its)
  show ?case
  proof (cases "it_guard it < total_dur")
    case False
    with Cons.prems show ?thesis by (simp add: iterations_def)
  next
    case True
    obtain s1 st1 l1 s2 l2 where d: "drive_step p fmt quiet psize warmup r st it = (s1, Inr (st1, l1))"
      and l: "drive_loop p fmt quiet psize total_dur warmup r st1 its = Some (s2, l2, Inr ())" and s: "sent = s1 @ s2"
      using Cons.prems True by (auto split: prod.splits sum.splits)
    obtain n c where D: "pace r (tx_carry st) = (n, c)" "length s1 = unat n" "tx_carry st1 = c"
      "tx_seq st1 = tx_seq st + n" "length (tx_buf st1) = length (tx_buf st)"
      "drop HEADER_LEN (tx_buf st1) = drop HEADER_LEN (tx_buf st)" "numbered_from (tx_seq st) (tx_buf st) s1"
      using drive_step_sends [OF d] by blast
    obtain c2 where c2: "paced r (iterations total_dur its) c = (length s2, c2)"
      using Cons.IH [OF l] D(3) by auto
    have n2: "numbered_from (tx_seq st1) (tx_buf st1) s2" using Cons.IH [OF l] by simp
    have k: "iterations total_dur (it # its) = Suc (iterations total_dur its)" using True by (simp add: iterations_def)
    have "paced r (iterations total_dur (it # its)) (tx_carry st) = (length sent, c2)"
      using D(1,2) c2 by (simp add: k s)
    moreover have "numbered_from (tx_seq st) (tx_buf st) sent"
      using D(2,4,7) n2 numbered_from_cong [OF D(5,6)] by (simp add: s numbered_from_append)
    ultimately show ?thesis by blast
  qed
qed

text \<open>The setup of \<open>drive\<close>, leaving the loop.\<close>

lemma length_fill_random_zeroed: "length (fill_random (replicate n 0) s) = n"
  by (simp add: length_fill_random)

definition send_window :: "profile \<Rightarrow> negotiate \<Rightarrow> duration" where
  "send_window p neg =
     (case uadd p (duration_secs neg) (warmup_secs neg) of None \<Rightarrow> 0 | Some s \<Rightarrow> from_secs s)"

definition send_buffer :: "start \<Rightarrow> negotiate \<Rightarrow> bytes" where
  "send_buffer st neg = fill_random (replicate (unat (packet_size neg)) 0) (server_seed st)"

lemma drive_udp_loop:
  assumes "drive_udp p bind_r connect_r st neg fmt quiet its = Some (sent, ls, Inr ())"
  shows "drive_loop p fmt quiet (packet_size neg) (send_window p neg) (from_secs (warmup_secs neg))
      (drive_rate neg) (udp_tx_init (send_buffer st neg)) its = Some (sent, ls, Inr ())"
  using assms
  by (auto simp: drive_udp_def send_window_def send_buffer_def and_then_Inr zeroed_vec_def
      split: sum.splits if_splits)

section \<open>Completion of the sender\<close>

definition quiet_net :: "udp_iteration \<Rightarrow> bool" where
  "quiet_net it \<longleftrightarrow> (\<forall>i. snd (it_sends it i) = None) \<and> it_report it div 1000000000 < 2 ^ 63"

lemma burst_Release:
  "\<forall>i. snd (net i) = None \<Longrightarrow> 16 \<le> length buf \<Longrightarrow> \<exists>sent y. burst Release net i n buf seq = (sent, Inr y)"
proof (induction n arbitrary: i buf seq)
  case (Suc n)
  obtain b where b: "stamp buf seq (as_nanos_u64 (fst (net i))) = Some b" using Suc.prems by (simp add: stamp_def)
  have "16 \<le> length b" using stamp_props [OF b] Suc.prems by simp
  from Suc.IH [OF Suc.prems(1) this] b Suc.prems(1) show ?case
    by (auto simp: chk_simps split: prod.split) (metis old.prod.inject)
qed simp

lemma report_Release:
  assumes "e div 1000000000 < 2 ^ 63"
  shows "\<exists>y. report Release fmt quiet psize (from_secs w) st e = Inr y"
proof -
  have "duration_add (tx_next_report st) (from_secs 1) = Some (tx_next_report st + from_secs 1)"
    if "tx_next_report st \<le> e"
  proof -
    have "(tx_next_report st + from_secs 1) div 1000000000 \<le> e div 1000000000 + 1"
      using that by (simp add: from_secs_def div_le_mono)
    then show ?thesis using assms by (simp add: duration_add_def)
  qed
  then show ?thesis by (simp add: report_def chk_simps warmup_limit Let_def)
qed

lemma drive_step_Release:
  assumes "quiet_net it" "16 \<le> length (tx_buf st)"
  shows "\<exists>sent st' ls. drive_step Release fmt quiet psize (from_secs w) r st it = (sent, Inr (st', ls))"
proof -
  obtain n c where p: "pace r (tx_carry st) = (n, c)" by fastforce
  obtain sent buf seq where b: "burst Release (it_sends it) 0 (unat n) (tx_buf st) (tx_seq st) = (sent, Inr (buf, seq))"
    using burst_Release [of "it_sends it" "tx_buf st" 0 "unat n" "tx_seq st"] assms by (auto simp: quiet_net_def)
  obtain y where "report Release fmt quiet psize (from_secs w) (st\<lparr>tx_buf := buf, tx_seq := seq, tx_carry := c\<rparr>) (it_report it) = Inr y"
    using report_Release assms(1) unfolding quiet_net_def by blast
  with p b show ?thesis by (cases y) (simp add: drive_step_def)
qed

lemma drive_loop_Release:
  assumes "\<forall>it\<in>set its. quiet_net it" "16 \<le> length (tx_buf st)" "\<exists>it\<in>set its. total_dur \<le> it_guard it"
  shows "\<exists>sent ls. drive_loop Release fmt quiet psize total_dur (from_secs w) r st its = Some (sent, ls, Inr ())"
  using assms
proof (induction its arbitrary: st)
  case (Cons it its)
  show ?case
  proof (cases "it_guard it < total_dur")
    case True
    obtain sent st' ls where d: "drive_step Release fmt quiet psize (from_secs w) r st it = (sent, Inr (st', ls))"
      using drive_step_Release Cons.prems by force
    then have "16 \<le> length (tx_buf st')" using drive_step_sends [OF d] Cons.prems(2) by auto
    moreover have "\<exists>it\<in>set its. total_dur \<le> it_guard it" using Cons.prems(3) True by auto
    moreover have "\<forall>it\<in>set its. quiet_net it" using Cons.prems(1) by simp
    ultimately obtain sent2 ls2 where
      "drive_loop Release fmt quiet psize total_dur (from_secs w) r st' its = Some (sent2, ls2, Inr ())"
      using Cons.IH by blast
    with d True show ?thesis by simp
  qed simp
qed simp

text \<open>
  The UDP sender comes to an end: with the socket open and every send accepted, it returns
  successfully as soon as the clock passes warm-up plus duration (release build).
\<close>

lemma drive_udp_completes:
  assumes "\<forall>it\<in>set its. quiet_net it" and "unat (packet_size neg) < 2 ^ 63"
    and "\<exists>it\<in>set its. send_window Release neg \<le> it_guard it"
  shows "\<exists>sent ls. drive_udp Release (Inr ()) (Inr ()) st neg fmt quiet its = Some (sent, ls, Inr ())"
proof -
  have len: "16 \<le> length (tx_buf (udp_tx_init (send_buffer st neg)))"
    using packet_size_ge [of neg] by (simp add: udp_tx_init_def send_buffer_def)
  have u: "uadd Release (duration_secs neg) (warmup_secs neg) = Some (duration_secs neg + warmup_secs neg)"
    by (simp add: chk_simps)
  obtain sent ls where "drive_loop Release fmt quiet (packet_size neg) (send_window Release neg)
      (from_secs (warmup_secs neg)) (drive_rate neg) (udp_tx_init (send_buffer st neg)) its = Some (sent, ls, Inr ())"
    using drive_loop_Release [OF assms(1) len assms(3)] by blast
  then show ?thesis
    using assms(2) by (simp add: drive_udp_def zeroed_vec_ok u send_window_def send_buffer_def)
qed

text \<open>A run of two iterations, for examples.\<close>

abbreviation two_iterations :: "udp_iteration list" where
  "two_iterations \<equiv>
     [\<lparr>it_guard = 0, it_sends = (\<lambda>i. (7, None)), it_report = 9\<rparr>,
      \<lparr>it_guard = 1000000000, it_sends = (\<lambda>i. (8, None)), it_report = 0\<rparr>]"

lemma two_iterations_end:
  "\<exists>sent ls. drive_udp Release (Inr ()) (Inr ()) \<lparr>data_port = 1, server_seed = 2\<rparr> (udp_negotiate 1000000000 0 1472)
      Mbps True two_iterations = Some (sent, ls, Inr ())"
  by (rule drive_udp_completes)
     (simp_all add: quiet_net_def packet_size_def HEADER_LEN_def send_window_def chk_simps from_secs_def)

text \<open>
  C16. Pacing follows the rate asked for. For every bitrate and datagram size a negotiation can
  hold, after any number k of ticks the datagrams sent differ from k times the packets per tick by
  less than one plus the accumulated rounding of k additions: the floating-point carry neither
  drifts nor saturates.
\<close>

theorem drive_udp_paces:
  assumes "drive_udp p bind_r connect_r st neg fmt quiet its = Some (sent, ls, Inr ())"
  shows "\<bar>of_nat (length sent) - of_nat (iterations (send_window p neg) its) * fval (drive_rate neg)\<bar>
    < 1 + of_nat (iterations (send_window p neg) its) * pace_err (drive_rate neg)"
proof -
  let ?k = "iterations (send_window p neg) its"
  obtain c where c: "paced (drive_rate neg) ?k (Fin 0) = (length sent, c)"
    using drive_loop_sends [OF drive_udp_loop [OF assms]] by (auto simp: udp_tx_init_def)
  have "carry_ok (Fin 0)" by (simp add: carry_ok_def)
  note B = paced_bound [OF drive_rate_ok this c]
  then show ?thesis by (auto simp: carry_ok_def abs_le_iff abs_less_iff)
qed

theorem drive_udp_paces_witness:
  "\<exists>sent ls. drive_udp Release (Inr ()) (Inr ()) \<lparr>data_port = 1, server_seed = 2\<rparr> (udp_negotiate 1000000000 0 1472)
      Mbps True two_iterations = Some (sent, ls, Inr ())
     \<and> \<bar>of_nat (length sent) - fval (drive_rate (udp_negotiate 1000000000 0 1472))\<bar>
         < 1 + pace_err (drive_rate (udp_negotiate 1000000000 0 1472))"
proof -
  obtain sent ls where d: "drive_udp Release (Inr ()) (Inr ()) \<lparr>data_port = 1, server_seed = 2\<rparr>
      (udp_negotiate 1000000000 0 1472) Mbps True two_iterations = Some (sent, ls, Inr ())"
    using two_iterations_end by blast
  have "iterations (send_window Release (udp_negotiate 1000000000 0 1472)) two_iterations = 1"
    by (simp add: iterations_def send_window_def chk_simps from_secs_def)
  with drive_udp_paces [OF d] d show ?thesis by auto
qed

text \<open>
  C35. The datagrams carry consecutive sequence numbers from 0, each of the negotiated size, and
  all the same pseudo-random padding behind the header.
\<close>

theorem drive_udp_numbers:
  assumes "drive_udp p bind_r connect_r st neg fmt quiet its = Some (sent, ls, Inr ())"
  shows "header_seqs sent = map (\<lambda>j. Some (of_nat j)) [0..<length sent]
    \<and> (\<forall>d\<in>set sent. length d = unat (packet_size neg) \<and> drop HEADER_LEN d = drop HEADER_LEN (send_buffer st neg))"
  using drive_loop_sends [OF drive_udp_loop [OF assms]]
  by (auto simp: numbered_from_def udp_tx_init_def send_buffer_def length_fill_random_zeroed)

theorem drive_udp_numbers_witness:
  "\<exists>sent ls. drive_udp Release (Inr ()) (Inr ()) \<lparr>data_port = 1, server_seed = 2\<rparr> (udp_negotiate 1000000000 0 1472)
      Mbps True two_iterations = Some (sent, ls, Inr ())
     \<and> header_seqs sent = map (\<lambda>j. Some (of_nat j)) [0..<length sent]"
  using two_iterations_end drive_udp_numbers by blast

end
