(* ===== verification/Udp.thy ===== *)
theory Udp
  imports UdpClient
begin

text \<open>
  The two ends of \<open>src/src/modes/udp.rs\<close> together: what the receiver of \<open>UdpServer\<close> reports
  about the datagrams the sender of \<open>UdpClient\<close> sent.
\<close>

section \<open>Loss across the network\<close>

lemma observed_numbers:
  assumes "map_option fst (unstamp d) = Some s" "length d \<le> b"
  shows "\<exists>k. packet_of t0 b (d, now) = Some k \<and> pk_seq k = s"
  using assms by (auto simp: packet_of_def)

lemma observed_seqs:
  assumes "\<forall>d\<in>set (map fst (delivered evs)). length d \<le> b \<and> unstamp d \<noteq> None"
  shows "map (\<lambda>k. Some (pk_seq k)) (observed t0 b evs) = header_seqs (map fst (delivered evs))"
  using assms
proof (induction evs)
  case (Cons ev evs)
  show ?case
  proof (cases ev)
    case (Datagram d now1 now2)
    then obtain s where s: "map_option fst (unstamp d) = Some s" "length d \<le> b" using Cons.prems by auto
    from observed_numbers [OF s] obtain k where "packet_of t0 b (d, now1) = Some k" "pk_seq k = s" by blast
    with Cons Datagram s(1) show ?thesis by (simp only: header_seqs_def observed_simps) (simp add: s(1) del: map_option_eq_Some)
  qed (use Cons in \<open>simp_all add: header_seqs_def\<close>)
qed (simp add: header_seqs_def)

lemma distinct_submset:
  assumes "mset xs \<subseteq># mset ys" "distinct ys"
  shows "distinct xs"
  unfolding distinct_count_atmost_1
proof
  fix a
  have "count (mset xs) a \<le> 1"
    using order_trans [OF mset_subset_eq_count [OF assms(1), of a], of 1] assms(2)
    unfolding distinct_count_atmost_1 by simp
  then show "count (mset xs) a = (if a \<in> set xs then 1 else 0)"
    using count_greater_zero_iff [of "mset xs" a] by (cases "count (mset xs) a") auto
qed

lemma lost_le_dropped:
  assumes "set (map pk_seq ks) \<subseteq> S" "distinct (map pk_seq ks)" "finite S"
    and "S = of_nat ` {0..<n}" "n < 2 ^ 64" "card S = n" "in_window w ks \<noteq> []"
  shows "\<not> full_range (in_window w ks)" and "card (missing (in_window w ks)) \<le> n - length ks"
    and "duplicates (in_window w ks) = 0"
proof -
  let ?W = "in_window w ks"
  have bnd: "unat s < n" if sS: "s \<in> S" for s
  proof -
    obtain i where "i \<in> {0..<n}" "s = of_nat i" using sS unfolding assms(4) by (rule imageE)
    then show ?thesis using assms(5) by (simp add: unat_of_nat)
  qed
  have sub: "seqs ?W \<subseteq> S" using assms(1) by (auto simp: seqs_def in_window_def)
  have MW: "Max (seqs ?W) \<in> seqs ?W" "Min (seqs ?W) \<in> seqs ?W" using assms(7) by simp_all
  then have mx: "unat (Max (seqs ?W)) < n" using bnd sub by blast
  show "\<not> full_range ?W"
  proof
    assume "full_range ?W"
    then have "unat (Max (seqs ?W)) = 2 ^ 64 - 1"
      by (simp add: full_range_def unsigned_minus_1_eq_mask mask_eq_exp_minus_1)
    with mx assms(5) show False by simp
  qed
  have "distinct (map pk_seq ?W)" using assms(2) by (simp add: in_window_def distinct_map_filter)
  then show "duplicates ?W = 0" unfolding duplicates_def seqs_def by (metis diff_self_eq_0 distinct_card length_map)
  have "missing ?W \<subseteq> S - set (map pk_seq ks)"
  proof
    fix s assume s: "s \<in> missing ?W"
    then have le: "Min (seqs ?W) \<le> s" "s \<le> Max (seqs ?W)" and ns: "s \<notin> seqs ?W" by (auto simp: missing_def)
    have "unat s < n" using le(2) mx by (simp add: word_le_nat_alt)
    then have "s \<in> S" unfolding assms(4) by (intro image_eqI [of _ _ "unat s"]) simp_all
    moreover have "\<not> Min (seqs ?W) < w" using MW(2) by (auto simp: seqs_def in_window_def)
    then have "\<not> s < w" using le(1) by simp
    then have "s \<notin> set (map pk_seq ks)" using ns by (auto simp: seqs_def in_window_def)
    ultimately show "s \<in> S - set (map pk_seq ks)" by blast
  qed
  then have "card (missing ?W) \<le> card (S - set (map pk_seq ks))" using assms(3) by (intro card_mono) simp_all
  also have "\<dots> = n - length ks"
    using card_Diff_subset [OF finite_set assms(1)] assms(6) distinct_card [OF assms(2)] by (simp only: length_map)
  finally show "card (missing ?W) \<le> n - length ks" .
qed

lemma into_result_lost:
  assumes "observe_all Release (lj_new w) ks = Some a" "into_result Release a secs = Some r"
    and "in_window w ks \<noteq> [] \<Longrightarrow> \<not> full_range (in_window w ks) \<and> card (missing (in_window w ks)) \<le> m
           \<and> duplicates (in_window w ks) = 0"
    and "length ks < 2 ^ 64"
  shows "\<exists>l. packets_lost r = Some l \<and> unat l \<le> m"
proof (cases "in_window w ks = []")
  case True
  then have "min_seq a = None" using observe_all_stats [OF assms(1)] by (simp add: lj_stats_def)
  then have e: "expected Release a = Some 0" by (simp add: expected_def)
  from into_result_fields [OF e, of secs] assms(2) show ?thesis by (auto simp: unat_saturating_sub)
next
  case False
  note st = observe_all_stats [OF assms(1)]
  note A = assms(3) [OF False]
  obtain e where e: "expected Release a = Some e" "unat e = card (missing (in_window w ks)) + card (seqs (in_window w ks))"
    using expected_value [OF st False] A missing_count by metis
  have "length (in_window w ks) < 2 ^ 64"
    using assms(4) length_filter_le [of "\<lambda>k. \<not> pk_seq k < w" ks] unfolding in_window_def by linarith
  then have "unat (received a) = length (in_window w ks)" using st by (simp add: lj_stats_def unat_of_nat)
  moreover have "length (in_window w ks) = card (seqs (in_window w ks))"
    using A card_length [of "map pk_seq (in_window w ks)"] unfolding duplicates_def seqs_def by simp
  ultimately have "unat (saturating_sub e (received a)) \<le> m" using A e(2) by (simp add: unat_saturating_sub)
  with into_result_fields [OF e(1), of secs] assms(2) show ?thesis by auto
qed

text \<open>What is sent, and what of it arrives.\<close>

lemma sent_datagrams:
  assumes "drive_udp p bind_r connect_r st neg fmt quiet its = Some (sent, ls, Inr ())"
  shows "header_seqs sent = map (\<lambda>j. Some (of_nat j)) [0..<length sent]"
    and "d \<in> set sent \<Longrightarrow> length d \<le> rx_buf_len neg \<and> unstamp d \<noteq> None"
proof -
  have num: "numbered_from 0 (send_buffer st neg) sent"
    using drive_loop_sends [OF drive_udp_loop [OF assms]] by (simp add: udp_tx_init_def)
  then show "header_seqs sent = map (\<lambda>j. Some (of_nat j)) [0..<length sent]"
    by (simp add: numbered_from_def)
  assume "d \<in> set sent"
  then have "length d = unat (packet_size neg)" using num by (auto simp: numbered_from_def send_buffer_def)
  then show "length d \<le> rx_buf_len neg \<and> unstamp d \<noteq> None"
    using packet_size_ge [of neg] by (simp add: rx_buf_len_def unstamp_def HEADER_LEN_def)
qed

lemma inj_on_of_nat_u64: "n < 2 ^ 64 \<Longrightarrow> inj_on (of_nat :: nat \<Rightarrow> u64) {0..<n}"
proof (rule inj_onI)
  fix i j assume "n < 2 ^ 64" "i \<in> {0..<n}" "j \<in> {0..<n}" and eq: "(of_nat i :: u64) = of_nat j"
  then have "i < 2 ^ 64" "j < 2 ^ 64" by simp_all
  then show "i = j" using eq unat_of_nat_u64 by metis
qed

text \<open>
  A network that loses, delays and reorders, but neither duplicates nor makes up datagrams:
  the sequence numbers that are observed are different ones of those sent.
\<close>

lemma delivered_numbers:
  assumes "drive_udp p bind_r connect_r st neg fmt quiet its = Some (sent, ls, Inr ())"
    and "length sent < 2 ^ 64" and "mset (map fst (delivered evs)) \<subseteq># mset sent"
    and "ks = observed t0 (rx_buf_len neg) evs"
  shows "length ks = length (delivered evs)" and "distinct (map pk_seq ks)"
    and "set (map pk_seq ks) \<subseteq> of_nat ` {0..<length sent}" and "length ks \<le> length sent"
proof -
  let ?ds = "map fst (delivered evs)"
  note hs = sent_datagrams(1) [OF assms(1)] and ok = sent_datagrams(2) [OF assms(1)]
  have "\<forall>d\<in>set ?ds. length d \<le> rx_buf_len neg \<and> unstamp d \<noteq> None"
    using ok assms(3) by (metis mset_subset_eqD set_mset_mset)
  then have "map (\<lambda>k. Some (pk_seq k)) ks = header_seqs ?ds" unfolding assms(4) by (rule observed_seqs)
  then have some: "map Some (map pk_seq ks) = header_seqs ?ds" by (simp add: comp_def)
  have "length (map Some (map pk_seq ks)) = length (header_seqs ?ds)" by (simp only: some)
  then show lk: "length ks = length (delivered evs)" by (simp add: header_seqs_def)
  with size_mset_mono [OF assms(3)] show "length ks \<le> length sent" by simp
  have msub: "mset (header_seqs ?ds) \<subseteq># mset (header_seqs sent)"
    unfolding header_seqs_def mset_map [of "\<lambda>d. map_option fst (unstamp d)"]
    by (rule image_mset_subseteq_mono [OF assms(3)])
  have "distinct (header_seqs sent)"
    unfolding hs using inj_on_of_nat_u64 [OF assms(2)] by (simp add: distinct_map inj_on_def)
  with msub have "distinct (map Some (map pk_seq ks))" unfolding some by (rule distinct_submset)
  then show "distinct (map pk_seq ks)" by (rule distinct_map [THEN iffD1, THEN conjunct1])
  have "set (map Some (map pk_seq ks)) \<subseteq> set (header_seqs sent)"
    unfolding some using msub by (metis mset_subset_eqD set_mset_mset subsetI)
  then show "set (map pk_seq ks) \<subseteq> of_nat ` {0..<length sent}" unfolding hs by auto
qed

text \<open>
  Sender and receiver agree on loss. Whatever subset of the datagrams sent the network
  delivers, in whatever order, without duplicating them, the loss the server reports is at most
  the number of datagrams dropped; in particular a network that drops nothing yields zero.
\<close>

lemma udp_loss_never_overstated:
  assumes "drive_udp Release bind_r connect_r st neg fmt quiet its = Some (sent, ls, Inr ())"
    and "length sent < 2 ^ 64" and "unat (packet_size neg) < 2 ^ 63"
    and "stops evs" and "mset (map fst (delivered evs)) \<subseteq># mset sent"
  shows "\<exists>r rls l. serve_udp Release neg fmt' t0 evs = Some (Inr (r, rls)) \<and> packets_lost r = Some l
    \<and> unat l \<le> length sent - length (delivered evs)"
proof -
  define ks where "ks = observed t0 (rx_buf_len neg) evs"
  note D = delivered_numbers [OF assms(1,2,5) ks_def]
  note L = lost_le_dropped [OF D(3,2) _ refl assms(2)]
  from serve_udp_result [OF assms(4,3), of fmt' t0]
  obtain w a r0 r rls where sv: "serve_udp Release neg fmt' t0 evs = Some (Inr (r, rls))"
    "observe_all Release (lj_new w) ks = Some a"
    "into_result Release a (secs_between (window_start (rx_buf_len neg) w evs) (stop_time evs)) = Some r0"
    "r = r0\<lparr>samples := samples r\<rparr>"
    by (elim exE conjE) (rule that, simp_all only: ks_def)
  have "card (of_nat ` {0..<length sent} :: u64 set) = length sent"
    using inj_on_of_nat_u64 [OF assms(2)] by (simp add: card_image)
  then have "in_window w ks \<noteq> [] \<Longrightarrow> \<not> full_range (in_window w ks)
      \<and> card (missing (in_window w ks)) \<le> length sent - length ks \<and> duplicates (in_window w ks) = 0"
    using L by simp
  moreover have "length ks < 2 ^ 64" using D(4) assms(2) by simp
  ultimately obtain l where "packets_lost r0 = Some l" "unat l \<le> length sent - length ks"
    using into_result_lost [OF sv(2,3)] by blast
  moreover have "packets_lost r = packets_lost r0" by (subst sv(4)) simp
  ultimately show ?thesis using sv(1) D(1) by auto
qed

text \<open>One tick of the pacing sends fewer than \<open>2 ^ 64\<close> datagrams.\<close>

lemma one_tick_sent:
  assumes "drive_udp p bind_r connect_r st neg fmt quiet its = Some (sent, ls, Inr ())"
    and "iterations (send_window p neg) its = 1"
  shows "length sent < 2 ^ 64"
proof -
  obtain c where "paced (drive_rate neg) (iterations (send_window p neg) its) (Fin 0) = (length sent, c)"
    using drive_loop_sends [OF drive_udp_loop [OF assms(1)]] drive_rate_ok by (auto simp: udp_tx_init_def)
  then have "length sent = unat (fst (pace (drive_rate neg) (Fin 0)))" using assms(2) by (auto split: prod.splits)
  then show ?thesis using unsigned_less [of "fst (pace (drive_rate neg) (Fin 0))", where 'a = nat] by simp
qed

lemma udp_loss_never_overstated_witness:
  "\<exists>sent ls r rls l. drive_udp Release (Inr ()) (Inr ()) \<lparr>data_port = 1, server_seed = 2\<rparr>
        (udp_negotiate 1000000000 0 1472) Mbps True two_iterations = Some (sent, ls, Inr ())
     \<and> serve_udp Release (udp_negotiate 1000000000 0 1472) Mbps 3 (map (\<lambda>d. Datagram d 5 6) (rev sent) @ [StopAt 9]) = Some (Inr (r, rls))
     \<and> packets_lost r = Some l \<and> unat l = 0"
proof -
  let ?neg = "udp_negotiate 1000000000 0 1472" and ?st = "\<lparr>data_port = 1, server_seed = 2\<rparr>"
  obtain sent ls where d: "drive_udp Release (Inr ()) (Inr ()) ?st ?neg Mbps True two_iterations = Some (sent, ls, Inr ())"
    using two_iterations_end by blast
  have n: "length sent < 2 ^ 64"
    by (rule one_tick_sent [OF d]) (simp add: iterations_def send_window_def chk_simps from_secs_def)
  let ?evs = "map (\<lambda>d. Datagram d 5 6) (rev sent) @ [StopAt 9]"
  have dl: "delivered (map (\<lambda>d. Datagram d 5 6) xs @ [StopAt 9]) = map (\<lambda>d. (d, 5)) xs"
    and st: "stops (map (\<lambda>d. Datagram d 5 6) xs @ [StopAt 9])" for xs by (induction xs) simp_all
  have size: "unat (packet_size ?neg) < 2 ^ 63" by (simp add: packet_size_def HEADER_LEN_def)
  have sub: "mset (map fst (delivered ?evs)) \<subseteq># mset sent" unfolding dl by (simp add: comp_def)
  from udp_loss_never_overstated [OF d n size st sub, of Mbps 3] d show ?thesis unfolding dl by fastforce
qed

end
