(* ===== verification/TcpServer.thy ===== *)
theory TcpServer
  imports Meter Event_Loop
begin

text \<open>
  \<open>src/src/modes/tcp.rs\<close>, the receiver: tasks over shared counters, one \<open>recv_loop\<close> per stream,
  the sampler, the task that takes the warm-up snapshot, and \<open>serve\<close> itself, which waits for
  \<open>Stop\<close>. The model is the order in which they act (\<open>tcp_event\<close>), each action with its
  clock reading; reading all counters is one action. \<open>serve_tcp\<close> gives \<open>None\<close> while it
  still waits for a connection, for \<open>Stop\<close>, for the sampler or for the warm-up snapshot. After
  \<open>Stop\<close> the code aborts the stream tasks at their next await; the model lets them read on, which
  the reading of the final bytes does not see.

  A panic in a spawned task is a \<open>JoinError\<close> to the task that awaits it where panics
  unwind (the debug profile), which the code replaces by a default. No task panics in a
  release build, whose arithmetic wraps.

  The lemmas abstract the streams to what they delivered (\<open>streams_abs\<close>, \<open>stream_bytes\<close>) and
  show that the bytes reported are those received between the warm-up snapshot and \<open>Stop\<close>.
\<close>

section \<open>The receiver\<close>

definition READ_BUF :: nat where
  "READ_BUF = 256 * 1024"

definition sum_bytes :: "profile \<Rightarrow> counter list \<Rightarrow> u64 option" where
  "sum_bytes p counters = usum p counters"

text \<open>
  One iteration of \<open>recv_loop\<close>: the read gives an error or the bytes it put into the
  buffer, at most \<open>READ_BUF\<close>; the loop ends with the result in the second component.
\<close>

definition recv_step :: "bytes io_result \<Rightarrow> counter \<Rightarrow> counter \<times> unit io_result option" where
  "recv_step r c =
     (case r of
        Inl e \<Rightarrow> (c, Some (Inl e))
      | Inr got \<Rightarrow>
          (let n = length (take READ_BUF got)
           in if n = 0 then (c, Some (Inr ())) else (counter_add c (of_nat n), None)))"

record tcp_rx =
  tr_streams :: "(counter \<times> unit io_result option) list"
  tr_started :: "counter list option"
  tr_ticks :: "tick list"
  tr_warm :: "(u64 \<times> instant) option"
  tr_final :: "(u64 \<times> instant) option"

datatype tcp_event =
  ReadOn nat "bytes io_result" | SamplerStarts | SamplerTick instant | WarmupEnds instant | StopRead instant

definition counters_of :: "tcp_rx \<Rightarrow> counter list" where
  "counters_of st = map fst (tr_streams st)"

text \<open>A task runs until its loop has returned; the one-shot tasks act once.\<close>

definition tcp_step :: "profile \<Rightarrow> instant \<Rightarrow> tcp_rx \<Rightarrow> tcp_event \<Rightarrow> tcp_rx outcome" where
  "tcp_step p t0 st ev =
     (case ev of
        ReadOn i r \<Rightarrow>
          (if i < length (tr_streams st) \<and> snd (tr_streams st ! i) = None
           then Inr (st\<lparr>tr_streams := (tr_streams st)[i := recv_step r (fst (tr_streams st ! i))]\<rparr>)
           else Inr st)
      | SamplerStarts \<Rightarrow>
          Inr (if tr_started st = None then st\<lparr>tr_started := Some (counters_of st)\<rparr> else st)
      | SamplerTick now \<Rightarrow>
          Inr (if tr_started st = None then st else st\<lparr>tr_ticks := tr_ticks st @ [(now, counters_of st)]\<rparr>)
      | WarmupEnds now \<Rightarrow>
          Inr (if tr_warm st = None
               then st\<lparr>tr_warm := Some (case sum_bytes p (counters_of st) of
                   None \<Rightarrow> (0, t0) | Some b \<Rightarrow> (b, now))\<rparr>
               else st)
      | StopRead now \<Rightarrow>
          (if tr_final st = None
           then and_then (or_panic (sum_bytes p (counters_of st))) (\<lambda>b.
                  Inr (st\<lparr>tr_final := Some (b, now)\<rparr>))
           else Inr st))"

definition tcp_result :: "sample list \<Rightarrow> u64 \<times> instant \<Rightarrow> u64 \<times> instant \<Rightarrow> test_result" where
  "tcp_result ss warm final =
     (let bytes = saturating_sub (fst final) (fst warm);
          secs = as_secs_f64 (duration_since (snd final) (snd warm))
      in \<lparr>role = Receive, r_bytes = bytes, r_duration_secs = secs,
          r_bits_per_sec = bits_per_sec bytes secs,
          r_bytes_per_sec = (if flt (Fin 0) secs then fdiv (u64_to_f64 bytes) secs else Fin 0),
          packets_expected = None, packets_received = None, packets_lost = None,
          loss_ratio = None, jitter_ms = None, samples = ss\<rparr>)"

text \<open>What \<open>serve\<close> returns once its three awaits are over.\<close>

definition tcp_done ::
  "profile \<Rightarrow> format \<Rightarrow> instant \<Rightarrow> duration \<Rightarrow> duration \<Rightarrow> tcp_rx \<Rightarrow> (test_result \<times> string list) option" where
  "tcp_done p fmt t0 window warmup st = do {
     final \<leftarrow> tr_final st;
     start_counters \<leftarrow> tr_started st;
     sampled \<leftarrow> run_sampler p start_counters t0 window warmup fmt False (tr_ticks st);
     let (ss, ls) = (case sampled of Inl e \<Rightarrow> ([], []) | Inr y \<Rightarrow> y);
     warm \<leftarrow> tr_warm st;
     Some (tcp_result ss warm final, ls)
   }"

fun tcp_run ::
  "profile \<Rightarrow> format \<Rightarrow> instant \<Rightarrow> duration \<Rightarrow> duration \<Rightarrow> tcp_rx \<Rightarrow> tcp_event list
     \<Rightarrow> (test_result \<times> string list) outcome option" where
  "tcp_run p fmt t0 window warmup st evs =
     (case tcp_done p fmt t0 window warmup st of
        Some y \<Rightarrow> Some (Inr y)
      | None \<Rightarrow>
          (case evs of
             [] \<Rightarrow> None
           | ev # evs' \<Rightarrow>
               (case tcp_step p t0 st ev of
                  Inl e \<Rightarrow> Some (Inl e)
                | Inr st' \<Rightarrow> tcp_run p fmt t0 window warmup st' evs')))"

declare tcp_run.simps [simp del]

text \<open>Accepting the connections: an error ends it, and it waits when there are too few.\<close>

fun accept_all :: "nat \<Rightarrow> unit io_result list \<Rightarrow> unit io_result option" where
  "accept_all 0 cs = Some (Inr ())"
| "accept_all (Suc n) [] = None"
| "accept_all (Suc n) (Inl e # cs) = Some (Inl e)"
| "accept_all (Suc n) (Inr _ # cs) = accept_all n cs"

definition tcp_rx_init :: "nat \<Rightarrow> tcp_rx" where
  "tcp_rx_init n =
     \<lparr>tr_streams = replicate n (counter_new, None), tr_started = None, tr_ticks = [],
      tr_warm = None, tr_final = None\<rparr>"

definition serve_tcp ::
  "profile \<Rightarrow> negotiate \<Rightarrow> format \<Rightarrow> unit io_result list \<Rightarrow> instant \<Rightarrow> tcp_event list
     \<Rightarrow> (test_result \<times> string list) outcome option" where
  "serve_tcp p neg fmt accepts t0 evs =
     (case accept_all (unat (parallel neg)) accepts of
        None \<Rightarrow> None
      | Some (Inl e) \<Rightarrow> Some (Inl (Io e))
      | Some (Inr _) \<Rightarrow>
          (case uadd p (duration_secs neg) (warmup_secs neg) of
             None \<Rightarrow> Some (Inl (Panic ''arithmetic overflow''))
           | Some secs \<Rightarrow>
               tcp_run p fmt t0 (from_secs secs) (from_secs (warmup_secs neg))
                 (tcp_rx_init (unat (parallel neg))) evs))"

section \<open>The receiver: lemmas\<close>

abbreviation tcp_steps :: "profile \<Rightarrow> instant \<Rightarrow> tcp_rx \<Rightarrow> tcp_event list \<Rightarrow> tcp_rx outcome" where
  "tcp_steps p t0 \<equiv> run_steps (tcp_step p t0)"

interpretation trx: event_loop "tcp_step p t0" "tcp_done p fmt t0 window warmup"
    "tcp_run p fmt t0 window warmup" for p t0 fmt window warmup
  by unfold_locales (subst tcp_run.simps, simp)+

text \<open>What a stream has delivered: its reads up to the first error or end of stream.\<close>

fun stream_bytes :: "nat set \<Rightarrow> nat \<Rightarrow> tcp_event list \<Rightarrow> nat" where
  "stream_bytes ended n [] = 0"
| "stream_bytes ended n (ReadOn i r # evs) =
     (if n \<le> i \<or> i \<in> ended then stream_bytes ended n evs
      else (case r of
          Inl e \<Rightarrow> stream_bytes (insert i ended) n evs
        | Inr got \<Rightarrow>
            if got = [] then stream_bytes (insert i ended) n evs
            else min READ_BUF (length got) + stream_bytes ended n evs))"
| "stream_bytes ended n (_ # evs) = stream_bytes ended n evs"

fun ended_after :: "nat set \<Rightarrow> nat \<Rightarrow> tcp_event list \<Rightarrow> nat set" where
  "ended_after ended n [] = ended"
| "ended_after ended n (ReadOn i r # evs) =
     (if i < n \<and> (case r of Inl e \<Rightarrow> True | Inr got \<Rightarrow> got = []) then ended_after (insert i ended) n evs
      else ended_after ended n evs)"
| "ended_after ended n (_ # evs) = ended_after ended n evs"

lemma stream_bytes_append:
  "stream_bytes ended n (xs @ ys) = stream_bytes ended n xs + stream_bytes (ended_after ended n xs) n ys"
  by (induction ended n xs rule: stream_bytes.induct) (auto simp: insert_absorb split: sum.splits)

text \<open>The state of the streams, abstractly: which have ended and how many bytes there are.\<close>

definition streams_abs :: "tcp_rx \<Rightarrow> nat \<Rightarrow> nat set \<Rightarrow> nat \<Rightarrow> bool" where
  "streams_abs st n ended b \<longleftrightarrow>
     length (tr_streams st) = n
     \<and> (\<forall>i<n. snd (tr_streams st ! i) \<noteq> None \<longleftrightarrow> i \<in> ended)
     \<and> sum_list (map unat (counters_of st)) = b"

lemma sum_list_update_add:
  "i < length xs \<Longrightarrow> f y = f (xs ! i) + k \<Longrightarrow> sum_list (map f (xs[i := y])) = sum_list (map f xs) + (k::nat)"
proof (induction xs arbitrary: i)
  case (Cons x xs)
  then show ?case by (cases i) auto
qed simp

lemma READ_BUF_pos: "min READ_BUF (length got) = 0 \<longleftrightarrow> got = []"
  by (cases got) (simp_all add: READ_BUF_def min_def)

lemma elem_le_total: "i < length xs \<Longrightarrow> f (xs ! i) \<le> sum_list (map f xs)" for f :: "'a \<Rightarrow> nat"
  by (intro member_le_sum_list) simp_all

lemma read_step_abs:
  assumes "streams_abs st n ended b" "i < n" "i \<notin> ended"
    and "got \<noteq> []" "b + min READ_BUF (length got) < 2 ^ 64"
  shows "streams_abs (st\<lparr>tr_streams := (tr_streams st)[i := recv_step (Inr got) (fst (tr_streams st ! i))]\<rparr>)
    n ended (b + min READ_BUF (length got))"
proof -
  let ?k = "min READ_BUF (length got)" and ?s = "tr_streams st ! i"
  have len: "length (tr_streams st) = n" and live: "snd ?s = None"
    and b: "b = sum_list (map (\<lambda>s. unat (fst s)) (tr_streams st))"
    using assms(1-3) by (auto simp: streams_abs_def counters_of_def comp_def)
  have "unat (fst ?s) \<le> b" using elem_le_total [of i "tr_streams st" "\<lambda>s. unat (fst s)"] len assms(2) b by simp
  then have lt: "unat (fst ?s) + ?k < 2 ^ 64" and k64: "?k < 2 ^ 64" using assms(5) by simp_all
  have "length (take READ_BUF got) = ?k" by (simp add: min.commute)
  moreover have "?k \<noteq> 0" using assms(4) by (simp add: READ_BUF_pos)
  ultimately have r: "recv_step (Inr got) (fst ?s) = (fst ?s + of_nat ?k, None)"
    by (simp only: recv_step_def sum.case Let_def counter_add_def if_False)
  have "unat (fst ?s + of_nat ?k) = unat (fst ?s) + ?k"
    using lt unat_of_nat_u64 [OF k64] unat_add_exact [of "fst ?s" "of_nat ?k"] by simp
  then have "sum_list (map (\<lambda>s. unat (fst s)) ((tr_streams st)[i := (fst ?s + of_nat ?k, None)])) = b + ?k"
    unfolding b using len assms(2) by (intro sum_list_update_add) simp_all
  then show ?thesis
    using assms(1-3) unfolding r by (auto simp: streams_abs_def counters_of_def comp_def nth_list_update)
qed

lemma end_step_abs:
  assumes "streams_abs st n ended b" "i < n" "i \<notin> ended" "r = Inl e \<or> r = Inr []"
  shows "streams_abs (st\<lparr>tr_streams := (tr_streams st)[i := recv_step r (fst (tr_streams st ! i))]\<rparr>)
    n (insert i ended) b"
proof -
  have r: "fst (recv_step r c) = c" "snd (recv_step r c) \<noteq> None" for c
    using assms(4) by (auto simp: recv_step_def)
  have "i < length (tr_streams st)" using assms(1,2) by (simp add: streams_abs_def)
  then have "sum_list (map (\<lambda>s. unat (fst s)) ((tr_streams st)[i := recv_step r (fst (tr_streams st ! i))]))
      = sum_list (map (\<lambda>s. unat (fst s)) (tr_streams st)) + 0"
    by (rule sum_list_update_add) (simp add: r(1))
  then show ?thesis
    using assms(1,2) r(2) by (auto simp: streams_abs_def counters_of_def comp_def nth_list_update)
qed

lemma tcp_step_other:
  "tcp_step p t0 st ev = Inr st' \<Longrightarrow> (\<forall>i r. ev \<noteq> ReadOn i r) \<Longrightarrow> tr_streams st' = tr_streams st"
  by (auto simp: tcp_step_def and_then_Inr split: tcp_event.splits if_splits)

lemma tcp_steps_abs:
  assumes "tcp_steps p t0 st evs = Inr st'" "streams_abs st n ended b"
    and "b + stream_bytes ended n evs < 2 ^ 64"
  shows "streams_abs st' n (ended_after ended n evs) (b + stream_bytes ended n evs)"
  using assms
proof (induction evs arbitrary: st ended b)
  case Nil
  then show ?case by simp
next
  case (Cons ev evs)
  then obtain st1 where s1: "tcp_step p t0 st ev = Inr st1" "tcp_steps p t0 st1 evs = Inr st'"
    by (auto simp: and_then_Inr)
  show ?case
  proof (cases "\<exists>i r. ev = ReadOn i r")
    case False
    then have "stream_bytes ended n (ev # evs) = stream_bytes ended n evs"
      "ended_after ended n (ev # evs) = ended_after ended n evs" by (cases ev; simp)+
    moreover have "streams_abs st1 n ended b"
      using Cons.prems(2) tcp_step_other [OF s1(1)] False by (simp add: streams_abs_def counters_of_def)
    ultimately show ?thesis using Cons.IH [OF s1(2)] Cons.prems(3) by simp
  next
    case True
    then obtain i r where ev: "ev = ReadOn i r" by blast
    have len: "length (tr_streams st) = n"
      and live: "i < n \<Longrightarrow> snd (tr_streams st ! i) \<noteq> None \<longleftrightarrow> i \<in> ended"
      using Cons.prems(2) by (simp_all add: streams_abs_def)
    show ?thesis
    proof (cases "i < n \<and> i \<notin> ended")
      case False
      then have "st1 = st" using s1(1) len live by (auto simp: ev tcp_step_def split: if_splits)
      moreover have "ended_after ended n (ev # evs) = ended_after ended n evs"
        "stream_bytes ended n (ev # evs) = stream_bytes ended n evs"
        using False by (auto simp: ev insert_absorb)
      ultimately show ?thesis using Cons.IH [OF s1(2)] Cons.prems(2,3) by (simp only:)
    next
      case live': True
      then have st1: "st1 = st\<lparr>tr_streams := (tr_streams st)[i := recv_step r (fst (tr_streams st ! i))]\<rparr>"
        using s1(1) len live by (auto simp: ev tcp_step_def)
      show ?thesis
      proof (cases "\<exists>got. r = Inr got \<and> got \<noteq> []")
        case True
        then obtain got where got: "r = Inr got" "got \<noteq> []" by blast
        then have eq: "stream_bytes ended n (ev # evs) = min READ_BUF (length got) + stream_bytes ended n evs"
          "ended_after ended n (ev # evs) = ended_after ended n evs" using live' by (simp_all add: ev)
        then have "b + min READ_BUF (length got) < 2 ^ 64" using Cons.prems(3) by simp
        with read_step_abs [OF Cons.prems(2) _ _ got(2)] live' have "streams_abs st1 n ended (b + min READ_BUF (length got))"
          by (simp add: st1 got(1))
        from Cons.IH [OF s1(2) this] show ?thesis using Cons.prems(3) unfolding eq by (simp add: add.assoc)
      next
        case False
        then obtain e where r: "r = Inl e \<or> r = Inr []" by (cases r) auto
        then have eq: "stream_bytes ended n (ev # evs) = stream_bytes (insert i ended) n evs"
          "ended_after ended n (ev # evs) = ended_after (insert i ended) n evs" using live' by (auto simp: ev)
        have "streams_abs st1 n (insert i ended) b"
          unfolding st1 by (rule end_step_abs [OF Cons.prems(2)]) (use live' r in auto)
        from Cons.IH [OF s1(2) this] show ?thesis using Cons.prems(3) unfolding eq by simp
      qed
    qed
  qed
qed

text \<open>The snapshots are taken once.\<close>

lemma tcp_step_frozen:
  "tcp_step p t0 st ev = Inr st' \<Longrightarrow> tr_warm st = Some w \<Longrightarrow> tr_warm st' = Some w"
  "tcp_step p t0 st ev = Inr st' \<Longrightarrow> tr_final st = Some f \<Longrightarrow> tr_final st' = Some f"
  by (auto simp: tcp_step_def and_then_Inr split: tcp_event.splits if_splits)

lemma tcp_steps_frozen:
  assumes "tcp_steps p t0 st evs = Inr st'"
  shows "tr_warm st = Some w \<Longrightarrow> tr_warm st' = Some w" and "tr_final st = Some f \<Longrightarrow> tr_final st' = Some f"
  using run_steps_invariant [OF assms, where I = "\<lambda>s. tr_warm s = Some w"]
    run_steps_invariant [OF assms, where I = "\<lambda>s. tr_final s = Some f"] tcp_step_frozen by blast+

definition no_warm :: "tcp_event list \<Rightarrow> bool" where
  "no_warm evs \<longleftrightarrow> (\<forall>t. WarmupEnds t \<notin> set evs)"

definition no_stop :: "tcp_event list \<Rightarrow> bool" where
  "no_stop evs \<longleftrightarrow> (\<forall>t. StopRead t \<notin> set evs)"

lemma tcp_step_untaken:
  assumes "tcp_step p t0 st ev = Inr st'"
  shows "(\<forall>t. ev \<noteq> WarmupEnds t) \<Longrightarrow> tr_warm st' = tr_warm st"
    and "(\<forall>t. ev \<noteq> StopRead t) \<Longrightarrow> tr_final st' = tr_final st"
  using assms by (auto simp: tcp_step_def and_then_Inr split: tcp_event.splits if_splits)

lemma tcp_steps_untaken:
  assumes "tcp_steps p t0 st evs = Inr st'"
  shows "no_warm evs \<Longrightarrow> tr_warm st' = tr_warm st" and "no_stop evs \<Longrightarrow> tr_final st' = tr_final st"
  using run_steps_invariant [OF assms, where I = "\<lambda>s. tr_warm s = tr_warm st"]
    run_steps_invariant [OF assms, where I = "\<lambda>s. tr_final s = tr_final st"] tcp_step_untaken
  unfolding no_warm_def no_stop_def by metis+

lemma tcp_done_result:
  "tcp_done p fmt t0 window warmup st = Some (r, ls) \<Longrightarrow>
     \<exists>ss w f. tr_warm st = Some w \<and> tr_final st = Some f \<and> r = tcp_result ss w f"
  by (auto simp: tcp_done_def Let_def split: Option.bind_splits prod.splits)

lemma streams_abs_init: "streams_abs (tcp_rx_init n) n {} 0"
  by (simp add: streams_abs_def tcp_rx_init_def counters_of_def counter_new_def sum_list_replicate)

lemma sum_bytes_abs: "streams_abs st n ended b \<Longrightarrow> b < 2 ^ 64 \<Longrightarrow> \<exists>s. sum_bytes p (counters_of st) = Some s \<and> unat s = b"
  using usum_ok [of "counters_of st" p] by (simp add: streams_abs_def sum_bytes_def)

text \<open>The snapshots of a whole run, from the actions up to each of them.\<close>

lemma warm_snapshot:
  assumes "tcp_steps p t0 st (xs @ WarmupEnds tw # ys) = Inr st'" "no_warm xs" "tr_warm st = None"
    and "streams_abs st n ended b" "b + stream_bytes ended n xs < 2 ^ 64"
  shows "\<exists>s. tr_warm st' = Some (s, tw) \<and> unat s = b + stream_bytes ended n xs"
proof -
  obtain s1 where s1: "tcp_steps p t0 st xs = Inr s1" and r: "tcp_steps p t0 s1 (WarmupEnds tw # ys) = Inr st'"
    using assms(1) by (auto simp: run_steps_append and_then_Inr)
  obtain s2 where s2: "tcp_step p t0 s1 (WarmupEnds tw) = Inr s2" "tcp_steps p t0 s2 ys = Inr st'"
    using r by (auto simp: and_then_Inr)
  obtain s where s: "sum_bytes p (counters_of s1) = Some s" "unat s = b + stream_bytes ended n xs"
    using sum_bytes_abs [OF tcp_steps_abs [OF s1 assms(4,5)] assms(5)] by blast
  have "tr_warm s2 = Some (s, tw)"
    using s2(1) s(1) tcp_steps_untaken(1) [OF s1 assms(2)] assms(3) by (auto simp: tcp_step_def)
  with tcp_steps_frozen(1) [OF s2(2)] s(2) show ?thesis by blast
qed

lemma final_snapshot:
  assumes "tcp_steps p t0 st (xs @ StopRead ts # ys) = Inr st'" "no_stop xs" "tr_final st = None"
    and "streams_abs st n ended b" "b + stream_bytes ended n xs < 2 ^ 64"
  shows "\<exists>s. tr_final st' = Some (s, ts) \<and> unat s = b + stream_bytes ended n xs"
proof -
  obtain s1 where s1: "tcp_steps p t0 st xs = Inr s1" and r: "tcp_steps p t0 s1 (StopRead ts # ys) = Inr st'"
    using assms(1) by (auto simp: run_steps_append and_then_Inr)
  obtain s2 where s2: "tcp_step p t0 s1 (StopRead ts) = Inr s2" "tcp_steps p t0 s2 ys = Inr st'"
    using r by (auto simp: and_then_Inr)
  obtain s where s: "sum_bytes p (counters_of s1) = Some s" "unat s = b + stream_bytes ended n xs"
    using sum_bytes_abs [OF tcp_steps_abs [OF s1 assms(4,5)] assms(5)] by blast
  have "tr_final s2 = Some (s, ts)"
    using s2(1) s(1) tcp_steps_untaken(2) [OF s1 assms(2)] assms(3) by (auto simp: tcp_step_def)
  with tcp_steps_frozen(2) [OF s2(2)] s(2) show ?thesis by blast
qed

text \<open>No action panics in a release build, so a run has a last state.\<close>

lemma usum_Release: "\<exists>s. usum Release ws = Some s"
proof -
  have "\<exists>s. usum_from Release acc ws = Some s" for acc
    by (induction ws arbitrary: acc) (simp_all add: chk_simps)
  then show ?thesis by (simp add: usum_def)
qed

lemma tcp_step_Release: "\<exists>st'. tcp_step Release t0 st ev = Inr st'"
proof (cases ev)
  case (StopRead ts)
  obtain s where "sum_bytes Release (counters_of st) = Some s" using usum_Release unfolding sum_bytes_def by blast
  with StopRead show ?thesis by (simp add: tcp_step_def)
qed (simp_all add: tcp_step_def)

lemma tcp_steps_Release: "\<exists>st'. tcp_steps Release t0 st evs = Inr st'"
proof (induction evs arbitrary: st)
  case (Cons ev evs)
  obtain st1 where "tcp_step Release t0 st ev = Inr st1" using tcp_step_Release by blast
  with Cons show ?case by simp
qed simp

lemma serve_tcp_run:
  assumes "serve_tcp p neg fmt accepts t0 evs = Some (Inr y)"
  shows "\<exists>secs. tcp_run p fmt t0 (from_secs secs) (from_secs (warmup_secs neg))
    (tcp_rx_init (unat (parallel neg))) evs = Some (Inr y)"
  using assms by (auto simp: serve_tcp_def split: option.splits sum.splits)

text \<open>The result of a release run, from the snapshots of the whole run.\<close>

lemma serve_tcp_snapshots:
  assumes "serve_tcp Release neg fmt accepts t0 evs = Some (Inr (r, ls))"
  shows "\<exists>st' ss w f. tcp_steps Release t0 (tcp_rx_init (unat (parallel neg))) evs = Inr st'
    \<and> tr_warm st' = Some w \<and> tr_final st' = Some f \<and> r = tcp_result ss w f"
proof -
  let ?i = "tcp_rx_init (unat (parallel neg))"
  obtain secs where "tcp_run Release fmt t0 (from_secs secs) (from_secs (warmup_secs neg)) ?i evs = Some (Inr (r, ls))"
    using serve_tcp_run [OF assms] by blast
  from trx.run_result [OF this] obtain xs ys st1 where x: "evs = xs @ ys" "tcp_steps Release t0 ?i xs = Inr st1"
    "tcp_done Release fmt t0 (from_secs secs) (from_secs (warmup_secs neg)) st1 = Some (r, ls)" by blast
  obtain ss w f where d: "tr_warm st1 = Some w" "tr_final st1 = Some f" "r = tcp_result ss w f"
    using tcp_done_result [OF x(3)] by blast
  obtain st' where st': "tcp_steps Release t0 st1 ys = Inr st'" using tcp_steps_Release by blast
  have "tcp_steps Release t0 ?i evs = Inr st'" using x(1,2) st' by (simp add: run_steps_append)
  with tcp_steps_frozen [OF st'] d show ?thesis by blast
qed

lemma tcp_rx_init_fields [simp]: "tr_warm (tcp_rx_init n) = None" "tr_final (tcp_rx_init n) = None"
  by (simp_all add: tcp_rx_init_def)

section \<open>The receiver returns\<close>

lemma sampler_loop_Release:
  assumes "\<exists>tk\<in>set ticks. window \<le> duration_since (fst tk) t0"
  shows "\<exists>y. sampler_loop Release t0 window (from_secs s) fmt quiet b t ticks = Some (Inr y)"
  using assms
proof (induction ticks arbitrary: b t)
  case (Cons tk ticks)
  obtain now vals where tk: "tk = (now, vals)" by fastforce
  obtain cur where cur: "total Release vals = Some cur" using usum_Release unfolding total_def by blast
  show ?case
  proof (cases "window \<le> duration_since now t0")
    case True
    with tk cur show ?thesis by (simp add: Let_def warmup_limit)
  next
    case False
    then have "\<exists>tk\<in>set ticks. window \<le> duration_since (fst tk) t0" using Cons.prems tk by auto
    from Cons.IH [OF this, of cur now]
    obtain ss ls where "sampler_loop Release t0 window (from_secs s) fmt quiet cur now ticks = Some (Inr (ss, ls))"
      by (metis surj_pair)
    with tk cur False show ?thesis by (cases quiet) (simp_all add: Let_def warmup_limit)
  qed
qed simp

lemma run_sampler_Release:
  assumes "\<exists>tk\<in>set ticks. window \<le> duration_since (fst tk) t0"
  shows "\<exists>y. run_sampler Release cs t0 window (from_secs s) fmt quiet ticks = Some (Inr y)"
proof -
  obtain b where "total Release cs = Some b" using usum_Release unfolding total_def by blast
  with sampler_loop_Release [OF assms] show ?thesis by (simp add: run_sampler_def)
qed

text \<open>What a run has done, by the actions it holds.\<close>

lemma tcp_step_keeps:
  assumes "tcp_step p t0 st ev = Inr st'"
  shows "tr_started st \<noteq> None \<Longrightarrow> tr_started st' \<noteq> None" and "set (tr_ticks st) \<subseteq> set (tr_ticks st')"
    and "tr_warm st \<noteq> None \<Longrightarrow> tr_warm st' \<noteq> None" and "tr_final st \<noteq> None \<Longrightarrow> tr_final st' \<noteq> None"
    and "ev = SamplerStarts \<Longrightarrow> tr_started st' \<noteq> None" and "ev = WarmupEnds tw \<Longrightarrow> tr_warm st' \<noteq> None"
    and "ev = StopRead ts \<Longrightarrow> tr_final st' \<noteq> None"
    and "ev = SamplerTick now \<Longrightarrow> tr_started st \<noteq> None \<Longrightarrow> now \<in> fst ` set (tr_ticks st')"
  using assms by (auto simp: tcp_step_def and_then_Inr split: tcp_event.splits if_splits)

lemma tcp_steps_keeps:
  assumes "tcp_steps p t0 st evs = Inr st'"
  shows "(tr_started st \<noteq> None \<longrightarrow> tr_started st' \<noteq> None) \<and> set (tr_ticks st) \<subseteq> set (tr_ticks st')
    \<and> (tr_warm st \<noteq> None \<longrightarrow> tr_warm st' \<noteq> None) \<and> (tr_final st \<noteq> None \<longrightarrow> tr_final st' \<noteq> None)"
  using assms
proof (induction evs arbitrary: st)
  case (Cons ev evs)
  then obtain st1 where s1: "tcp_step p t0 st ev = Inr st1" "tcp_steps p t0 st1 evs = Inr st'"
    by (auto simp: and_then_Inr)
  from Cons.IH [OF s1(2)] tcp_step_keeps(1-4) [OF s1(1)] show ?case by blast
qed simp

lemma tcp_steps_taken:
  assumes "tcp_steps p t0 st evs = Inr st'"
  shows "WarmupEnds tw \<in> set evs \<Longrightarrow> \<exists>w. tr_warm st' = Some w"
    and "StopRead ts \<in> set evs \<Longrightarrow> \<exists>f. tr_final st' = Some f"
proof -
  assume "WarmupEnds tw \<in> set evs"
  from run_steps_split [OF assms this] obtain s1 s2 ys where
    "tcp_step p t0 s1 (WarmupEnds tw) = Inr s2" "tcp_steps p t0 s2 ys = Inr st'" by blast
  from tcp_step_keeps(6) [OF this(1) refl] tcp_steps_keeps [OF this(2)] show "\<exists>w. tr_warm st' = Some w" by blast
next
  assume "StopRead ts \<in> set evs"
  from run_steps_split [OF assms this] obtain s1 s2 ys where
    "tcp_step p t0 s1 (StopRead ts) = Inr s2" "tcp_steps p t0 s2 ys = Inr st'" by blast
  from tcp_step_keeps(7) [OF this(1) refl] tcp_steps_keeps [OF this(2)] show "\<exists>f. tr_final st' = Some f" by blast
qed

lemma serve_tcp_ends:
  assumes "accept_all (unat (parallel neg)) accepts = Some (Inr ())"
    and "evs = xs @ SamplerStarts # ys" and "SamplerTick now \<in> set ys"
    and "from_secs (duration_secs neg + warmup_secs neg) \<le> duration_since now t0"
    and "WarmupEnds tw \<in> set evs" and "StopRead ts \<in> set evs"
  shows "\<exists>r ls. serve_tcp Release neg fmt accepts t0 evs = Some (Inr (r, ls))"
proof -
  let ?i = "tcp_rx_init (unat (parallel neg))"
  let ?win = "from_secs (duration_secs neg + warmup_secs neg)"
  obtain st' where st': "tcp_steps Release t0 ?i evs = Inr st'" using tcp_steps_Release by blast
  obtain f g where f: "tr_warm st' = Some f" and g: "tr_final st' = Some g"
    using tcp_steps_taken [OF st'] assms(5,6) by blast
  obtain s1 s2 where s: "tcp_steps Release t0 ?i xs = Inr s1" "tcp_step Release t0 s1 SamplerStarts = Inr s2"
    "tcp_steps Release t0 s2 ys = Inr st'"
    using st' unfolding assms(2) by (auto simp: run_steps_append and_then_Inr)
  have started: "tr_started s2 \<noteq> None" by (rule tcp_step_keeps(5) [OF s(2) refl])
  then obtain cs where cs: "tr_started st' = Some cs" using tcp_steps_keeps [OF s(3)] by blast
  obtain us vs u1 u2 where u: "tcp_steps Release t0 s2 us = Inr u1" "tcp_step Release t0 u1 (SamplerTick now) = Inr u2"
    "tcp_steps Release t0 u2 vs = Inr st'" using run_steps_split [OF s(3) assms(3)] by blast
  have "tr_started u1 \<noteq> None" using tcp_steps_keeps [OF u(1)] started by blast
  then have "now \<in> fst ` set (tr_ticks u2)" by (rule tcp_step_keeps(8) [OF u(2) refl])
  then have "\<exists>tk\<in>set (tr_ticks st'). ?win \<le> duration_since (fst tk) t0"
    using tcp_steps_keeps [OF u(3)] assms(4) by (metis (no_types, lifting) imageE subsetD)
  from run_sampler_Release [OF this] obtain y where
    "run_sampler Release cs t0 ?win (from_secs (warmup_secs neg)) fmt False (tr_ticks st') = Some (Inr y)" by blast
  with f g cs have "tcp_done Release fmt t0 ?win (from_secs (warmup_secs neg)) st' \<noteq> None"
    by (cases y) (simp add: tcp_done_def)
  from trx.run_returns [OF st' this, of "[]"] assms(1) show ?thesis by (simp add: serve_tcp_def chk_simps)
qed

text \<open>
  C30. The TCP receiver returns: with all connections accepted, it delivers a result (and never
  an error or a panic, release build) once the sampler has seen the whole window and both the end
  of the warm-up and \<open>Stop\<close> have happened, in whatever order the tasks act.
\<close>

theorem serve_tcp_returns:
  assumes "accept_all (unat (parallel neg)) accepts = Some (Inr ())"
    and "evs = xs @ SamplerStarts # ys" and "SamplerTick now \<in> set ys"
    and "from_secs (duration_secs neg + warmup_secs neg) \<le> duration_since now t0"
    and "WarmupEnds tw \<in> set evs" and "StopRead ts \<in> set evs"
  shows "\<exists>r ls. serve_tcp Release neg fmt accepts t0 evs = Some (Inr (r, ls))"
  by (rule serve_tcp_ends [OF assms])

text \<open>A negotiation of two streams and a run of it, for examples.\<close>

abbreviation tcp_negotiate :: negotiate where
  "tcp_negotiate \<equiv>
     \<lparr>mode = Tcp, duration_secs = 1, warmup_secs = 1, parallel = 2, buffer_bytes = 16, bidir = False,
      bitrate_bps = None, packet_bytes = None, file_len = None, null_source = None\<rparr>"

lemma two_streams: "unat (parallel tcp_negotiate) = Suc (Suc 0)" "buffer_bytes tcp_negotiate = 16"
  "duration_secs tcp_negotiate = 1" "warmup_secs tcp_negotiate = 1"
  by simp_all

theorem serve_tcp_returns_witness:
  "\<exists>r ls. serve_tcp Release tcp_negotiate Mbps [Inr (), Inr ()] 0
     [WarmupEnds 5, SamplerStarts, StopRead 3, SamplerTick 2000000000] = Some (Inr (r, ls))"
  by (rule serve_tcp_returns [where xs = "[WarmupEnds 5]" and ys = "[StopRead 3, SamplerTick 2000000000]"
        and now = 2000000000 and tw = 5 and ts = 3])
     (simp_all only: two_streams, simp_all add: from_secs_def duration_since_def)

section \<open>What the result counts\<close>

text \<open>
  C13. The TCP result is the steady state. When the warm-up ends before \<open>Stop\<close>, the bytes
  reported are exactly those the streams delivered between the two, each stream up to its own
  error or end, over exactly the time between the two; what arrived before, and after \<open>Stop\<close>, does
  not count.
\<close>

theorem tcp_result_excludes_warmup:
  assumes "evs = pre @ WarmupEnds tw # mid @ StopRead ts # post" and "no_warm pre" and "no_stop pre" and "no_stop mid"
    and "stream_bytes {} (unat (parallel neg)) (pre @ mid) < 2 ^ 64"
    and "serve_tcp Release neg fmt accepts t0 evs = Some (Inr (r, ls))"
  shows "unat (r_bytes r) = stream_bytes (ended_after {} (unat (parallel neg)) pre) (unat (parallel neg)) mid
    \<and> r_duration_secs r = as_secs_f64 (duration_since ts tw)
    \<and> r_bits_per_sec r = bits_per_sec (r_bytes r) (r_duration_secs r)"
proof -
  let ?n = "unat (parallel neg)" and ?i = "tcp_rx_init (unat (parallel neg))"
  obtain st' ss w f where s: "tcp_steps Release t0 ?i evs = Inr st'" "tr_warm st' = Some w" "tr_final st' = Some f"
    "r = tcp_result ss w f" using serve_tcp_snapshots [OF assms(6)] by blast
  have b: "stream_bytes {} ?n pre + stream_bytes (ended_after {} ?n pre) ?n mid < 2 ^ 64"
    using assms(5) by (simp add: stream_bytes_append)
  have lw: "0 + stream_bytes {} ?n pre < 2 ^ 64" using b by simp
  obtain sw where sw: "w = (sw, tw)" "unat sw = stream_bytes {} ?n pre"
    using warm_snapshot [OF s(1) [unfolded assms(1)] assms(2) _ streams_abs_init lw] s(2) by auto
  have ev: "evs = (pre @ WarmupEnds tw # mid) @ StopRead ts # post" using assms(1) by simp
  have ns: "no_stop (pre @ WarmupEnds tw # mid)" using assms(3,4) by (auto simp: no_stop_def)
  have tot: "stream_bytes {} ?n (pre @ WarmupEnds tw # mid)
      = stream_bytes {} ?n pre + stream_bytes (ended_after {} ?n pre) ?n mid" by (simp add: stream_bytes_append)
  then have lf: "0 + stream_bytes {} ?n (pre @ WarmupEnds tw # mid) < 2 ^ 64" using b by simp
  obtain sf where sf: "f = (sf, ts)" "unat sf = stream_bytes {} ?n (pre @ WarmupEnds tw # mid)"
    using final_snapshot [OF s(1) [unfolded ev] ns _ streams_abs_init lf] s(3) by auto
  have "unat (saturating_sub sf sw) = stream_bytes (ended_after {} ?n pre) ?n mid"
    by (simp add: unat_saturating_sub sw(2) sf(2) tot)
  with s(4) sw(1) sf(1) show ?thesis by (simp add: tcp_result_def Let_def)
qed

theorem tcp_result_excludes_warmup_witness:
  "\<exists>r ls. serve_tcp Release tcp_negotiate Mbps [Inr (), Inr ()] 0
      ([SamplerStarts, ReadOn 0 (Inr [1, 2, 3])] @ WarmupEnds 1000000000
        # [ReadOn 1 (Inr [7, 7, 7, 7, 7]), ReadOn 0 (Inr []), ReadOn 0 (Inr [9])]
        @ StopRead 2000000000 # [SamplerTick 2000000000]) = Some (Inr (r, ls))
    \<and> unat (r_bytes r) = 5 \<and> r_duration_secs r = as_secs_f64 1000000000"
proof -
  let ?pre = "[SamplerStarts, ReadOn 0 (Inr [1, 2, 3])]"
  let ?mid = "[ReadOn 1 (Inr [7, 7, 7, 7, 7]), ReadOn 0 (Inr []), ReadOn 0 (Inr [9])] :: tcp_event list"
  let ?post = "[SamplerTick 2000000000]"
  let ?evs = "?pre @ WarmupEnds 1000000000 # ?mid @ StopRead 2000000000 # ?post"
  have "accept_all (unat (parallel tcp_negotiate)) [Inr (), Inr ()] = Some (Inr ())"
    by (simp only: two_streams) simp
  then obtain r ls where r: "serve_tcp Release tcp_negotiate Mbps [Inr (), Inr ()] 0 ?evs = Some (Inr (r, ls))"
    using serve_tcp_ends [of tcp_negotiate "[Inr (), Inr ()]" ?evs "[]" _ 2000000000 0 1000000000 2000000000 Mbps]
    by (auto simp: from_secs_def duration_since_def)
  have flags: "no_warm ?pre" "no_stop ?pre" "no_stop ?mid" by (simp_all add: no_warm_def no_stop_def)
  have n: "stream_bytes {} (unat (parallel tcp_negotiate)) (?pre @ ?mid) < 2 ^ 64"
    and m: "stream_bytes (ended_after {} (unat (parallel tcp_negotiate)) ?pre) (unat (parallel tcp_negotiate)) ?mid = 5"
    by (simp_all add: READ_BUF_def)
  from tcp_result_excludes_warmup [OF refl flags n r] r m show ?thesis by (auto simp: duration_since_def)
qed

text \<open>
  A client that sends \<open>Stop\<close> before the warm-up is over gets an empty result: no bytes, no
  time and a rate of 0, never an underflow of the difference.
\<close>

lemma tcp_early_stop_reports_nothing:
  assumes "evs = pre @ StopRead ts # mid @ WarmupEnds tw # post" and "no_warm pre" and "no_stop pre" and "no_warm mid"
    and "stream_bytes {} (unat (parallel neg)) (pre @ mid) < 2 ^ 64" and "ts \<le> tw"
    and "serve_tcp Release neg fmt accepts t0 evs = Some (Inr (r, ls))"
  shows "r_bytes r = 0 \<and> fval (r_duration_secs r) = 0 \<and> r_bits_per_sec r = Fin 0"
proof -
  let ?n = "unat (parallel neg)" and ?i = "tcp_rx_init (unat (parallel neg))"
  obtain st' ss w f where s: "tcp_steps Release t0 ?i evs = Inr st'" "tr_warm st' = Some w" "tr_final st' = Some f"
    "r = tcp_result ss w f" using serve_tcp_snapshots [OF assms(7)] by blast
  have b: "stream_bytes {} ?n pre + stream_bytes (ended_after {} ?n pre) ?n mid < 2 ^ 64"
    using assms(5) by (simp add: stream_bytes_append)
  have lf: "0 + stream_bytes {} ?n pre < 2 ^ 64" using b by simp
  obtain sf where sf: "f = (sf, ts)" "unat sf = stream_bytes {} ?n pre"
    using final_snapshot [OF s(1) [unfolded assms(1)] assms(3) _ streams_abs_init lf] s(3) by auto
  have ev: "evs = (pre @ StopRead ts # mid) @ WarmupEnds tw # post" using assms(1) by simp
  have nw: "no_warm (pre @ StopRead ts # mid)" using assms(2,4) by (auto simp: no_warm_def)
  have tot: "stream_bytes {} ?n (pre @ StopRead ts # mid)
      = stream_bytes {} ?n pre + stream_bytes (ended_after {} ?n pre) ?n mid" by (simp add: stream_bytes_append)
  then have lw: "0 + stream_bytes {} ?n (pre @ StopRead ts # mid) < 2 ^ 64" using b by simp
  obtain sw where sw: "w = (sw, tw)" "unat sw = stream_bytes {} ?n (pre @ StopRead ts # mid)"
    using warm_snapshot [OF s(1) [unfolded ev] nw _ streams_abs_init lw] s(2) by auto
  have "unat (saturating_sub sf sw) = 0" by (simp add: unat_saturating_sub sw(2) sf(2) tot)
  then have "saturating_sub sf sw = 0" by (simp add: unat_eq_0)
  with s(4) sw(1) sf(1) assms(6) show ?thesis
    by (simp add: tcp_result_def Let_def duration_since_def bits_per_sec_zero)
qed

lemma tcp_early_stop_reports_nothing_witness:
  "\<exists>r ls. serve_tcp Release tcp_negotiate Mbps [Inr (), Inr ()] 0
      ([SamplerStarts, ReadOn 0 (Inr [1, 2, 3])] @ StopRead 5 # [ReadOn 1 (Inr [7])]
        @ WarmupEnds 1000000000 # [SamplerTick 2000000000]) = Some (Inr (r, ls)) \<and> r_bytes r = 0"
proof -
  let ?pre = "[SamplerStarts, ReadOn 0 (Inr [1, 2, 3])]" and ?mid = "[ReadOn 1 (Inr [7])]"
  let ?evs = "?pre @ StopRead 5 # ?mid @ WarmupEnds 1000000000 # [SamplerTick 2000000000]"
  have "accept_all (unat (parallel tcp_negotiate)) [Inr (), Inr ()] = Some (Inr ())"
    by (simp only: two_streams) simp
  then obtain r ls where r: "serve_tcp Release tcp_negotiate Mbps [Inr (), Inr ()] 0 ?evs = Some (Inr (r, ls))"
    using serve_tcp_ends [of tcp_negotiate "[Inr (), Inr ()]" ?evs "[]" _ 2000000000 0 1000000000 5 Mbps]
    by (auto simp: from_secs_def duration_since_def)
  have flags: "no_warm ?pre" "no_stop ?pre" "no_warm ?mid" by (simp_all add: no_warm_def no_stop_def)
  have n: "stream_bytes {} (unat (parallel tcp_negotiate)) (?pre @ ?mid) < 2 ^ 64" by (simp add: READ_BUF_def)
  from tcp_early_stop_reports_nothing [OF refl flags n _ r] r show ?thesis by auto
qed

end
