(* ===== verification/TcpClient.thy ===== *)
theory TcpClient
  imports TcpServer
begin

text \<open>
  \<open>src/src/modes/tcp.rs\<close>, the sender: \<open>drive\<close> connects the streams, runs one \<open>send_loop\<close> task per
  stream and the sampler, and waits for all of them. A panic in a task ends the process in a
  release build (\<open>panic = "abort"\<close>) and is dropped with the task's result otherwise.

  The lemmas show when the loops end, what a stream carries: whole copies of its own payload and,
  after a write that failed part-way, the beginning of one more; and that the payloads differ.
\<close>

section \<open>The sender\<close>

definition SEED_MIX :: u64 where
  "SEED_MIX = 0x9E3779B97F4A7C15"

text \<open>\<open>payload_sample\<close>, and the payload of the \<open>i\<close>-th stream.\<close>

definition payload_sample :: "start \<Rightarrow> usize \<Rightarrow> bytes outcome" where
  "payload_sample st n = and_then (zeroed_vec n) (\<lambda>buf. Inr (fill_random buf (server_seed st)))"

definition stream_seed :: "start \<Rightarrow> nat \<Rightarrow> u64" where
  "stream_seed st i = server_seed st XOR (of_nat i * SEED_MIX)"

text \<open>
  \<open>send_loop\<close> from its loop on: per iteration the clock and, when it writes, the outcome of
  the write, then the outcome of the flush. It returns the counter, the bytes that went out (of a
  write that fails, those before the failure, which are not counted) and how it ended; \<open>None\<close>
  while it still runs, be it that a write never returns.
\<close>

fun send_loop ::
  "instant \<Rightarrow> bytes \<Rightarrow> unit io_result \<Rightarrow> (instant \<times> write_result) list \<Rightarrow> counter
     \<Rightarrow> (counter \<times> bytes \<times> unit io_result) option" where
  "send_loop deadline buf flushed [] c = None"
| "send_loop deadline buf flushed ((now, r) # its) c =
     (if now < deadline then
        (case r of
           Inl (e, k) \<Rightarrow> Some (c, written buf r, Inl e)
         | Inr _ \<Rightarrow>
             map_option (\<lambda>(c', sent, res). (c', written buf r @ sent, res))
               (send_loop deadline buf flushed its (counter_add c (of_nat (length buf)))))
      else Some (c, [], flushed))"

text \<open>One task: its buffer, then its loop.\<close>

definition send_task ::
  "start \<Rightarrow> usize \<Rightarrow> nat \<Rightarrow> instant \<Rightarrow> unit io_result \<times> (instant \<times> write_result) list
     \<Rightarrow> (counter \<times> bytes \<times> unit io_result) outcome option" where
  "send_task st n i deadline run =
     (case zeroed_vec n of
        Inl e \<Rightarrow> Some (Inl e)
      | Inr buf \<Rightarrow>
          map_option Inr (send_loop deadline (fill_random buf (stream_seed st i)) (fst run) (snd run) counter_new))"

text \<open>Connecting, one stream after the other: the connection and its \<open>TCP_NODELAY\<close>.\<close>

fun connect_all :: "nat \<Rightarrow> (unit io_result \<times> unit io_result) list \<Rightarrow> unit io_result option" where
  "connect_all 0 cs = Some (Inr ())"
| "connect_all (Suc n) [] = None"
| "connect_all (Suc n) ((Inl e, _) # cs) = Some (Inl e)"
| "connect_all (Suc n) ((Inr _, Inl e) # cs) = Some (Inl e)"
| "connect_all (Suc n) ((Inr _, Inr _) # cs) = connect_all n cs"

text \<open>
  \<open>drive\<close>: \<open>runs\<close> holds the iterations of the streams, \<open>readings\<close> the counters the sampler
  reads at its start and at its ticks (it is not started when quiet). The results of the
  tasks are dropped. The other components are the lines printed and what the streams carried.
\<close>

definition task_panics :: "'a outcome \<Rightarrow> bool" where
  "task_panics r = (case r of Inl (Panic _) \<Rightarrow> True | _ \<Rightarrow> False)"

definition carried_by :: "(counter \<times> bytes \<times> unit io_result) outcome option \<Rightarrow> bytes" where
  "carried_by t = (case t of Some (Inr (c, sent, res)) \<Rightarrow> sent | _ \<Rightarrow> [])"

definition drive_tcp ::
  "profile \<Rightarrow> (unit io_result \<times> unit io_result) list \<Rightarrow> start \<Rightarrow> negotiate \<Rightarrow> format \<Rightarrow> bool \<Rightarrow> instant
     \<Rightarrow> (unit io_result \<times> (instant \<times> write_result) list) list \<Rightarrow> counter list \<times> tick list
     \<Rightarrow> (unit outcome \<times> string list \<times> bytes list) option" where
  "drive_tcp p conns st neg fmt quiet t0 runs readings =
     (case connect_all (unat (parallel neg)) conns of
        None \<Rightarrow> None
      | Some (Inl e) \<Rightarrow> Some (Inl (Io e), [], [])
      | Some (Inr _) \<Rightarrow>
          (case uadd p (duration_secs neg) (warmup_secs neg) of
             None \<Rightarrow> Some (Inl (Panic ''arithmetic overflow''), [], [])
           | Some secs \<Rightarrow>
               (case instant_add t0 (from_secs secs) of
                  None \<Rightarrow> Some (Inl (Panic ''overflow when adding duration to instant''), [], [])
                | Some deadline \<Rightarrow>
                    (let tasks = map (\<lambda>i. send_task st (buffer_bytes neg) i deadline (runs ! i)) [0..<unat (parallel neg)];
                         sampler = (if quiet then Some (Inr ([], []))
                           else run_sampler p (fst readings) t0 (from_secs secs) (from_secs (warmup_secs neg)) fmt False
                             (snd readings));
                         carried = map carried_by tasks
                     in if None \<in> set tasks then None
                        else (case sampler of
                            None \<Rightarrow> None
                          | Some s \<Rightarrow>
                              if p = Release \<and> ((\<exists>t \<in> set tasks. task_panics (the t)) \<or> task_panics s)
                              then Some (Inl (Panic ''a task panicked''), [], carried)
                              else Some (Inr (), case s of Inl _ \<Rightarrow> [] | Inr (ss, ls) \<Rightarrow> ls, carried))))))"

section \<open>The sender: lemmas\<close>

lemma send_loop_sends:
  assumes "send_loop deadline buf flushed its c = Some (c', sent, res)"
  shows "\<exists>k j. sent = concat (replicate k buf) @ take j buf \<and> c' = c + of_nat (k * length buf)
    \<and> ((\<forall>it\<in>set its. snd it = Inr ()) \<longrightarrow> j = 0)"
  using assms
proof (induction deadline buf flushed its c arbitrary: c' sent rule: send_loop.induct)
  case (2 deadline buf flushed now r its c)
  show ?case
  proof (cases "now < deadline \<and> r = Inr ()")
    case False
    then have "(deadline \<le> now \<and> sent = [] \<or> (\<exists>e j. r = Inl (e, j) \<and> sent = take j buf)) \<and> c' = c"
      using "2.prems" by (auto split: if_splits sum.splits)
    then show ?thesis
    proof (elim conjE disjE exE)
      fix e j assume "r = Inl (e, j)" "sent = take j buf" "c' = c"
      then show ?thesis by (intro exI [of _ 0] exI [of _ j]) simp
    qed (auto intro!: exI [of _ 0])
  next
    case True
    then obtain sent1 where s1: "send_loop deadline buf flushed its (counter_add c (of_nat (length buf))) = Some (c', sent1, res)"
      "sent = buf @ sent1" using "2.prems" by auto
    obtain k j where
      "sent1 = concat (replicate k buf) @ take j buf" "c' = counter_add c (of_nat (length buf)) + of_nat (k * length buf)"
      "(\<forall>it\<in>set its. snd it = Inr ()) \<longrightarrow> j = 0"
      using "2.IH" [OF _ _ s1(1)] True by blast
    with s1(2) show ?thesis by (intro exI [of _ "Suc k"] exI [of _ j]) (simp add: counter_add_def algebra_simps)
  qed
qed simp

lemma send_loop_None:
  "send_loop deadline buf flushed its c = None \<longleftrightarrow> (\<forall>it\<in>set its. fst it < deadline \<and> snd it = Inr ())"
  by (induction deadline buf flushed its c rule: send_loop.induct) (auto split: sum.splits)

definition stream_payload :: "start \<Rightarrow> negotiate \<Rightarrow> nat \<Rightarrow> bytes" where
  "stream_payload st neg i = fill_random (replicate (unat (buffer_bytes neg)) 0) (stream_seed st i)"

lemma send_task_None:
  assumes "unat (buffer_bytes neg) < 2 ^ 63"
  shows "send_task st (buffer_bytes neg) i deadline run = None
    \<longleftrightarrow> (\<forall>it\<in>set (snd run). fst it < deadline \<and> snd it = Inr ())"
  using assms by (simp add: send_task_def zeroed_vec_def send_loop_None)

lemma send_task_Some:
  "unat (buffer_bytes neg) < 2 ^ 63 \<Longrightarrow> send_task st (buffer_bytes neg) i deadline run = Some y \<Longrightarrow> \<not> task_panics y"
  by (auto simp: send_task_def zeroed_vec_def task_panics_def)

text \<open>What a stream may carry of its payload: whole copies, and then the beginning of one more.\<close>

definition copies_and_part :: "bytes \<Rightarrow> bytes \<Rightarrow> bool" where
  "copies_and_part buf sent \<longleftrightarrow> (\<exists>k j. sent = concat (replicate k buf) @ take j buf)"

definition whole_copies :: "bytes \<Rightarrow> bytes \<Rightarrow> bool" where
  "whole_copies buf sent \<longleftrightarrow> (\<exists>k. sent = concat (replicate k buf))"

lemma no_copies: "copies_and_part buf []" "whole_copies buf []"
  unfolding copies_and_part_def whole_copies_def by (auto intro: exI [of _ 0])

lemma carried_by_task:
  "copies_and_part (stream_payload st neg i) (carried_by (send_task st (buffer_bytes neg) i deadline run))
    \<and> ((\<forall>it\<in>set (snd run). snd it = Inr ())
       \<longrightarrow> whole_copies (stream_payload st neg i) (carried_by (send_task st (buffer_bytes neg) i deadline run)))"
proof (cases "send_task st (buffer_bytes neg) i deadline run")
  case (Some y)
  show ?thesis
  proof (cases y)
    case (Inr z)
    then obtain c sent res where y: "y = Inr (c, sent, res)" by (cases z) blast
    with Some have "send_loop deadline (stream_payload st neg i) (fst run) (snd run) counter_new = Some (c, sent, res)"
      by (auto simp: send_task_def zeroed_vec_def stream_payload_def split: if_splits)
    from send_loop_sends [OF this] Some y show ?thesis
      by (fastforce simp: carried_by_def copies_and_part_def whole_copies_def)
  qed (use Some no_copies in \<open>simp add: carried_by_def\<close>)
qed (simp add: carried_by_def no_copies)

lemma drive_tcp_carried:
  assumes "drive_tcp p conns st neg fmt quiet t0 runs readings = Some (Inr (), ls, carried)"
  shows "\<exists>deadline. carried = map (\<lambda>i. carried_by (send_task st (buffer_bytes neg) i deadline (runs ! i))) [0..<unat (parallel neg)]"
  using assms by (auto simp: drive_tcp_def Let_def comp_def split: option.splits sum.splits if_splits)

lemma stream_seed_inj:
  assumes "stream_seed st i = stream_seed st j" "i < 2 ^ 64" "j < 2 ^ 64"
  shows "i = j"
proof -
  have "SEED_MIX = SPLITMIX_GAMMA" by (simp add: SEED_MIX_def SPLITMIX_GAMMA_def)
  moreover have "of_nat i * SEED_MIX = of_nat j * SEED_MIX"
    using arg_cong [OF assms(1), of "\<lambda>x. server_seed st XOR x"] by (simp add: stream_seed_def flip: xor.assoc)
  ultimately have "(of_nat i :: u64) = of_nat j" using gamma_mult_inj by simp
  then show ?thesis by (rule of_nat_u64_inj [OF assms(2,3)])
qed

text \<open>The sampler returns once a tick is past its window.\<close>

lemma run_sampler_None:
  "run_sampler Release cs t0 window (from_secs s) fmt quiet ticks = None
    \<longleftrightarrow> (\<forall>tk\<in>set ticks. duration_since (fst tk) t0 < window)"
proof
  assume N: "run_sampler Release cs t0 window (from_secs s) fmt quiet ticks = None"
  show "\<forall>tk\<in>set ticks. duration_since (fst tk) t0 < window"
  proof (rule ccontr)
    assume "\<not> ?thesis"
    then have "\<exists>tk\<in>set ticks. window \<le> duration_since (fst tk) t0" by (meson not_less)
    from run_sampler_Release [OF this] N show False by (metis option.distinct(1))
  qed
next
  obtain b where b: "total Release cs = Some b" using usum_Release unfolding total_def by blast
  have tot: "\<exists>cur. total Release vals = Some cur" for vals using usum_Release unfolding total_def by blast
  assume "\<forall>tk\<in>set ticks. duration_since (fst tk) t0 < window"
  then have "sampler_loop Release t0 window (from_secs s) fmt quiet b t ticks = None" for b t
  proof (induction ticks arbitrary: b t)
    case (Cons tk ticks)
    obtain now vals where tk: "tk = (now, vals)" by fastforce
    obtain cur where "total Release vals = Some cur" using tot by blast
    with Cons tk show ?case by (cases quiet) (simp_all add: Let_def warmup_limit)
  qed simp
  with b show "run_sampler Release cs t0 window (from_secs s) fmt quiet ticks = None" by (simp add: run_sampler_def)
qed

text \<open>The streams that keep \<open>drive\<close> waiting, and a sampler that does.\<close>

definition stream_hangs :: "instant \<Rightarrow> (instant \<times> write_result) list \<Rightarrow> bool" where
  "stream_hangs deadline its \<longleftrightarrow> (\<forall>it\<in>set its. fst it < deadline \<and> snd it = Inr ())"

definition sampler_hangs :: "instant \<Rightarrow> duration \<Rightarrow> tick list \<Rightarrow> bool" where
  "sampler_hangs t0 window ticks \<longleftrightarrow> (\<forall>tk\<in>set ticks. duration_since (fst tk) t0 < window)"

lemma drive_tcp_Release:
  assumes "connect_all (unat (parallel neg)) conns = Some (Inr ())"
    and "instant_add t0 (from_secs (duration_secs neg + warmup_secs neg)) = Some deadline"
    and "unat (buffer_bytes neg) < 2 ^ 63"
  shows "(drive_tcp Release conns st neg fmt quiet t0 runs readings = None
      \<longleftrightarrow> (\<exists>i<unat (parallel neg). stream_hangs deadline (snd (runs ! i)))
          \<or> \<not> quiet \<and> sampler_hangs t0 (from_secs (duration_secs neg + warmup_secs neg)) (snd readings))
    \<and> (\<forall>r ls carried. drive_tcp Release conns st neg fmt quiet t0 runs readings = Some (r, ls, carried) \<longrightarrow> r = Inr ())"
proof -
  let ?n = "unat (parallel neg)" and ?win = "from_secs (duration_secs neg + warmup_secs neg)"
  define tasks where "tasks = map (\<lambda>i. send_task st (buffer_bytes neg) i deadline (runs ! i)) [0..<?n]"
  define sampler where "sampler = (if quiet then Some (Inr ([], [])) else
    run_sampler Release (fst readings) t0 ?win (from_secs (warmup_secs neg)) fmt False (snd readings))"
  have "None \<in> set tasks \<longleftrightarrow> (\<exists>i<?n. send_task st (buffer_bytes neg) i deadline (runs ! i) = None)"
    by (force simp: tasks_def)
  then have tasks: "None \<in> set tasks \<longleftrightarrow> (\<exists>i<?n. stream_hangs deadline (snd (runs ! i)))"
    by (simp add: stream_hangs_def send_task_None [OF assms(3)])
  have calm: "\<not> task_panics (the t)" if t: "t \<in> set tasks" "None \<notin> set tasks" for t
  proof -
    have "t \<noteq> None" using t by metis
    then obtain y where y: "t = Some y" by blast
    moreover obtain i where "t = send_task st (buffer_bytes neg) i deadline (runs ! i)" using t(1) by (auto simp: tasks_def)
    ultimately show ?thesis using send_task_Some [OF assms(3)] by (metis option.sel)
  qed
  have samp: "sampler = None \<longleftrightarrow> \<not> quiet \<and> sampler_hangs t0 ?win (snd readings)"
    by (simp add: sampler_def sampler_hangs_def run_sampler_None)
  have calm': "\<exists>z. s = Inr z" if "sampler = Some s" for s
  proof (cases "quiet")
    case False
    with that have "\<exists>tk\<in>set (snd readings). ?win \<le> duration_since (fst tk) t0"
      using run_sampler_None [of "fst readings" t0 ?win "warmup_secs neg" fmt False "snd readings"]
      by (auto simp: sampler_def not_less)
    from run_sampler_Release [OF this, of "fst readings" "warmup_secs neg" fmt False] that False
    show ?thesis by (auto simp: sampler_def)
  qed (use that in \<open>auto simp: sampler_def\<close>)
  have eq: "drive_tcp Release conns st neg fmt quiet t0 runs readings =
      (if None \<in> set tasks then None else case sampler of None \<Rightarrow> None | Some s \<Rightarrow>
         if (\<exists>t \<in> set tasks. task_panics (the t)) \<or> task_panics s
         then Some (Inl (Panic ''a task panicked''), [], map carried_by tasks)
         else Some (Inr (), case s of Inl _ \<Rightarrow> [] | Inr (ss, ls) \<Rightarrow> ls, map carried_by tasks))"
    unfolding drive_tcp_def assms(1) uadd_Release option.case sum.case assms(2) Let_def tasks_def sampler_def
    by (simp cong: option.case_cong)
  show ?thesis
  proof (cases "None \<in> set tasks")
    case False
    show ?thesis
    proof (cases sampler)
      case (Some s)
      with calm' obtain z where "s = Inr z" by blast
      with Some False calm tasks samp show ?thesis unfolding eq by (auto simp: task_panics_def)
    next
      case None
      then have "drive_tcp Release conns st neg fmt quiet t0 runs readings = None" unfolding eq by simp
      with False None tasks samp show ?thesis by simp
    qed
  qed (use tasks in \<open>simp add: eq\<close>)
qed

text \<open>
  C31. When the TCP sender ends (release build, its streams connected, a deadline that the clock can
  hold, buffers of less than \<open>2 ^ 63\<close> bytes). It waits for every stream
  and, unless it is quiet, for the sampler: \<open>drive\<close> never returns if and only if one of its streams
  never comes back to its deadline check after the deadline and never fails - a \<open>write_all\<close> that
  stalls keeps it waiting past the deadline, with no bound - or the sampler never ticks past the
  test. And whenever it returns it returns \<open>Ok\<close>, whatever became of its streams, even if every one
  of them failed, where \<open>docs/tcp.md\<close> \<section>6 has the test abort when all streams drop.
\<close>

theorem drive_tcp_completes:
  assumes "connect_all (unat (parallel neg)) conns = Some (Inr ())"
    and "instant_add t0 (from_secs (duration_secs neg + warmup_secs neg)) = Some deadline"
    and "unat (buffer_bytes neg) < 2 ^ 63"
  shows "(drive_tcp Release conns st neg fmt quiet t0 runs readings = None
      \<longleftrightarrow> (\<exists>i<unat (parallel neg). stream_hangs deadline (snd (runs ! i)))
          \<or> \<not> quiet \<and> sampler_hangs t0 (from_secs (duration_secs neg + warmup_secs neg)) (snd readings))
    \<and> (\<forall>r ls carried. drive_tcp Release conns st neg fmt quiet t0 runs readings = Some (r, ls, carried) \<longrightarrow> r = Inr ())"
  by (rule drive_tcp_Release [OF assms])

text \<open>Two streams that both fail, one part-way through its buffer, and two of which one stalls.\<close>

abbreviation "two_conns \<equiv> [(Inr (), Inr ()), (Inr (), Inr ())] :: (unit io_result \<times> unit io_result) list"

abbreviation failing_runs :: "(unit io_result \<times> (instant \<times> write_result) list) list" where
  "failing_runs \<equiv> [(Inr (), [(0, Inl (IoError (Os 104) ''reset'', 3))]), (Inr (), [(0, Inr ()), (1, Inl (IoError (Os 104) ''reset'', 0))])]"

abbreviation stalling_runs :: "(unit io_result \<times> (instant \<times> write_result) list) list" where
  "stalling_runs \<equiv> [(Inr (), [(0, Inr ()), (2000000000, Inr ())]), (Inr (), [(0, Inr ())])]"

lemma two_ready:
  "connect_all (unat (parallel tcp_negotiate)) two_conns = Some (Inr ())"
  "instant_add 0 (from_secs (duration_secs tcp_negotiate + warmup_secs tcp_negotiate)) = Some 2000000000"
  "unat (buffer_bytes tcp_negotiate) < 2 ^ 63"
  by (simp_all only: two_streams, simp_all add: instant_add_def from_secs_def)

lemma failing_hang:
  "\<not> ((\<exists>i<unat (parallel tcp_negotiate). stream_hangs 2000000000 (snd (failing_runs ! i)))
      \<or> \<not> False \<and> sampler_hangs 0 (from_secs (duration_secs tcp_negotiate + warmup_secs tcp_negotiate)) [(2000000000, [0, 16])])"
  by (simp only: two_streams) (simp add: Ex_less_Suc stream_hangs_def sampler_hangs_def from_secs_def duration_since_def)

lemma stalling_hangs:
  "(\<exists>i<unat (parallel tcp_negotiate). stream_hangs 2000000000 (snd (stalling_runs ! i)))"
  by (simp only: two_streams) (intro exI [of _ 1], simp add: stream_hangs_def)

theorem drive_tcp_completes_witness:
  "(\<exists>ls carried. drive_tcp Release two_conns \<lparr>data_port = 1, server_seed = 2\<rparr> tcp_negotiate Mbps False 0 failing_runs
       ([0, 0], [(2000000000, [0, 16])]) = Some (Inr (), ls, carried))
   \<and> drive_tcp Release two_conns \<lparr>data_port = 1, server_seed = 2\<rparr> tcp_negotiate Mbps False 0 stalling_runs
       ([0, 0], [(2000000000, [0, 16])]) = None"
  using drive_tcp_completes [OF two_ready, of "\<lparr>data_port = 1, server_seed = 2\<rparr>" Mbps False failing_runs "([0, 0], [(2000000000, [0, 16])])"]
    drive_tcp_completes [OF two_ready, of "\<lparr>data_port = 1, server_seed = 2\<rparr>" Mbps False stalling_runs "([0, 0], [(2000000000, [0, 16])])"]
    failing_hang stalling_hangs
  by (metis fst_conv snd_conv not_None_eq prod_cases3)

lemma failing_returns:
  "\<exists>ls carried. drive_tcp Release two_conns \<lparr>data_port = 1, server_seed = 2\<rparr> tcp_negotiate Mbps False 0 failing_runs
       ([0, 0], [(2000000000, [0, 16])]) = Some (Inr (), ls, carried)"
  using drive_tcp_Release [OF two_ready, of "\<lparr>data_port = 1, server_seed = 2\<rparr>" Mbps False failing_runs "([0, 0], [(2000000000, [0, 16])])"]
    failing_hang
  by (metis fst_conv snd_conv not_None_eq prod_cases3)

text \<open>
  C32. What the TCP streams carry, for buffers of at least 8 bytes (the client's are 64 KiB): each
  stream carries whole copies of its own payload buffer and then at most the beginning of one more,
  the part of a \<open>write_all\<close> that failed; only whole copies when none of its writes failed. No two
  streams of a session have the same payload.
\<close>

theorem drive_tcp_payloads:
  assumes "drive_tcp p conns st neg fmt quiet t0 runs readings = Some (Inr (), ls, carried)"
    and "8 \<le> unat (buffer_bytes neg)"
  shows "length carried = unat (parallel neg)
    \<and> (\<forall>i < unat (parallel neg). copies_and_part (stream_payload st neg i) (carried ! i)
        \<and> ((\<forall>it\<in>set (snd (runs ! i)). snd it = Inr ()) \<longrightarrow> whole_copies (stream_payload st neg i) (carried ! i)))
    \<and> inj_on (stream_payload st neg) {0..<unat (parallel neg)}"
proof -
  obtain deadline where c: "carried = map (\<lambda>i. carried_by (send_task st (buffer_bytes neg) i deadline (runs ! i)))
      [0..<unat (parallel neg)]" using drive_tcp_carried [OF assms(1)] by blast
  have "\<forall>i < unat (parallel neg). copies_and_part (stream_payload st neg i) (carried ! i)
        \<and> ((\<forall>it\<in>set (snd (runs ! i)). snd it = Inr ()) \<longrightarrow> whole_copies (stream_payload st neg i) (carried ! i))"
    using carried_by_task by (simp add: c)
  moreover have "inj_on (stream_payload st neg) {0..<unat (parallel neg)}"
  proof (rule inj_onI)
    fix i j assume ij: "i \<in> {0..<unat (parallel neg)}" "j \<in> {0..<unat (parallel neg)}"
      and eq: "stream_payload st neg i = stream_payload st neg j"
    have "unat (parallel neg) < 2 ^ 32" using unsigned_less [of "parallel neg", where 'a = nat] by simp
    then have lt: "i < 2 ^ 64" "j < 2 ^ 64" using ij by simp_all
    have "payload_word (stream_seed st i) 0 = payload_word (stream_seed st j) 0"
      using fill_random_word [of 0 "replicate (unat (buffer_bytes neg)) 0"] eq assms(2)
      unfolding stream_payload_def by (metis length_replicate mult_0_right drop0 mult.right_neutral u64_to_le_inj One_nat_def)
    then have "stream_seed st i = stream_seed st j" by (rule payload_word_inj_seed)
    then show "i = j" by (rule stream_seed_inj [OF _ lt])
  qed
  ultimately show ?thesis by (simp add: c)
qed

theorem drive_tcp_payloads_witness:
  "\<exists>ls carried. drive_tcp Release two_conns \<lparr>data_port = 1, server_seed = 2\<rparr> tcp_negotiate Mbps False 0 failing_runs
       ([0, 0], [(2000000000, [0, 16])]) = Some (Inr (), ls, carried) \<and> length carried = 2"
proof -
  obtain ls carried where d: "drive_tcp Release two_conns \<lparr>data_port = 1, server_seed = 2\<rparr> tcp_negotiate Mbps False 0 failing_runs
       ([0, 0], [(2000000000, [0, 16])]) = Some (Inr (), ls, carried)"
    using failing_returns by blast
  from drive_tcp_payloads [OF d] d show ?thesis by auto
qed

end
