(* ===== verification/Tcp.thy ===== *)
theory Tcp
  imports TcpClient
begin

text \<open>
  The two ends of \<open>src/src/modes/tcp.rs\<close> together: what the receiver of \<open>TcpServer\<close> counts of
  the bytes that the sender of \<open>TcpClient\<close> has written.
\<close>

section \<open>What a stream delivers\<close>

text \<open>The bytes read from one stream, up to its end or its first error.\<close>

fun read_on :: "nat \<Rightarrow> tcp_event list \<Rightarrow> bytes" where
  "read_on i [] = []"
| "read_on i (ReadOn j r # evs) =
     (if j = i
      then (case r of Inl e \<Rightarrow> [] | Inr got \<Rightarrow> if got = [] then [] else take READ_BUF got @ read_on i evs)
      else read_on i evs)"
| "read_on i (_ # evs) = read_on i evs"

lemma stream_bytes_read_on:
  "stream_bytes ended n evs = (\<Sum>i\<in>{0..<n} - ended. length (read_on i evs))"
proof (induction ended n evs rule: stream_bytes.induct)
  case (2 ended n i r evs)
  have other: "(\<Sum>j\<in>S. length (read_on j (ReadOn i r # evs))) = (\<Sum>j\<in>S. length (read_on j evs))"
    if "i \<notin> S" for S using that by (intro sum.cong) auto
  show ?case
  proof (cases "n \<le> i \<or> i \<in> ended")
    case True
    with "2.IH"(1) other show ?thesis by auto
  next
    case False
    then have split: "{0..<n} - ended = insert i ({0..<n} - insert i ended)" by auto
    have "(\<Sum>j\<in>{0..<n} - ended. length (read_on j (ReadOn i r # evs)))
        = length (read_on i (ReadOn i r # evs)) + (\<Sum>j\<in>{0..<n} - insert i ended. length (read_on j evs))"
      unfolding split by (subst sum.insert) (simp_all add: other)
    moreover have "(\<Sum>j\<in>{0..<n} - ended. length (read_on j evs))
        = length (read_on i evs) + (\<Sum>j\<in>{0..<n} - insert i ended. length (read_on j evs))"
      unfolding split by (subst sum.insert) simp_all
    ultimately show ?thesis
      using False 2 by (auto split: sum.split simp: min.commute)
  qed
qed simp_all

text \<open>A network that delivers, of each stream, a part from its beginning.\<close>

definition tcp_network :: "bytes list \<Rightarrow> tcp_event list \<Rightarrow> bool" where
  "tcp_network carried evs \<longleftrightarrow> (\<forall>i<length carried. \<exists>rest. carried ! i = read_on i evs @ rest)"

lemma network_bytes:
  assumes "tcp_network carried evs"
  shows "stream_bytes {} (length carried) evs \<le> sum_list (map length carried)"
proof -
  have "stream_bytes {} (length carried) evs = (\<Sum>i\<in>{0..<length carried}. length (read_on i evs))"
    by (simp add: stream_bytes_read_on)
  also have "\<dots> \<le> (\<Sum>i\<in>{0..<length carried}. length (carried ! i))"
    using assms by (intro sum_mono) (fastforce simp: tcp_network_def)
  also have "\<dots> = sum_list (map length carried)" by (simp add: sum_list_sum_nth)
  finally show ?thesis .
qed

section \<open>What the receiver reports of it\<close>

lemma first_stop:
  assumes "\<not> no_stop evs"
  shows "\<exists>xs ts ys. evs = xs @ StopRead ts # ys \<and> no_stop xs"
proof -
  have "\<exists>ev\<in>set evs. \<exists>ts. ev = StopRead ts" using assms by (auto simp: no_stop_def)
  from split_list_first_prop [OF this] show ?thesis by (auto simp: no_stop_def)
qed

lemma final_at_most:
  assumes "tcp_steps p t0 st evs = Inr st'" "tr_final st = None" "tr_final st' = Some f"
    and "streams_abs st n ended b" "b + stream_bytes ended n evs < 2 ^ 64"
  shows "unat (fst f) \<le> b + stream_bytes ended n evs"
proof -
  have "\<not> no_stop evs" using tcp_steps_untaken(2) [OF assms(1)] assms(2,3) by auto
  then obtain xs ts ys where x: "evs = xs @ StopRead ts # ys" "no_stop xs" using first_stop by blast
  then have le: "stream_bytes ended n xs \<le> stream_bytes ended n evs" by (simp add: stream_bytes_append)
  have lt: "b + stream_bytes ended n xs < 2 ^ 64" using le assms(5) by simp
  from final_snapshot [OF assms(1) [unfolded x(1)] x(2) assms(2,4) lt] assms(3) le show ?thesis by auto
qed

lemma serve_tcp_at_most:
  assumes "serve_tcp Release neg fmt accepts t0 evs = Some (Inr (r, ls))"
    and "stream_bytes {} (unat (parallel neg)) evs < 2 ^ 64"
  shows "unat (r_bytes r) \<le> stream_bytes {} (unat (parallel neg)) evs"
proof -
  obtain st' ss w f where s: "tcp_steps Release t0 (tcp_rx_init (unat (parallel neg))) evs = Inr st'"
    "tr_final st' = Some f" "r = tcp_result ss w f" using serve_tcp_snapshots [OF assms(1)] by blast
  have "unat (fst f) \<le> 0 + stream_bytes {} (unat (parallel neg)) evs"
    using assms(2) by (intro final_at_most [OF s(1) _ s(2) streams_abs_init]) simp_all
  then show ?thesis using s(3) by (simp add: tcp_result_def Let_def unat_saturating_sub)
qed

lemma tcp_counted:
  assumes "drive_tcp p conns st neg fmt quiet t0 runs readings = Some (Inr (), ls, carried)"
    and "serve_tcp Release neg fmt' accepts u0 evs = Some (Inr (r, rls))"
    and "tcp_network carried evs" and "sum_list (map length carried) < 2 ^ 64"
  shows "unat (r_bytes r) \<le> sum_list (map length carried)"
proof -
  have "length carried = unat (parallel neg)" using drive_tcp_carried [OF assms(1)] by auto
  with network_bytes [OF assms(3)] assms(4) serve_tcp_at_most [OF assms(2)] show ?thesis by simp
qed

end
