(* ===== verification/FileServer.thy ===== *)
theory FileServer
  imports Meter Event_Loop
begin

text \<open>
  \<open>src/src/modes/file.rs\<close>, the receiver: two tasks over one counter, \<open>serve\<close> and its sampler
  \<open>sample_until_done\<close>. The model is the order in which they act (\<open>file_event\<close>), and
  \<open>serve_file\<close> gives \<open>None\<close> while it waits for either. After an error of the stream
  \<open>serve\<close> returns at once and leaves the sampler behind.

  The lemmas keep the counter, the bytes received and the sampler's readings together
  (\<open>file_inv\<close>): a result always reports exactly the negotiated length, and a transfer cut
  short leaves the receiver waiting forever.
\<close>

section \<open>The receiver\<close>

definition BUF :: nat where
  "BUF = 256 * 1024"

definition file_readout :: "format \<Rightarrow> duration \<Rightarrow> f64 \<Rightarrow> string" where
  "file_readout fmt elapsed bps =
     ''['' @ pad_left (CHR '' '') 5 (fixed 1 (as_secs_f64 elapsed)) @ ''s] '' @ render fmt bps"

text \<open>The rate of an interval: 0 over no time.\<close>

definition interval_rate :: "u64 \<Rightarrow> f64 \<Rightarrow> f64" where
  "interval_rate bytes secs =
     (if flt (Fin 0) secs then fdiv (fmul (u64_to_f64 bytes) (Fin 8)) secs else Fin 0)"

text \<open>\<open>sample_until_done\<close> after its set-up: \<open>None\<close> while it waits for a tick.\<close>

fun sample_until_done ::
  "profile \<Rightarrow> instant \<Rightarrow> format \<Rightarrow> u64 \<Rightarrow> u64 \<Rightarrow> instant \<Rightarrow> tick list \<Rightarrow> (sample list \<times> string list) outcome option" where
  "sample_until_done p t0 fmt total_len last_bytes last_t [] = None"
| "sample_until_done p t0 fmt total_len last_bytes last_t ((now, counters) # ticks) =
     (case usum p counters of
        None \<Rightarrow> Some (Inl (Panic ''arithmetic overflow''))
      | Some cur \<Rightarrow>
          (let interval = saturating_sub cur last_bytes;
               secs = as_secs_f64 (duration_since now last_t);
               bps = interval_rate interval secs;
               line = file_readout fmt (duration_since now t0) bps;
               s = \<lparr>s_t_secs = as_secs_f64 (duration_since now t0), s_bytes = interval,
                    s_bits_per_sec = bps, s_packets_lost = None, s_jitter_ms = None\<rparr>
           in if total_len \<le> cur then Some (Inr ([s], [line]))
              else (case sample_until_done p t0 fmt total_len cur now ticks of
                      None \<Rightarrow> None
                    | Some (Inl e) \<Rightarrow> Some (Inl e)
                    | Some (Inr (ss, ls)) \<Rightarrow> Some (Inr (s # ss, line # ls)))))"

record file_rx =
  fr_received :: u64
  fr_counter :: counter
  fr_eof :: bool
  fr_stopped :: "instant option"
  fr_ticks :: "tick list"

datatype file_event = FileRead "bytes io_result" | LoopOver instant | FileTick instant

text \<open>
  The loop condition, the body of the loop, and the clock reading behind it. The read
  fills at most the bytes still wanted.
\<close>

definition file_reading :: "u64 \<Rightarrow> file_rx \<Rightarrow> bool" where
  "file_reading total_len st \<longleftrightarrow> \<not> fr_eof st \<and> fr_received st < total_len"

definition file_want :: "u64 \<Rightarrow> u64 \<Rightarrow> nat" where
  "file_want total_len received = min (unat (total_len - received)) BUF"

definition file_step :: "profile \<Rightarrow> u64 \<Rightarrow> file_rx \<Rightarrow> file_event \<Rightarrow> file_rx outcome" where
  "file_step p total_len st ev =
     (case ev of
        FileRead r \<Rightarrow>
          if file_reading total_len st then
            (case r of
               Inl e \<Rightarrow> Inl (Io e)
             | Inr got \<Rightarrow>
                 (let n = length (take (file_want total_len (fr_received st)) got)
                  in if n = 0 then Inr (st\<lparr>fr_eof := True\<rparr>)
                     else and_then (or_panic (uadd p (fr_received st) (of_nat n))) (\<lambda>received.
                       Inr (st\<lparr>fr_received := received, fr_counter := counter_add (fr_counter st) (of_nat n)\<rparr>))))
          else Inr st
      | LoopOver now \<Rightarrow>
          Inr (if \<not> file_reading total_len st \<and> fr_stopped st = None then st\<lparr>fr_stopped := Some now\<rparr> else st)
      | FileTick now \<Rightarrow> Inr (st\<lparr>fr_ticks := fr_ticks st @ [(now, [fr_counter st])]\<rparr>))"

definition file_result :: "sample list \<Rightarrow> u64 \<Rightarrow> f64 \<Rightarrow> test_result" where
  "file_result ss received secs =
     \<lparr>role = Receive, r_bytes = received, r_duration_secs = secs,
      r_bits_per_sec = bits_per_sec received secs,
      r_bytes_per_sec = (if flt (Fin 0) secs then fdiv (u64_to_f64 received) secs else Fin 0),
      packets_expected = None, packets_received = None, packets_lost = None,
      loss_ratio = None, jitter_ms = None, samples = ss\<rparr>"

definition file_done ::
  "profile \<Rightarrow> format \<Rightarrow> instant \<Rightarrow> u64 \<Rightarrow> file_rx \<Rightarrow> (test_result \<times> string list) option" where
  "file_done p fmt t0 total_len st = do {
     now \<leftarrow> fr_stopped st;
     sampled \<leftarrow> sample_until_done p t0 fmt total_len 0 t0 (fr_ticks st);
     let (ss, ls) = (case sampled of Inl e \<Rightarrow> ([], []) | Inr y \<Rightarrow> y);
     Some (file_result ss (fr_received st) (as_secs_f64 (duration_since now t0)), ls)
   }"

fun file_run ::
  "profile \<Rightarrow> format \<Rightarrow> instant \<Rightarrow> u64 \<Rightarrow> file_rx \<Rightarrow> file_event list
     \<Rightarrow> (test_result \<times> string list) outcome option" where
  "file_run p fmt t0 total_len st evs =
     (case file_done p fmt t0 total_len st of
        Some y \<Rightarrow> Some (Inr y)
      | None \<Rightarrow>
          (case evs of
             [] \<Rightarrow> None
           | ev # evs' \<Rightarrow>
               (case file_step p total_len st ev of
                  Inl e \<Rightarrow> Some (Inl e)
                | Inr st' \<Rightarrow> file_run p fmt t0 total_len st' evs')))"

declare file_run.simps [simp del]

definition file_rx_init :: file_rx where
  "file_rx_init =
     \<lparr>fr_received = 0, fr_counter = counter_new, fr_eof = False, fr_stopped = None, fr_ticks = []\<rparr>"

definition file_expected :: "negotiate \<Rightarrow> u64" where
  "file_expected neg = (case file_len neg of None \<Rightarrow> 0 | Some n \<Rightarrow> n)"

text \<open>\<open>accepted\<close> is the outcome of accepting the connection.\<close>

definition serve_file ::
  "profile \<Rightarrow> negotiate \<Rightarrow> format \<Rightarrow> unit io_result \<Rightarrow> instant \<Rightarrow> file_event list
     \<Rightarrow> (test_result \<times> string list) outcome option" where
  "serve_file p neg fmt accepted t0 evs =
     (case accepted of
        Inl e \<Rightarrow> Some (Inl (Io e))
      | Inr _ \<Rightarrow> file_run p fmt t0 (file_expected neg) file_rx_init evs)"

section \<open>The receiver: lemmas\<close>

abbreviation file_steps :: "profile \<Rightarrow> u64 \<Rightarrow> file_rx \<Rightarrow> file_event list \<Rightarrow> file_rx outcome" where
  "file_steps p total_len \<equiv> run_steps (file_step p total_len)"

interpretation frx: event_loop "file_step p total_len" "file_done p fmt t0 total_len"
    "file_run p fmt t0 total_len" for p total_len fmt t0
  by unfold_locales (subst file_run.simps, simp)+

definition ticks_below :: "u64 \<Rightarrow> tick list \<Rightarrow> bool" where
  "ticks_below c ticks \<longleftrightarrow> (\<forall>tk\<in>set ticks. \<exists>d. snd tk = [d] \<and> d \<le> c)"

text \<open>The counter follows the bytes received, and neither passes the negotiated length.\<close>

definition file_inv :: "u64 \<Rightarrow> file_rx \<Rightarrow> bool" where
  "file_inv total_len st \<longleftrightarrow>
     fr_counter st = fr_received st \<and> fr_received st \<le> total_len \<and> ticks_below (fr_received st) (fr_ticks st)"

lemma ticks_below_simps [simp]:
  "ticks_below c []" "ticks_below c (ts @ [(now, [d])]) \<longleftrightarrow> ticks_below c ts \<and> d \<le> c"
  by (auto simp: ticks_below_def)

lemma usum_single: "usum p [c] = Some (c :: u64)"
proof -
  have "unat (0::u64) + unat c < 2 ^ LENGTH(64)" using unsigned_less [of c, where 'a = nat] by simp
  then show ?thesis by (simp add: usum_def uadd_ok)
qed

lemma sample_until_done_reached:
  assumes "sample_until_done p t0 fmt total_len b t ticks = Some y" "ticks_below c ticks"
  shows "total_len \<le> c"
  using assms
proof (induction p t0 fmt total_len b t ticks arbitrary: y rule: sample_until_done.induct)
  case (2 p t0 fmt total_len b t now counters ticks)
  then obtain d where d: "counters = [d]" "d \<le> c" by (auto simp: ticks_below_def)
  show ?case
  proof (cases "total_len \<le> d")
    case True
    with d(2) show ?thesis by simp
  next
    case False
    then obtain y' where "sample_until_done p t0 fmt total_len d now ticks = Some y'"
      using "2.prems"(1) by (auto simp: d(1) usum_single Let_def split: option.splits)
    with "2.IH" [of d] "2.prems"(2) False show ?thesis by (simp add: d(1) usum_single ticks_below_def)
  qed
qed simp

lemma sample_until_done_returns:
  assumes "\<forall>tk\<in>set ticks. \<exists>d. snd tk = [d]" "\<exists>tk\<in>set ticks. snd tk = [d] \<and> total_len \<le> d"
  shows "\<exists>y. sample_until_done p t0 fmt total_len b t ticks = Some (Inr y)"
  using assms
proof (induction ticks arbitrary: b t)
  case (Cons tk ticks)
  then obtain now e where tk: "tk = (now, [e])" by (cases tk) auto
  show ?case
  proof (cases "total_len \<le> e")
    case True
    then show ?thesis by (simp add: tk usum_single Let_def)
  next
    case False
    then obtain ss ls where "sample_until_done p t0 fmt total_len e now ticks = Some (Inr (ss, ls))"
      using Cons.IH [of e now] Cons.prems by (auto simp: tk)
    with False show ?thesis by (simp add: tk usum_single Let_def)
  qed
qed simp

lemma ticks_below_mono: "ticks_below c ticks \<Longrightarrow> c \<le> d \<Longrightarrow> ticks_below d ticks"
  unfolding ticks_below_def by (meson order_trans)

lemma file_read_advance:
  assumes "received < total_len" "n \<le> file_want total_len received"
  shows "uadd p received (of_nat n) = Some (received + of_nat n)"
    and "unat (received + of_nat n) = unat received + n" and "received + of_nat n \<le> total_len"
    and "received \<le> received + of_nat n"
proof -
  have le: "unat received + n \<le> unat total_len"
    using assms by (auto simp: file_want_def word_less_nat_alt unat_sub word_le_nat_alt)
  moreover have b: "unat total_len < 2 ^ 64" using unsigned_less [of total_len, where 'a = nat] by simp
  ultimately have "n < 2 ^ 64" by simp
  then have un: "unat (of_nat n :: u64) = n" by (rule unat_of_nat_u64)
  then have lt: "unat received + unat (of_nat n :: u64) < 2 ^ LENGTH(64)" using le b by simp
  show "uadd p received (of_nat n) = Some (received + of_nat n)" by (rule uadd_ok [OF lt])
  show s: "unat (received + of_nat n) = unat received + n" using unat_add_exact [OF lt] un by simp
  show "received + of_nat n \<le> total_len" "received \<le> received + of_nat n"
    using le s by (simp_all add: word_le_nat_alt)
qed

lemma file_step_inv:
  assumes "file_step p total_len st ev = Inr st'" "file_inv total_len st"
  shows "file_inv total_len st'"
proof (cases ev)
  case (FileRead r)
  show ?thesis
  proof (cases "file_reading total_len st \<and> (\<exists>got. r = Inr got)")
    case True
    then obtain got where got: "r = Inr got" by blast
    let ?n = "length (take (file_want total_len (fr_received st)) got)"
    have lt: "fr_received st < total_len" using True by (simp add: file_reading_def)
    have n: "?n \<le> file_want total_len (fr_received st)" by simp
    note A = file_read_advance [OF lt n]
    show ?thesis
    proof (cases "?n = 0")
      case True
      with assms FileRead got \<open>file_reading total_len st \<and> _\<close> show ?thesis
        by (simp only: file_step_def file_event.case sum.case Let_def if_True) (auto simp: file_inv_def)
    next
      case False
      then have "st' = st\<lparr>fr_received := fr_received st + of_nat ?n,
          fr_counter := counter_add (fr_counter st) (of_nat ?n)\<rparr>"
        using assms(1) True A(1) by (simp only: file_step_def FileRead got file_event.case sum.case Let_def
            if_True if_False or_panic_simps and_then_simps sum.inject)
      moreover have inv: "fr_counter st = fr_received st" "ticks_below (fr_received st) (fr_ticks st)"
        using assms(2) by (auto simp: file_inv_def)
      ultimately show ?thesis using A(3) ticks_below_mono [OF inv(2) A(4)]
        by (simp add: file_inv_def counter_add_def inv(1) del: length_take)
    qed
  next
    case False
    with assms FileRead show ?thesis by (auto simp: file_step_def split: if_splits sum.splits)
  qed
qed (use assms in \<open>auto simp: file_step_def file_inv_def split: if_splits\<close>)

lemma file_done_reached:
  assumes "file_done p fmt t0 total_len st = Some (r, ls)" "file_inv total_len st"
  shows "r_bytes r = total_len \<and> r_bits_per_sec r = bits_per_sec total_len (r_duration_secs r)"
proof -
  obtain now y ss where d: "sample_until_done p t0 fmt total_len 0 t0 (fr_ticks st) = Some y"
    "r = file_result ss (fr_received st) (as_secs_f64 (duration_since now t0))"
    using assms(1) by (auto simp: file_done_def Let_def split: Option.bind_splits prod.splits)
  have "ticks_below (fr_received st) (fr_ticks st)" using assms(2) by (simp add: file_inv_def)
  then have "total_len \<le> fr_received st" by (rule sample_until_done_reached [OF d(1)])
  then have "fr_received st = total_len" using assms(2) by (simp add: file_inv_def)
  with d(2) show ?thesis by (simp add: file_result_def)
qed

lemma file_run_result:
  assumes "file_run p fmt t0 total_len st evs = Some (Inr (r, ls))" "file_inv total_len st"
  shows "r_bytes r = total_len \<and> r_bits_per_sec r = bits_per_sec total_len (r_duration_secs r)"
  using frx.run_invariant [where I = "file_inv total_len", OF assms] file_step_inv file_done_reached by metis

lemma file_inv_init: "file_inv total_len file_rx_init"
  by (simp add: file_inv_def file_rx_init_def counter_new_def ticks_below_def)

section \<open>A transfer cut short\<close>

text \<open>
  The reads of a transfer that ends, or pauses, before the negotiated length: \<open>b\<close> bytes
  are in, and the stream ends (an empty read) while bytes are missing.
\<close>

fun cut_short :: "nat \<Rightarrow> nat \<Rightarrow> file_event list \<Rightarrow> bool" where
  "cut_short len b [] = True"
| "cut_short len b (FileRead (Inl e) # evs) = False"
| "cut_short len b (FileRead (Inr got) # evs) =
     (got = [] \<or> b + min BUF (length got) < len \<and> cut_short len (b + min BUF (length got)) evs)"
| "cut_short len b (_ # evs) = cut_short len b evs"

lemma file_done_short:
  assumes "file_inv total_len st" "fr_received st < total_len"
  shows "file_done p fmt t0 total_len st = None"
proof (rule ccontr)
  assume "file_done p fmt t0 total_len st \<noteq> None"
  then obtain y where "sample_until_done p t0 fmt total_len 0 t0 (fr_ticks st) = Some y"
    by (auto simp: file_done_def split: Option.bind_splits)
  moreover have "ticks_below (fr_received st) (fr_ticks st)" using assms(1) by (auto simp: file_inv_def)
  ultimately show False using sample_until_done_reached assms(2) by fastforce
qed

lemma file_step_after_eof:
  assumes "fr_eof st"
  shows "\<exists>st'. file_step p total_len st ev = Inr st' \<and> fr_eof st' \<and> fr_received st' = fr_received st"
  using assms by (auto simp: file_step_def file_reading_def split: file_event.split)

lemma file_step_read:
  assumes "\<not> fr_eof st" "unat (fr_received st) + min BUF (length got) < unat total_len" "got \<noteq> []"
  shows "\<exists>st'. file_step p total_len st (FileRead (Inr got)) = Inr st' \<and> \<not> fr_eof st'
    \<and> unat (fr_received st') = unat (fr_received st) + min BUF (length got)"
proof -
  let ?w = "file_want total_len (fr_received st)" and ?n = "length (take (file_want total_len (fr_received st)) got)"
  have lt: "fr_received st < total_len" using assms(2) by (simp add: word_less_nat_alt)
  then have "unat (total_len - fr_received st) = unat total_len - unat (fr_received st)"
    by (simp add: unat_sub)
  then have n: "?n = min BUF (length got)" using assms(2) by (auto simp: file_want_def min_def split: if_splits)
  have "?n \<noteq> 0" using assms(3) unfolding n by (cases got) (simp_all add: BUF_def)
  moreover have "?n \<le> ?w" by simp
  note A = file_read_advance [OF lt this]
  ultimately show ?thesis
    using assms(1) lt A(1,2) unfolding n [symmetric]
    by (simp only: file_step_def file_reading_def file_event.case sum.case Let_def if_True if_False
        or_panic_simps and_then_simps simp_thms) simp
qed

lemma file_run_short:
  assumes "file_inv total_len st" "fr_received st < total_len"
    and "fr_eof st \<or> cut_short (unat total_len) (unat (fr_received st)) evs"
  shows "file_run p fmt t0 total_len st evs = None"
  using assms
proof (induction evs arbitrary: st)
  case Nil
  then show ?case by (simp add: frx.run_waiting file_done_short)
next
  case (Cons ev evs)
  have "\<exists>st'. file_step p total_len st ev = Inr st' \<and> fr_received st' < total_len
      \<and> (fr_eof st' \<or> cut_short (unat total_len) (unat (fr_received st')) evs)"
  proof (cases "fr_eof st")
    case True
    with file_step_after_eof [OF True, of p total_len ev] Cons.prems(2) show ?thesis by auto
  next
    case False
    with Cons.prems(3) have cs: "cut_short (unat total_len) (unat (fr_received st)) (ev # evs)" by simp
    show ?thesis
    proof (cases ev)
      case (FileRead r)
      with cs obtain got where r: "r = Inr got" by (cases r) simp_all
      show ?thesis
      proof (cases "got = []")
        case True
        with FileRead r False Cons.prems(2) show ?thesis by (simp add: file_step_def file_reading_def)
      next
        case ne: False
        with cs FileRead r have b: "unat (fr_received st) + min BUF (length got) < unat total_len"
          "cut_short (unat total_len) (unat (fr_received st) + min BUF (length got)) evs" by simp_all
        from file_step_read [OF False b(1) ne, of p] b FileRead r show ?thesis
          by (auto simp: word_less_nat_alt)
      qed
    qed (use cs Cons.prems(2) False in \<open>simp_all add: file_step_def\<close>)
  qed
  then obtain st' where st': "file_step p total_len st ev = Inr st'" "fr_received st' < total_len"
    "fr_eof st' \<or> cut_short (unat total_len) (unat (fr_received st')) evs" by blast
  from Cons.IH [OF file_step_inv [OF st'(1) Cons.prems(1)] st'(2,3)] st'(1) Cons.prems(1,2)
  show ?case by (simp add: frx.run_step file_done_short)
qed

lemma cut_short_append: "cut_short len b (xs @ [FileRead (Inr [])]) \<Longrightarrow> cut_short len b (xs @ FileRead (Inr []) # ys)"
  by (induction len b xs rule: cut_short.induct) auto

section \<open>A transfer that arrives in full\<close>

fun delivers :: "nat \<Rightarrow> nat \<Rightarrow> file_event list \<Rightarrow> bool" where
  "delivers len b [] = (len \<le> b)"
| "delivers len b (FileRead r # evs) =
     (if len \<le> b then delivers len b evs
      else (case r of
          Inl e \<Rightarrow> False
        | Inr got \<Rightarrow> got \<noteq> [] \<and> delivers len (min len (b + min BUF (length got))) evs))"
| "delivers len b (_ # evs) = delivers len b evs"

lemma file_step_read_exact:
  assumes "\<not> fr_eof st" "fr_received st < total_len" "got \<noteq> []"
  shows "\<exists>st'. file_step p total_len st (FileRead (Inr got)) = Inr st' \<and> \<not> fr_eof st'
    \<and> unat (fr_received st') = min (unat total_len) (unat (fr_received st) + min BUF (length got))"
proof -
  let ?w = "file_want total_len (fr_received st)" and ?n = "length (take (file_want total_len (fr_received st)) got)"
  have d: "unat (total_len - fr_received st) = unat total_len - unat (fr_received st)" "unat (fr_received st) < unat total_len"
    using assms(2) by (simp_all add: unat_sub) (simp add: word_less_nat_alt)
  then have "?w \<noteq> 0" by (simp add: file_want_def BUF_def)
  then have "?n \<noteq> 0" using assms(3) by (cases got) simp_all
  moreover have "?n \<le> ?w" by simp
  note A = file_read_advance [OF assms(2) this]
  moreover have "unat (fr_received st) + ?n = min (unat total_len) (unat (fr_received st) + min BUF (length got))"
    using d by (auto simp: file_want_def min_def split: if_splits)
  ultimately show ?thesis
    using assms(1,2) by (simp only: file_step_def file_reading_def file_event.case sum.case Let_def if_True if_False
        or_panic_simps and_then_simps simp_thms) simp
qed

lemma file_steps_deliver:
  assumes "file_inv total_len st" "\<not> fr_eof st" "delivers (unat total_len) (unat (fr_received st)) evs"
  shows "\<exists>st'. file_steps p total_len st evs = Inr st' \<and> file_inv total_len st' \<and> fr_received st' = total_len"
  using assms
proof (induction evs arbitrary: st)
  case Nil
  then have "fr_received st = total_len" by (simp add: file_inv_def word_le_nat_alt word_unat_eq_iff)
  with Nil show ?case by simp
next
  case (Cons ev evs)
  have "\<exists>st'. file_step p total_len st ev = Inr st' \<and> \<not> fr_eof st' \<and> delivers (unat total_len) (unat (fr_received st')) evs"
  proof (cases "\<exists>r. ev = FileRead r \<and> fr_received st < total_len")
    case True
    then obtain r where r: "ev = FileRead r" "unat (fr_received st) < unat total_len" "fr_received st < total_len"
      by (auto simp: word_less_nat_alt)
    then obtain got where got: "r = Inr got" "got \<noteq> []"
      "delivers (unat total_len) (min (unat total_len) (unat (fr_received st) + min BUF (length got))) evs"
      using Cons.prems(3) by (auto split: sum.splits)
    from file_step_read_exact [OF Cons.prems(2) r(3) got(2), of p] got(3) show ?thesis by (auto simp: r(1) got(1))
  next
    case False
    with Cons.prems(2,3) show ?thesis
      by (cases ev) (auto simp: file_step_def file_reading_def word_less_nat_alt)
  qed
  then obtain st1 where s1: "file_step p total_len st ev = Inr st1" "\<not> fr_eof st1"
    "delivers (unat total_len) (unat (fr_received st1)) evs" by blast
  from Cons.IH [OF file_step_inv [OF s1(1) Cons.prems(1)] s1(2,3)] s1(1) show ?case by simp
qed

lemma file_steps_complete:
  assumes "file_inv total_len st" "fr_received st = total_len" "fr_stopped st = Some s"
  shows "\<exists>st'. file_steps p total_len st evs = Inr st' \<and> file_inv total_len st' \<and> fr_received st' = total_len \<and> fr_stopped st' = Some s"
  using assms
proof (induction evs arbitrary: st)
  case (Cons ev evs)
  have "\<exists>st1. file_step p total_len st ev = Inr st1 \<and> fr_received st1 = total_len \<and> fr_stopped st1 = Some s"
    using Cons.prems(2,3) by (cases ev) (simp_all add: file_step_def file_reading_def)
  then obtain st1 where s1: "file_step p total_len st ev = Inr st1" "fr_received st1 = total_len" "fr_stopped st1 = Some s" by blast
  from Cons.IH [OF file_step_inv [OF s1(1) Cons.prems(1)] s1(2,3)] s1(1) show ?case by simp
qed simp

text \<open>Once all bytes are in, nothing fails, and each of the two tasks gets what it waits for.\<close>

definition fully_ticked :: "u64 \<Rightarrow> file_rx \<Rightarrow> bool" where
  "fully_ticked total_len st \<longleftrightarrow> (\<exists>tk\<in>set (fr_ticks st). snd tk = [total_len])"

lemma file_step_rest:
  assumes "file_inv total_len st" "fr_received st = total_len"
  shows "\<exists>st'. file_step p total_len st ev = Inr st' \<and> fr_received st' = total_len
    \<and> (fr_stopped st \<noteq> None \<or> (\<exists>now. ev = LoopOver now) \<longrightarrow> fr_stopped st' \<noteq> None)
    \<and> (fully_ticked total_len st \<or> (\<exists>u. ev = FileTick u) \<longrightarrow> fully_ticked total_len st')"
  using assms by (cases ev) (auto simp: file_step_def file_reading_def file_inv_def fully_ticked_def)

lemma file_steps_rest:
  assumes "file_inv total_len st" "fr_received st = total_len"
  shows "\<exists>st'. file_steps p total_len st evs = Inr st' \<and> file_inv total_len st'
    \<and> (fr_stopped st \<noteq> None \<or> (\<exists>now. LoopOver now \<in> set evs) \<longrightarrow> fr_stopped st' \<noteq> None)
    \<and> (fully_ticked total_len st \<or> (\<exists>u. FileTick u \<in> set evs) \<longrightarrow> fully_ticked total_len st')"
  using assms
proof (induction evs arbitrary: st)
  case (Cons ev evs)
  obtain st1 where s1: "file_step p total_len st ev = Inr st1" "fr_received st1 = total_len"
    "fr_stopped st \<noteq> None \<or> (\<exists>now. ev = LoopOver now) \<longrightarrow> fr_stopped st1 \<noteq> None"
    "fully_ticked total_len st \<or> (\<exists>u. ev = FileTick u) \<longrightarrow> fully_ticked total_len st1"
    using file_step_rest [OF Cons.prems, of p ev] by metis
  obtain st' where s2: "file_steps p total_len st1 evs = Inr st'" "file_inv total_len st'"
    "fr_stopped st1 \<noteq> None \<or> (\<exists>now. LoopOver now \<in> set evs) \<longrightarrow> fr_stopped st' \<noteq> None"
    "fully_ticked total_len st1 \<or> (\<exists>u. FileTick u \<in> set evs) \<longrightarrow> fully_ticked total_len st'"
    using Cons.IH [OF file_step_inv [OF s1(1) Cons.prems(1)] s1(2)] by metis
  have "file_steps p total_len st (ev # evs) = Inr st'" using s1(1) s2(1) by simp
  moreover have "(fr_stopped st \<noteq> None \<or> (\<exists>now. LoopOver now \<in> set (ev # evs))) \<longrightarrow> fr_stopped st' \<noteq> None"
    using s1(3) s2(3) by (metis set_ConsD)
  moreover have "(fully_ticked total_len st \<or> (\<exists>u. FileTick u \<in> set (ev # evs))) \<longrightarrow> fully_ticked total_len st'"
    using s1(4) s2(4) by (metis set_ConsD)
  ultimately show ?case using s2(2) by blast
qed simp

lemma serve_file_ends:
  assumes "delivers (unat (file_expected neg)) 0 pre" "LoopOver now \<in> set post" "FileTick u \<in> set post"
  shows "\<exists>y. serve_file p neg fmt (Inr ()) t0 (pre @ post) = Some (Inr y)"
proof -
  let ?T = "file_expected neg"
  obtain s1 where s1: "file_steps p ?T file_rx_init pre = Inr s1" "file_inv ?T s1" "fr_received s1 = ?T"
    using file_steps_deliver [OF file_inv_init, of ?T pre p] assms(1) by (auto simp: file_rx_init_def)
  obtain s2 where s2: "file_steps p ?T s1 post = Inr s2" "file_inv ?T s2" "fr_stopped s2 \<noteq> None" "fully_ticked ?T s2"
    using file_steps_rest [OF s1(2,3), of p post] assms(2,3) by blast
  have "\<forall>tk\<in>set (fr_ticks s2). \<exists>d. snd tk = [d]"
    using s2(2) by (auto simp: file_inv_def ticks_below_def)
  moreover have "\<exists>tk\<in>set (fr_ticks s2). snd tk = [?T] \<and> ?T \<le> ?T" using s2(4) by (simp add: fully_ticked_def)
  ultimately obtain y where "sample_until_done p t0 fmt ?T 0 t0 (fr_ticks s2) = Some (Inr y)"
    using sample_until_done_returns by blast
  then have fin: "file_done p fmt t0 ?T s2 \<noteq> None" using s2(3) by (cases y) (auto simp: file_done_def)
  have "file_steps p ?T file_rx_init (pre @ post) = Inr s2" using s1(1) s2(1) by (simp add: run_steps_append)
  from frx.run_returns [OF this fin, of "[]"] show ?thesis by (simp add: serve_file_def)
qed

section \<open>The time a transfer takes\<close>

text \<open>
  The reading of the clock that ends a transfer: the first of its loop once the \<open>len\<close> bytes are
  in, \<open>b\<close> of which are so far; none if the stream fails or ends before.
\<close>

fun loop_end :: "nat \<Rightarrow> nat \<Rightarrow> file_event list \<Rightarrow> instant option" where
  "loop_end len b [] = None"
| "loop_end len b (FileRead r # evs) =
     (if len \<le> b then loop_end len b evs
      else (case r of
          Inl e \<Rightarrow> None
        | Inr got \<Rightarrow> if got = [] then None else loop_end len (min len (b + min BUF (length got))) evs))"
| "loop_end len b (LoopOver now # evs) = (if len \<le> b then Some now else loop_end len b evs)"
| "loop_end len b (FileTick now # evs) = loop_end len b evs"

lemma file_steps_after_eof:
  "file_steps p total_len st evs = Inr st' \<Longrightarrow> fr_eof st \<Longrightarrow> fr_received st' = fr_received st"
proof (induction evs arbitrary: st)
  case (Cons ev evs)
  then show ?case using file_step_after_eof [OF Cons.prems(2), of p total_len ev] by (auto simp: and_then_Inr)
qed simp

lemma file_steps_loop_end:
  assumes "file_steps p total_len st xs = Inr st'" "file_inv total_len st" "\<not> fr_eof st" "fr_stopped st = None"
    and "fr_stopped st' = Some now" "fr_received st' = total_len"
  shows "loop_end (unat total_len) (unat (fr_received st)) (xs @ ys) = Some now"
  using assms
proof (induction xs arbitrary: st)
  case Nil
  then show ?case by simp
next
  case (Cons ev xs)
  obtain st1 where s1: "file_step p total_len st ev = Inr st1" "file_steps p total_len st1 xs = Inr st'"
    using Cons.prems(1) by (auto simp: and_then_Inr)
  have inv1: "file_inv total_len st1" by (rule file_step_inv [OF s1(1) Cons.prems(2)])
  have full: "unat total_len \<le> unat (fr_received st) \<longleftrightarrow> \<not> fr_received st < total_len" by (simp add: word_less_nat_alt not_less)
  show ?case
  proof (cases "fr_received st < total_len")
    case False
    then have T: "fr_received st = total_len" using Cons.prems(2) by (simp add: file_inv_def)
    show ?thesis
    proof (cases ev)
      case (LoopOver u)
      with s1(1) T Cons.prems(4) have st1: "st1 = st\<lparr>fr_stopped := Some u\<rparr>" by (simp add: file_step_def file_reading_def)
      then have "fr_stopped st' = Some u"
        using file_steps_complete [OF inv1, of u p xs] T s1(2) by auto
      with LoopOver T Cons.prems(5) show ?thesis by simp
    qed (use Cons.IH [OF s1(2) inv1] Cons.prems s1(1) T in \<open>auto simp: file_step_def file_reading_def\<close>)
  next
    case lt: True
    show ?thesis
    proof (cases ev)
      case (FileRead r)
      then obtain got where got: "r = Inr got" using s1(1) lt Cons.prems(3) by (cases r) (auto simp: file_step_def file_reading_def)
      show ?thesis
      proof (cases "got = []")
        case True
        then have "st1 = st\<lparr>fr_eof := True\<rparr>" using s1(1) lt Cons.prems(3) by (simp add: file_step_def file_reading_def FileRead got)
        with file_steps_after_eof [OF s1(2)] lt Cons.prems(6) show ?thesis by simp
      next
        case False
        have "\<not> fr_eof st1 \<and> unat (fr_received st1) = min (unat total_len) (unat (fr_received st) + min BUF (length got))"
          using file_step_read_exact [OF Cons.prems(3) lt False, of p] s1(1) by (simp add: FileRead got)
        moreover have "fr_stopped st1 = None"
          using s1(1) Cons.prems(4) by (auto simp: file_step_def FileRead got Let_def and_then_Inr split: if_splits)
        ultimately show ?thesis
          using Cons.IH [OF s1(2) inv1 _ _ Cons.prems(5,6)] lt False by (simp add: FileRead got full)
      qed
    next
      case (LoopOver u)
      with s1(1) lt Cons.prems(3) have "st1 = st" by (simp add: file_step_def file_reading_def)
      with Cons.IH [OF s1(2) inv1] Cons.prems LoopOver lt show ?thesis by (simp add: full)
    next
      case (FileTick u)
      with s1(1) have "fr_received st1 = fr_received st" "fr_eof st1 = fr_eof st" "fr_stopped st1 = fr_stopped st"
        by (auto simp: file_step_def)
      with Cons.IH [OF s1(2) inv1] Cons.prems FileTick show ?thesis by simp
    qed
  qed
qed

text \<open>
  A transfer cut short is never reported, not even as an error: when the stream ends before the
  negotiated length, \<open>serve\<close> waits forever for its sampler, which waits for bytes that cannot
  come, whatever happens afterwards.
\<close>

lemma serve_file_short:
  assumes "0 < file_expected neg" and "cut_short (unat (file_expected neg)) 0 (evs @ [FileRead (Inr [])])"
  shows "\<forall>more. serve_file p neg fmt (Inr ()) t0 (evs @ FileRead (Inr []) # more) = None"
proof
  fix more
  have "cut_short (unat (file_expected neg)) (unat (fr_received file_rx_init)) (evs @ FileRead (Inr []) # more)"
    using cut_short_append [OF assms(2)] by (simp add: file_rx_init_def)
  moreover have "fr_received file_rx_init < file_expected neg" using assms(1) by (simp add: file_rx_init_def)
  ultimately show "serve_file p neg fmt (Inr ()) t0 (evs @ FileRead (Inr []) # more) = None"
    using file_run_short [OF file_inv_init] by (simp add: serve_file_def)
qed

section \<open>What the receiver promises\<close>

text \<open>A negotiation of a file of a given length, for examples.\<close>

abbreviation file_negotiate :: "u64 \<Rightarrow> negotiate" where
  "file_negotiate n \<equiv>
     \<lparr>mode = File, duration_secs = 10, warmup_secs = 0, parallel = 1, buffer_bytes = 65536, bidir = False,
      bitrate_bps = None, packet_bytes = None, file_len = Some n, null_source = Some False\<rparr>"

lemma serve_file_length:
  assumes "serve_file p neg fmt acc t0 evs = Some (Inr (r, ls))"
  shows "r_bytes r = file_expected neg \<and> r_bits_per_sec r = bits_per_sec (file_expected neg) (r_duration_secs r)
    \<and> (\<exists>now. loop_end (unat (file_expected neg)) 0 evs = Some now \<and> r_duration_secs r = as_secs_f64 (duration_since now t0))"
proof -
  let ?T = "file_expected neg"
  have run: "file_run p fmt t0 ?T file_rx_init evs = Some (Inr (r, ls))"
    using assms by (auto simp: serve_file_def split: sum.splits)
  obtain xs ys st' where x: "evs = xs @ ys" "file_steps p ?T file_rx_init xs = Inr st'" "file_done p fmt t0 ?T st' = Some (r, ls)"
    using frx.run_result [OF run] by blast
  have inv: "file_inv ?T st'"
    using run_steps_invariant [where I = "file_inv ?T", OF x(2) file_inv_init] file_step_inv by blast
  obtain now ss where d: "fr_stopped st' = Some now" "r = file_result ss (fr_received st') (as_secs_f64 (duration_since now t0))"
    using x(3) by (auto simp: file_done_def Let_def split: Option.bind_splits prod.splits)
  note R = file_done_reached [OF x(3) inv]
  then have "fr_received st' = ?T" using d(2) by (simp add: file_result_def)
  with file_steps_loop_end [OF x(2) file_inv_init _ _ d(1)] have "loop_end (unat ?T) 0 evs = Some now"
    by (simp add: file_rx_init_def x(1))
  with R d(2) show ?thesis by (simp add: file_result_def)
qed

text \<open>
  C14. The file receiver never reports a partial transfer: whatever the order in which its loop
  and its sampler act and whatever the stream does, a result counts exactly the negotiated
  length, and its rate is that length over the time the transfer took: from the instant the
  connection was accepted to the first reading of the clock by the loop once the last byte was in,
  however long its sampler takes after that.
\<close>

theorem serve_file_reports_length:
  assumes "serve_file p neg fmt acc t0 evs = Some (Inr (r, ls))"
  shows "r_bytes r = file_expected neg \<and> r_bits_per_sec r = bits_per_sec (file_expected neg) (r_duration_secs r)
    \<and> (\<exists>now. loop_end (unat (file_expected neg)) 0 evs = Some now \<and> r_duration_secs r = as_secs_f64 (duration_since now t0))"
  by (rule serve_file_length [OF assms])

theorem serve_file_reports_length_witness:
  "\<exists>r ls. serve_file Release (file_negotiate 3) Mbps (Inr ()) 0
      ([FileRead (Inr [7, 8, 9])] @ [LoopOver 5, FileTick 1000000000]) = Some (Inr (r, ls)) \<and> r_bytes r = 3
      \<and> r_duration_secs r = as_secs_f64 5"
proof -
  have "delivers (unat (file_expected (file_negotiate 3))) 0 [FileRead (Inr [7, 8, 9])]"
    by (simp add: file_expected_def BUF_def)
  then obtain r ls where r: "serve_file Release (file_negotiate 3) Mbps (Inr ()) 0
      ([FileRead (Inr [7, 8, 9])] @ [LoopOver 5, FileTick 1000000000]) = Some (Inr (r, ls))"
    using serve_file_ends [where now = 5 and u = 1000000000] by (metis list.set_intros surj_pair)
  from serve_file_reports_length [OF r] have "r_bytes r = 3 \<and> r_duration_secs r = as_secs_f64 5"
    by (simp add: file_expected_def BUF_def duration_since_def)
  with r show ?thesis by blast
qed

text \<open>
  C33. A file transfer that arrives in full ends, in either build and in any order of its two tasks:
  once all the bytes are in, the receiver returns its result as soon as its loop has read the clock
  and its sampler has ticked, whichever of the two comes first and whatever comes between.
\<close>

theorem serve_file_completes:
  assumes "delivers (unat (file_expected neg)) 0 pre" and "LoopOver now \<in> set post" and "FileTick u \<in> set post"
  shows "\<exists>r ls. serve_file p neg fmt (Inr ()) t0 (pre @ post) = Some (Inr (r, ls))"
  using serve_file_ends [OF assms] by (metis surj_pair)

theorem serve_file_completes_witness:
  "\<exists>r ls. serve_file Debug (file_negotiate 3) Mbps (Inr ()) 0
      ([FileRead (Inr [7]), FileTick 5, FileRead (Inr [8, 9, 9])] @ [FileTick 9, LoopOver 11]) = Some (Inr (r, ls))"
  by (rule serve_file_completes [where now = 11 and u = 9]) (simp_all add: file_expected_def BUF_def)

end
