(* ===== verification/FileClient.thy ===== *)
theory FileClient
  imports FileServer
begin

text \<open>
  \<open>src/src/modes/file.rs\<close>, the sender: a function of its loop iterations, the outcome of each
  read and write and the clock at each report. It returns the payload written, the lines
  printed and how the function ended, and \<open>None\<close> while a loop still runs.
\<close>

section \<open>The length of the file\<close>

text \<open>\<open>file_len\<close>: the length in the metadata that the file system gives for the path.\<close>

record metadata =
  meta_len :: u64

definition file_size :: "(string \<Rightarrow> metadata io_result) \<Rightarrow> string \<Rightarrow> u64 io_result" where
  "file_size metadata_of path = map_sum id meta_len (metadata_of path)"

section \<open>The sender\<close>

record file_tx =
  ft_sent :: u64
  ft_next_report :: duration
  ft_last_sent :: u64

definition percent_sent :: "u64 \<Rightarrow> u64 \<Rightarrow> f64" where
  "percent_sent sent total_len =
     (if 0 < total_len then fmul (fdiv (u64_to_f64 sent) (u64_to_f64 total_len)) (Fin 100) else Fin 100)"

text \<open>The closure \<open>report\<close>.\<close>

definition file_report ::
  "profile \<Rightarrow> format \<Rightarrow> bool \<Rightarrow> u64 \<Rightarrow> file_tx \<Rightarrow> bool \<Rightarrow> duration \<Rightarrow> (file_tx \<times> string list) outcome" where
  "file_report p fmt quiet total_len st force elapsed =
     (if quiet \<or> \<not> force \<and> elapsed < ft_next_report st then Inr (st, [])
      else and_then (or_panic (usub p (ft_sent st) (ft_last_sent st))) (\<lambda>interval.
        let secs = as_secs_f64 elapsed;
            bps = interval_rate interval secs;
            line = ''['' @ pad_left (CHR '' '') 5 (fixed 1 secs) @ ''s] '' @ render fmt bps @ '' sent | ''
              @ fixed 0 (percent_sent (ft_sent st) total_len) @ ''% ('' @ show_nat (unat (ft_sent st)) @ ''/''
              @ show_nat (unat total_len) @ '' bytes)''
        in and_then (or_panic (duration_add elapsed (from_secs 1))) (\<lambda>next.
             Inr (st\<lparr>ft_last_sent := ft_sent st, ft_next_report := next\<rparr>, [line]))))"

text \<open>What follows a write: the bytes are counted and reported.\<close>

definition file_advance ::
  "profile \<Rightarrow> format \<Rightarrow> bool \<Rightarrow> u64 \<Rightarrow> file_tx \<Rightarrow> nat \<Rightarrow> duration \<Rightarrow> (file_tx \<times> string list) outcome" where
  "file_advance p fmt quiet total_len st n elapsed =
     and_then (or_panic (uadd p (ft_sent st) (of_nat n))) (\<lambda>sent.
       file_report p fmt quiet total_len (st\<lparr>ft_sent := sent\<rparr>) False elapsed)"

text \<open>
  The two loops: the bytes that went out (of a write that fails, those before the failure), the
  lines printed and how the loop ended; \<open>None\<close> while it still runs.
\<close>

fun null_loop ::
  "profile \<Rightarrow> format \<Rightarrow> bool \<Rightarrow> u64 \<Rightarrow> bytes \<Rightarrow> file_tx \<Rightarrow> (write_result \<times> duration) list
     \<Rightarrow> (bytes \<times> string list \<times> unit outcome) option" where
  "null_loop p fmt quiet total_len buf st its =
     (if ft_sent st < total_len then
        (case its of
           [] \<Rightarrow> None
         | (w, elapsed) # its' \<Rightarrow>
             (let chunk = take (min (unat (total_len - ft_sent st)) (length buf)) buf
              in case w of
                   Inl (e, k) \<Rightarrow> Some (written chunk w, [], Inl (Io e))
                 | Inr _ \<Rightarrow>
                     (case file_advance p fmt quiet total_len st (length chunk) elapsed of
                        Inl e \<Rightarrow> Some (chunk, [], Inl e)
                      | Inr (st', ls) \<Rightarrow>
                          map_option (\<lambda>(sent, ls', r). (chunk @ sent, ls @ ls', r))
                            (null_loop p fmt quiet total_len buf st' its'))))
      else Some ([], [], Inr ()))"

fun disk_loop ::
  "profile \<Rightarrow> format \<Rightarrow> bool \<Rightarrow> u64 \<Rightarrow> file_tx \<Rightarrow> (bytes io_result \<times> write_result \<times> duration) list
     \<Rightarrow> (bytes \<times> string list \<times> unit outcome) option" where
  "disk_loop p fmt quiet total_len st its =
     (if ft_sent st < total_len then
        (case its of
           [] \<Rightarrow> None
         | (rd, w, elapsed) # its' \<Rightarrow>
             (case rd of
                Inl e \<Rightarrow> Some ([], [], Inl (Io e))
              | Inr got \<Rightarrow>
                  (let chunk = take BUF got
                   in if length chunk = 0 then Some ([], [], Inr ())
                      else (case w of
                          Inl (e, k) \<Rightarrow> Some (written chunk w, [], Inl (Io e))
                        | Inr _ \<Rightarrow>
                            (case file_advance p fmt quiet total_len st (length chunk) elapsed of
                               Inl e \<Rightarrow> Some (chunk, [], Inl e)
                             | Inr (st', ls) \<Rightarrow>
                                 map_option (\<lambda>(sent, ls', r). (chunk @ sent, ls @ ls', r))
                                   (disk_loop p fmt quiet total_len st' its'))))))
      else Some ([], [], Inr ()))"

declare null_loop.simps [simp del] disk_loop.simps [simp del]

definition file_tx_init :: file_tx where
  "file_tx_init = \<lparr>ft_sent = 0, ft_next_report = from_secs 1, ft_last_sent = 0\<rparr>"

text \<open>
  What the environment answers: connecting, \<open>TCP_NODELAY\<close>, opening the file, the writes of
  the memory source or the reads and writes of the disk source, and the flush.
\<close>

record file_env =
  fe_connect :: "unit io_result"
  fe_nodelay :: "unit io_result"
  fe_open :: "unit io_result"
  fe_null :: "(write_result \<times> duration) list"
  fe_disk :: "(bytes io_result \<times> write_result \<times> duration) list"
  fe_flush :: "unit io_result"

definition file_finish ::
  "unit io_result \<Rightarrow> bytes \<times> string list \<times> unit outcome \<Rightarrow> bytes \<times> string list \<times> unit outcome" where
  "file_finish flushed = (\<lambda>(sent, ls, r). (sent, ls, and_then r (\<lambda>_. lift_io flushed)))"

definition drive_file ::
  "profile \<Rightarrow> file_env \<Rightarrow> start \<Rightarrow> negotiate \<Rightarrow> string option \<Rightarrow> bool \<Rightarrow> format \<Rightarrow> bool
     \<Rightarrow> (bytes \<times> string list \<times> unit outcome) option" where
  "drive_file p env st neg path null fmt quiet =
     (case fe_connect env of
        Inl e \<Rightarrow> Some ([], [], Inl (Io e))
      | Inr _ \<Rightarrow>
          (case fe_nodelay env of
             Inl e \<Rightarrow> Some ([], [], Inl (Io e))
           | Inr _ \<Rightarrow>
               (if null then
                  map_option (file_finish (fe_flush env))
                    (null_loop p fmt quiet (file_expected neg) (fill_random (replicate BUF 0) (server_seed st))
                      file_tx_init (fe_null env))
                else
                  (case path of
                     None \<Rightarrow> Some ([], [], Inl (Panic ''file path required in file mode''))
                   | Some _ \<Rightarrow>
                       (case fe_open env of
                          Inl e \<Rightarrow> Some ([], [], Inl (Io e))
                        | Inr _ \<Rightarrow>
                            map_option (file_finish (fe_flush env))
                              (disk_loop p fmt quiet (file_expected neg) file_tx_init (fe_disk env)))))))"

section \<open>The sender: lemmas\<close>

lemma file_advance_sent:
  "file_advance p fmt quiet total_len st n elapsed = Inr (st', ls) \<Longrightarrow> ft_sent st' = ft_sent st + of_nat n"
  by (auto simp: file_advance_def file_report_def and_then_Inr Let_def dest!: uadd_SomeD split: if_splits)

lemma null_loop_sends:
  assumes "null_loop p fmt quiet total_len buf st its = Some (sent, ls, Inr ())" "ft_sent st \<le> total_len"
  shows "\<exists>k. sent = take (unat total_len - unat (ft_sent st)) (concat (replicate k buf))
    \<and> length sent = unat total_len - unat (ft_sent st)"
  using assms
proof (induction its arbitrary: st sent ls)
  case Nil
  then show ?case
    by (subst (asm) null_loop.simps) (auto simp: word_less_nat_alt split: if_splits intro: exI [of _ 0])
next
  case (Cons it its)
  define rem where "rem = unat total_len - unat (ft_sent st)"
  show ?case
  proof (cases "ft_sent st < total_len")
    case False
    with Cons.prems show ?thesis
      by (subst (asm) null_loop.simps) (auto simp: word_less_nat_alt split: if_splits intro: exI [of _ 0])
  next
    case True
    have sub: "unat (total_len - ft_sent st) = rem" using True by (simp add: unat_sub rem_def)
    define m where "m = min rem (length buf)"
    obtain w elapsed where it: "it = (w, elapsed)" by fastforce
    obtain st' l1 sent1 l2 where a: "file_advance p fmt quiet total_len st m elapsed = Inr (st', l1)"
      and r: "null_loop p fmt quiet total_len buf st' its = Some (sent1, l2, Inr ())" and s: "sent = take m buf @ sent1"
      using Cons.prems(1) True
      by (subst (asm) null_loop.simps) (auto simp: it sub m_def Let_def min.commute split: sum.splits)
    have "rem < 2 ^ 64" using unsigned_less [of total_len, where 'a = nat] by (simp add: rem_def)
    then have um: "unat (of_nat m :: u64) = m" by (intro unat_of_nat_u64) (simp add: m_def)
    have "unat (ft_sent st) + m \<le> unat total_len" using True by (auto simp: m_def rem_def word_less_nat_alt)
    then have "unat (ft_sent st) + unat (of_nat m :: u64) < 2 ^ LENGTH(64)"
      using unsigned_less [of total_len, where 'a = nat] by (simp add: um)
    then have us: "unat (ft_sent st') = unat (ft_sent st) + m"
      unfolding file_advance_sent [OF a] using um by (simp only: unat_add_exact)
    then have rem': "unat total_len - unat (ft_sent st') = rem - m" by (simp add: rem_def)
    have "ft_sent st' \<le> total_len" using us \<open>unat (ft_sent st) + m \<le> unat total_len\<close> by (simp add: word_le_nat_alt)
    from Cons.IH [OF r this] obtain k where k: "sent1 = take (rem - m) (concat (replicate k buf))" "length sent1 = rem - m"
      unfolding rem' by blast
    have "sent = take rem (concat (replicate (Suc k) buf))"
    proof (cases "length buf \<le> rem")
      case True
      then show ?thesis by (simp add: s k(1) m_def)
    next
      case False
      then show ?thesis by (simp add: s k(1) m_def)
    qed
    moreover have "length sent = rem" by (simp add: s k(2) m_def)
    ultimately show ?thesis unfolding rem_def by blast
  qed
qed

lemma file_advance_Release:
  "elapsed div 1000000000 < 2 ^ 63 \<Longrightarrow> \<exists>st' ls. file_advance Release fmt quiet total_len st n elapsed = Inr (st', ls)"
  by (auto simp: file_advance_def file_report_def chk_simps Let_def duration_add_def from_secs_def)

lemma null_loop_ends:
  assumes "\<forall>it\<in>set its. fst it = Inr () \<and> snd it div 1000000000 < 2 ^ 63"
    and "unat total_len \<le> unat (ft_sent st) + length its * length buf"
  shows "\<exists>sent ls. null_loop Release fmt quiet total_len buf st its = Some (sent, ls, Inr ())"
  using assms
proof (induction its arbitrary: st)
  case Nil
  then show ?case by (subst null_loop.simps) (simp add: word_less_nat_alt)
next
  case (Cons it its)
  show ?case
  proof (cases "ft_sent st < total_len")
    case False
    then show ?thesis by (subst null_loop.simps) simp
  next
    case True
    define m where "m = min (unat (total_len - ft_sent st)) (length buf)"
    obtain elapsed where it: "it = (Inr (), elapsed)" "elapsed div 1000000000 < 2 ^ 63" using Cons.prems(1) by (cases it) auto
    obtain st' l1 where a: "file_advance Release fmt quiet total_len st m elapsed = Inr (st', l1)"
      using file_advance_Release [OF it(2)] by blast
    have sub: "unat (total_len - ft_sent st) = unat total_len - unat (ft_sent st)" using True by (simp add: unat_sub)
    have lt: "unat total_len < 2 ^ 64" using unsigned_less [of total_len, where 'a = nat] by simp
    have um: "unat (of_nat m :: u64) = m" using lt by (intro unat_of_nat_u64) (simp add: m_def sub)
    have "unat (ft_sent st) + m \<le> unat total_len" using True by (auto simp: m_def sub word_less_nat_alt)
    then have "unat (ft_sent st) + unat (of_nat m :: u64) < 2 ^ LENGTH(64)" using lt by (simp add: um)
    then have us: "unat (ft_sent st') = unat (ft_sent st) + m"
      unfolding file_advance_sent [OF a] using um by (simp only: unat_add_exact)
    have "unat total_len \<le> unat (ft_sent st') + length its * length buf"
      using Cons.prems(2) us by (auto simp: m_def sub min_def)
    moreover have "\<forall>it\<in>set its. fst it = Inr () \<and> snd it div 1000000000 < 2 ^ 63" using Cons.prems(1) by simp
    ultimately obtain sent ls where "null_loop Release fmt quiet total_len buf st' its = Some (sent, ls, Inr ())"
      using Cons.IH by blast
    with a True show ?thesis by (subst null_loop.simps) (simp add: it(1) m_def Let_def min.commute)
  qed
qed

text \<open>What a read of the disk source adds, and the loop over them.\<close>

definition piece :: "bytes io_result \<times> write_result \<times> duration \<Rightarrow> bytes" where
  "piece it = (case fst it of Inl e \<Rightarrow> [] | Inr got \<Rightarrow> take BUF got)"

lemma disk_loop_sends:
  assumes "disk_loop p fmt quiet total_len st its = Some (sent, ls, Inr ())" "unat total_len + BUF < 2 ^ 64"
    and "unat (ft_sent st) < unat total_len + BUF"
  shows "\<exists>k. sent = concat (map piece (take k its))
    \<and> (unat total_len \<le> unat (ft_sent st) + length sent \<or> k < length its \<and> piece (its ! k) = [])
    \<and> unat (ft_sent st) + length sent < unat total_len + BUF"
  using assms
proof (induction its arbitrary: st sent ls)
  case Nil
  then have "\<not> ft_sent st < total_len \<and> sent = []"
    by (subst (asm) disk_loop.simps) (auto split: if_splits)
  with Nil.prems(3) show ?case by (simp add: word_less_nat_alt)
next
  case (Cons it its)
  obtain rd w elapsed where it: "it = (rd, w, elapsed)" by (cases it)
  show ?case
  proof (cases "ft_sent st < total_len \<and> piece it \<noteq> []")
    case False
    with Cons.prems(1) have "sent = [] \<and> (\<not> ft_sent st < total_len \<or> piece it = [])"
      by (subst (asm) disk_loop.simps) (auto simp: it piece_def Let_def split: if_splits sum.splits)
    with Cons.prems(3) show ?thesis by (intro exI [of _ 0]) (auto simp: word_less_nat_alt)
  next
    case True
    then obtain got where got: "rd = Inr got" "take BUF got \<noteq> []" by (cases rd) (auto simp: it piece_def)
    let ?c = "take BUF got"
    obtain st' l1 sent1 l2 where a: "file_advance p fmt quiet total_len st (length ?c) elapsed = Inr (st', l1)"
      and r: "disk_loop p fmt quiet total_len st' its = Some (sent1, l2, Inr ())" and s: "sent = ?c @ sent1"
      using Cons.prems(1) True got(2)
      by (subst (asm) disk_loop.simps) (auto simp: it got(1) Let_def simp del: length_take split: sum.splits if_splits)
    have lt: "unat (ft_sent st) < unat total_len" using True by (simp add: word_less_nat_alt)
    have m: "length ?c \<le> BUF" by simp
    then have um: "unat (of_nat (length ?c) :: u64) = length ?c"
      using Cons.prems(2) by (intro unat_of_nat_u64) (simp del: length_take)
    have "unat (ft_sent st) + length ?c < unat total_len + BUF" using lt m by linarith
    moreover from this have "unat (ft_sent st) + unat (of_nat (length ?c) :: u64) < 2 ^ LENGTH(64)"
      using Cons.prems(2) unfolding um by simp
    then have us: "unat (ft_sent st') = unat (ft_sent st) + length ?c"
      unfolding file_advance_sent [OF a] using um by (simp only: unat_add_exact)
    ultimately have "unat (ft_sent st') < unat total_len + BUF" by (simp only:)
    from Cons.IH [OF r Cons.prems(2) this] obtain k where k: "sent1 = concat (map piece (take k its))"
      "unat total_len \<le> unat (ft_sent st') + length sent1 \<or> k < length its \<and> piece (its ! k) = []"
      "unat (ft_sent st') + length sent1 < unat total_len + BUF" by blast
    have "piece it = ?c" by (simp add: it got(1) piece_def)
    with k show ?thesis
      by (intro exI [of _ "Suc k"]) (simp add: s us add.assoc del: length_take)
  qed
qed

section \<open>What the sender promises\<close>

lemma drive_file_null:
  assumes "drive_file p env st neg path True fmt quiet = Some (sent, ls, Inr ())"
  shows "\<exists>ls'. null_loop p fmt quiet (file_expected neg) (fill_random (replicate BUF 0) (server_seed st)) file_tx_init (fe_null env)
    = Some (sent, ls', Inr ())"
  using assms by (auto simp: drive_file_def file_finish_def and_then_Inr split: sum.splits prod.splits)

lemma drive_file_disk:
  assumes "drive_file p env st neg path False fmt quiet = Some (sent, ls, Inr ())"
  shows "\<exists>ls'. disk_loop p fmt quiet (file_expected neg) file_tx_init (fe_disk env) = Some (sent, ls', Inr ())"
  using assms by (auto simp: drive_file_def file_finish_def and_then_Inr split: sum.splits prod.splits option.splits)

definition env_opens :: "file_env \<Rightarrow> bool" where
  "env_opens env \<longleftrightarrow> fe_connect env = Inr () \<and> fe_nodelay env = Inr () \<and> fe_flush env = Inr ()"

lemma drive_file_null_ends:
  assumes "env_opens env" and "\<forall>it\<in>set (fe_null env). fst it = Inr () \<and> snd it div 1000000000 < 2 ^ 63"
    and "unat (file_expected neg) \<le> length (fe_null env) * BUF"
  shows "\<exists>sent ls. drive_file Release env st neg path True fmt quiet = Some (sent, ls, Inr ())"
proof -
  obtain sent ls where "null_loop Release fmt quiet (file_expected neg) (fill_random (replicate BUF 0) (server_seed st))
      file_tx_init (fe_null env) = Some (sent, ls, Inr ())"
    using null_loop_ends [OF assms(2), of "file_expected neg" file_tx_init "fill_random (replicate BUF 0) (server_seed st)"]
      assms(3) by (simp add: file_tx_init_def) blast
  with assms(1) show ?thesis by (simp add: drive_file_def env_opens_def file_finish_def)
qed

text \<open>An environment of two writes, for examples.\<close>

abbreviation two_writes :: file_env where
  "two_writes \<equiv>
     \<lparr>fe_connect = Inr (), fe_nodelay = Inr (), fe_open = Inr (), fe_null = [(Inr (), 1), (Inr (), 2)],
      fe_disk = [(Inr [1, 2, 3], Inr (), 1), (Inr [], Inr (), 2)], fe_flush = Inr ()\<rparr>"

text \<open>
  With the memory source the sender sends exactly the negotiated number of bytes, however
  long its buffer: whole copies of the seeded payload and a prefix of one.
\<close>

lemma drive_file_null_exact:
  assumes "drive_file p env st neg path True fmt quiet = Some (sent, ls, Inr ())"
  shows "length sent = unat (file_expected neg)
    \<and> (\<exists>k. sent = take (unat (file_expected neg)) (concat (replicate k (fill_random (replicate BUF 0) (server_seed st)))))"
proof -
  obtain ls' where "null_loop p fmt quiet (file_expected neg) (fill_random (replicate BUF 0) (server_seed st)) file_tx_init (fe_null env)
    = Some (sent, ls', Inr ())" using drive_file_null [OF assms] by blast
  from null_loop_sends [OF this] show ?thesis by (simp add: file_tx_init_def)
qed

lemma drive_file_null_exact_witness:
  "\<exists>sent ls. drive_file Release two_writes \<lparr>data_port = 1, server_seed = 2\<rparr> (file_negotiate 300000) None True Mbps False
      = Some (sent, ls, Inr ()) \<and> length sent = 300000"
proof -
  obtain sent ls where d: "drive_file Release two_writes \<lparr>data_port = 1, server_seed = 2\<rparr> (file_negotiate 300000) None True Mbps False
      = Some (sent, ls, Inr ())"
    using drive_file_null_ends [of two_writes "file_negotiate 300000"] by (fastforce simp: env_opens_def file_expected_def BUF_def)
  from drive_file_null_exact [OF d] d show ?thesis by (auto simp: file_expected_def)
qed

lemma drive_file_prefix:
  assumes "drive_file p env st neg path False fmt quiet = Some (sent, ls, Inr ())"
    and "unat (file_expected neg) + BUF < 2 ^ 64"
  shows "\<exists>rest. concat (map piece (fe_disk env)) = sent @ rest"
proof -
  obtain ls' where "disk_loop p fmt quiet (file_expected neg) file_tx_init (fe_disk env) = Some (sent, ls', Inr ())"
    using drive_file_disk [OF assms(1)] by blast
  from disk_loop_sends [OF this assms(2)] obtain k where "sent = concat (map piece (take k (fe_disk env)))"
    by (auto simp: file_tx_init_def BUF_def)
  then show ?thesis by (metis append_take_drop_id concat_append map_append)
qed

lemma drive_file_contents:
  assumes "drive_file p env st neg path False fmt quiet = Some (sent, ls, Inr ())"
    and "unat (file_expected neg) + BUF < 2 ^ 64"
    and "\<forall>k < length (fe_disk env). piece (fe_disk env ! k) = [] \<longrightarrow> concat (map piece (drop k (fe_disk env))) = []"
  shows "length sent < unat (file_expected neg) + BUF
    \<and> (length (concat (map piece (fe_disk env))) \<le> unat (file_expected neg) \<longrightarrow> sent = concat (map piece (fe_disk env)))"
proof -
  let ?its = "fe_disk env"
  obtain ls' where "disk_loop p fmt quiet (file_expected neg) file_tx_init ?its = Some (sent, ls', Inr ())"
    using drive_file_disk [OF assms(1)] by blast
  from disk_loop_sends [OF this assms(2)] obtain k where k: "sent = concat (map piece (take k ?its))"
    "unat (file_expected neg) \<le> length sent \<or> k < length ?its \<and> piece (?its ! k) = []"
    "length sent < unat (file_expected neg) + BUF" by (auto simp: file_tx_init_def BUF_def)
  have split: "concat (map piece ?its) = sent @ concat (map piece (drop k ?its))"
    unfolding k(1) by (metis append_take_drop_id concat_append map_append)
  have "concat (map piece (drop k ?its)) = []" if "length (concat (map piece ?its)) \<le> unat (file_expected neg)"
  proof (cases "unat (file_expected neg) \<le> length sent")
    case True
    then have "length (concat (map piece (drop k ?its))) = 0" using that unfolding split length_append by linarith
    then show ?thesis by blast
  next
    case False
    with k(2) assms(3) show ?thesis by blast
  qed
  with split k(3) show ?thesis by auto
qed

text \<open>
  C34. The disk source sends the file: when the reads deliver the file piece by piece, with
  empty reads only at its end, and the file is not longer than negotiated, the stream carries
  exactly its contents. A file that has grown since may exceed the negotiated length, by less than
  one buffer.
\<close>

theorem drive_file_sends_file:
  assumes "drive_file p env st neg path False fmt quiet = Some (sent, ls, Inr ())"
    and "unat (file_expected neg) + BUF < 2 ^ 64"
    and "\<forall>k < length (fe_disk env). piece (fe_disk env ! k) = [] \<longrightarrow> concat (map piece (drop k (fe_disk env))) = []"
  shows "length sent < unat (file_expected neg) + BUF
    \<and> (length (concat (map piece (fe_disk env))) \<le> unat (file_expected neg) \<longrightarrow> sent = concat (map piece (fe_disk env)))"
  by (rule drive_file_contents [OF assms])

theorem drive_file_sends_file_witness:
  "\<exists>ls. drive_file Release two_writes \<lparr>data_port = 1, server_seed = 2\<rparr> (file_negotiate 5) (Some []) False Mbps True
      = Some ([1, 2, 3], ls, Inr ()) \<and> length [1, 2, 3 :: u8] < 5 + BUF"
proof -
  have d: "drive_file Release two_writes \<lparr>data_port = 1, server_seed = 2\<rparr> (file_negotiate 5) (Some []) False Mbps True
      = Some ([1, 2, 3], [], Inr ())"
    by (simp add: drive_file_def file_expected_def file_tx_init_def disk_loop.simps file_advance_def file_report_def
        file_finish_def chk_simps BUF_def)
  from drive_file_sends_file [OF d] d show ?thesis
    by (auto simp: file_expected_def BUF_def piece_def less_Suc_eq)
qed

end
