(* ===== verification/FileTransfer.thy ===== *)
theory FileTransfer
  imports FileServer FileClient
begin

text \<open>
  The two ends of \<open>src/src/modes/file.rs\<close> together: the bytes that the receiver of
  \<open>FileServer\<close> has read when it reports a result are those that the sender of \<open>FileClient\<close> has
  written.
\<close>

section \<open>What the receiver reads\<close>

text \<open>The bytes the loop takes from the stream, with \<open>b\<close> of \<open>len\<close> already read.\<close>

fun file_reads :: "nat \<Rightarrow> nat \<Rightarrow> file_event list \<Rightarrow> bytes" where
  "file_reads len b [] = []"
| "file_reads len b (FileRead r # evs) =
     (if len \<le> b then []
      else (case r of
          Inl e \<Rightarrow> []
        | Inr got \<Rightarrow>
            (let part = take (min (len - b) BUF) got
             in if part = [] then [] else part @ file_reads len (b + length part) evs)))"
| "file_reads len b (_ # evs) = file_reads len b evs"

lemma file_reads_done: "len \<le> b \<Longrightarrow> file_reads len b evs = []"
  by (induction len b evs rule: file_reads.induct) auto

lemma file_reads_bound: "b \<le> len \<Longrightarrow> b + length (file_reads len b evs) \<le> len"
proof (induction len b evs rule: file_reads.induct)
  case (2 len b r evs)
  show ?case
  proof (cases "len \<le> b \<or> (\<exists>e. r = Inl e)")
    case False
    then obtain got where got: "r = Inr got" by (cases r) auto
    define part where "part = take (min (len - b) BUF) got"
    have "b + length part \<le> len" using "2.prems" by (simp add: part_def)
    with "2.IH" [OF _ got part_def] False show ?thesis
      by (auto simp: got Let_def simp flip: part_def)
  qed (use 2 in auto)
qed simp_all

lemma file_reads_append: "length (file_reads len b xs) \<le> length (file_reads len b (xs @ ys))"
  by (induction len b xs rule: file_reads.induct) (auto simp: Let_def split: sum.splits)

text \<open>The count of the loop is the number of these bytes.\<close>

lemma file_step_eof:
  "file_step p total_len st ev = Inr st' \<Longrightarrow> fr_eof st \<Longrightarrow> fr_eof st' \<and> fr_received st' = fr_received st"
  by (cases ev) (auto simp: file_step_def file_reading_def)

lemma file_steps_eof:
  assumes "file_steps p total_len st evs = Inr st'" "fr_eof st"
  shows "fr_received st' = fr_received st"
proof -
  have "fr_eof st' \<and> fr_received st' = fr_received st"
    by (rule run_steps_invariant [OF assms(1), where I = "\<lambda>s. fr_eof s \<and> fr_received s = fr_received st"])
      (use assms(2) file_step_eof in \<open>force+\<close>)
  then show ?thesis ..
qed

lemma file_step_part:
  assumes "file_step p total_len st (FileRead (Inr got)) = Inr st'" "\<not> fr_eof st" "fr_received st < total_len"
    and "part = take (min (unat total_len - unat (fr_received st)) BUF) got"
  shows "if part = [] then fr_eof st' \<and> fr_received st' = fr_received st
    else \<not> fr_eof st' \<and> unat (fr_received st') = unat (fr_received st) + length part"
proof -
  have d: "unat (total_len - fr_received st) = unat total_len - unat (fr_received st)"
    using assms(3) by (simp add: unat_sub)
  then have part: "part = take (file_want total_len (fr_received st)) got" by (simp add: assms(4) file_want_def)
  then have "length part \<le> file_want total_len (fr_received st)" by simp
  note A = file_read_advance [OF assms(3) this]
  have n: "length (take (file_want total_len (fr_received st)) got) = length part" by (simp add: part)
  show ?thesis
  proof (cases "part = []")
    case True
    with assms(1-3) n show ?thesis
      by (simp only: file_step_def file_reading_def file_event.case sum.case Let_def list.size if_True simp_thms) auto
  next
    case False
    then have "length part \<noteq> 0" by simp
    with assms(1-3) n A(1) [of p] have "st' = st\<lparr>fr_received := fr_received st + of_nat (length part),
        fr_counter := counter_add (fr_counter st) (of_nat (length part))\<rparr>"
      by (simp only: file_step_def file_reading_def file_event.case sum.case Let_def if_True if_False
          or_panic_simps and_then_simps sum.inject simp_thms)
    with False assms(2) A(2) show ?thesis by simp
  qed
qed

lemma file_step_idle:
  assumes "file_step p total_len st ev = Inr st'" "\<And>got. ev = FileRead (Inr got) \<Longrightarrow> total_len \<le> fr_received st"
  shows "fr_received st' = fr_received st" "fr_eof st' = fr_eof st"
  using assms by (cases ev; auto simp: file_step_def file_reading_def split: if_splits sum.splits)+

lemma file_steps_reads:
  assumes "file_steps p total_len st evs = Inr st'" "\<not> fr_eof st"
  shows "unat (fr_received st') = unat (fr_received st) + length (file_reads (unat total_len) (unat (fr_received st)) evs)"
  using assms
proof (induction evs arbitrary: st)
  case (Cons ev evs)
  then obtain st1 where s1: "file_step p total_len st ev = Inr st1" "file_steps p total_len st1 evs = Inr st'"
    by (auto simp: and_then_Inr)
  show ?case
  proof (cases "(\<exists>got. ev = FileRead (Inr got)) \<and> fr_received st < total_len")
    case True
    then obtain got where ev: "ev = FileRead (Inr got)" and lt: "fr_received st < total_len" by blast
    define part where "part = take (min (unat total_len - unat (fr_received st)) BUF) got"
    note P = file_step_part [OF s1(1) [unfolded ev] Cons.prems(2) lt part_def]
    have R: "file_reads (unat total_len) (unat (fr_received st)) (ev # evs)
        = (if part = [] then [] else part @ file_reads (unat total_len) (unat (fr_received st) + length part) evs)"
      using lt by (simp add: ev Let_def word_less_nat_alt flip: part_def)
    show ?thesis
    proof (cases "part = []")
      case True
      with P R file_steps_eof [OF s1(2)] show ?thesis by simp
    next
      case False
      with P R Cons.IH [OF s1(2)] show ?thesis by simp
    qed
  next
    case False
    then have idle: "fr_received st1 = fr_received st" "\<not> fr_eof st1"
      using file_step_idle [OF s1(1)] Cons.prems(2) by (auto simp: not_less)
    have "unat total_len \<le> unat (fr_received st)" if "ev = FileRead r" for r
      using s1(1) that False Cons.prems(2)
      by (cases r) (auto simp: file_step_def file_reading_def word_less_nat_alt split: if_splits)
    then have "file_reads (unat total_len) (unat (fr_received st)) (ev # evs)
        = file_reads (unat total_len) (unat (fr_received st)) evs"
      by (cases ev) (simp_all add: file_reads_done)
    with Cons.IH [OF s1(2)] idle show ?thesis by simp
  qed
qed simp

lemma file_reads_whole:
  assumes "serve_file p neg fmt acc t0 evs = Some (Inr (r, ls))"
  shows "length (file_reads (unat (file_expected neg)) 0 evs) = unat (file_expected neg)"
proof -
  let ?T = "file_expected neg"
  have "file_run p fmt t0 ?T file_rx_init evs = Some (Inr (r, ls))"
    using assms by (auto simp: serve_file_def split: sum.splits)
  from frx.run_result [OF this] obtain xs ys st where x: "evs = xs @ ys" "file_steps p ?T file_rx_init xs = Inr st"
    "file_done p fmt t0 ?T st = Some (r, ls)" by blast
  have "file_inv ?T st"
    by (rule run_steps_invariant [OF x(2), where I = "file_inv ?T"]) (auto simp: file_inv_init intro: file_step_inv)
  from file_done_reached [OF x(3) this] have "r_bytes r = ?T" by simp
  moreover have "r_bytes r = fr_received st"
    using x(3) by (auto simp: file_done_def file_result_def Let_def split: Option.bind_splits prod.splits)
  ultimately have "length (file_reads (unat ?T) 0 xs) = unat ?T"
    using file_steps_reads [OF x(2)] by (simp add: file_rx_init_def)
  moreover have "length (file_reads (unat ?T) 0 xs) \<le> length (file_reads (unat ?T) 0 evs)"
    unfolding x(1) by (rule file_reads_append)
  ultimately show ?thesis using file_reads_bound [of 0 "unat ?T" evs] by simp
qed

section \<open>The transfer\<close>

text \<open>A network that delivers a part of the stream, from its beginning.\<close>

definition file_network :: "bytes \<Rightarrow> nat \<Rightarrow> file_event list \<Rightarrow> bool" where
  "file_network sent len evs \<longleftrightarrow> (\<exists>rest. sent = file_reads len 0 evs @ rest)"

lemma file_transferred:
  assumes "serve_file p neg fmt acc t0 evs = Some (Inr (r, ls))"
    and "file_network sent (unat (file_expected neg)) evs"
  shows "file_reads (unat (file_expected neg)) 0 evs = take (unat (file_expected neg)) sent
    \<and> unat (file_expected neg) \<le> length sent \<and> r_bytes r = file_expected neg"
  using file_reads_whole [OF assms(1)] assms(2) serve_file_length [OF assms(1)]
  by (auto simp: file_network_def)

end
