(* ===== verification/Control.thy ===== *)
theory Control
  imports Cli Proto Timing
begin

text \<open>
  What the control code of \<open>src/src/session.rs\<close> is written in: a sequence of actions, each
  awaited, whose outcome decides how the function goes on. A \<open>proc\<close> is such a function: its
  next action and, for every outcome of it, the rest; \<open>Done\<close> is its return value, or the
  panic or the \<open>io::Error\<close> that ended it.

  Three readings of a \<open>proc\<close>: \<open>steps\<close>, its traces against any environment; \<open>play\<close>, its run
  on a byte stream with the framing of \<open>Proto\<close>; and, in \<open>Network\<close>, its composition with
  another one.
\<close>

section \<open>Actions\<close>

datatype channel = Stdout | Stderr

text \<open>
  \<open>ServeUntilStop\<close> runs the data path of TCP or UDP, which waits for the next control message, or
  for the failure to read one, and drops it; \<open>ServeAll\<close> that of a file.
\<close>

datatype proc =
  Done "unit outcome"
| Recv "msg io_result \<Rightarrow> proc"
| Send_msg msg "unit io_result \<Rightarrow> proc"
| BindData mode "u16 io_result \<Rightarrow> proc"
| ServeUntilStop negotiate "test_result outcome \<Rightarrow> proc"
| ServeAll negotiate "test_result outcome \<Rightarrow> proc"
| StatFile string "u64 io_result \<Rightarrow> proc"
| Dial string u16 "unit io_result \<Rightarrow> proc"
| DriveData cli_mode start negotiate "unit outcome \<Rightarrow> proc"
| ToJson test_result "string io_result \<Rightarrow> proc"
| Print channel string proc

text \<open>The operator \<open>?\<close>.\<close>

definition try_io :: "'a io_result \<Rightarrow> ('a \<Rightarrow> proc) \<Rightarrow> proc" where
  "try_io r k = (case r of Inl e \<Rightarrow> Done (Inl (Io e)) | Inr v \<Rightarrow> k v)"

definition try_outcome :: "'a outcome \<Rightarrow> ('a \<Rightarrow> proc) \<Rightarrow> proc" where
  "try_outcome r k = (case r of Inl e \<Rightarrow> Done (Inl e) | Inr v \<Rightarrow> k v)"

lemma try_simps [simp]:
  "try_io (Inl e) k = Done (Inl (Io e))" "try_io (Inr v) k = k v"
  "try_outcome (Inl f) j = Done (Inl f)" "try_outcome (Inr u) j = j u"
  by (simp_all add: try_io_def try_outcome_def)

section \<open>Traces\<close>

text \<open>
  \<open>Served\<close> has what the data path has read from the control connection: the message, or the error,
  that it took for the end of the run. A data path that returns a result has read something; one
  that fails may have.
\<close>

datatype event =
  Received "msg io_result"
| Sent msg "unit io_result"
| Bound mode "u16 io_result"
| Served negotiate "msg io_result option" "test_result outcome"
| Stat string "u64 io_result"
| Dialled string u16 "unit io_result"
| Driven cli_mode start negotiate "unit outcome"
| Encoded test_result "string io_result"
| Printed channel string

inductive steps :: "proc \<Rightarrow> event list \<Rightarrow> proc \<Rightarrow> bool" where
  here: "steps P [] P"
| recv: "steps (k r) tr Q \<Longrightarrow> steps (Recv k) (Received r # tr) Q"
| send: "steps (k r) tr Q \<Longrightarrow> steps (Send_msg m k) (Sent m r # tr) Q"
| bind: "steps (k r) tr Q \<Longrightarrow> steps (BindData md k) (Bound md r # tr) Q"
| until: "(\<forall>v. r = Inr v \<longrightarrow> d \<noteq> None) \<Longrightarrow> steps (k r) tr Q \<Longrightarrow> steps (ServeUntilStop n k) (Served n d r # tr) Q"
| all: "steps (k r) tr Q \<Longrightarrow> steps (ServeAll n k) (Served n None r # tr) Q"
| stat: "steps (k r) tr Q \<Longrightarrow> steps (StatFile f k) (Stat f r # tr) Q"
| dial: "steps (k r) tr Q \<Longrightarrow> steps (Dial h p k) (Dialled h p r # tr) Q"
| drive: "steps (k r) tr Q \<Longrightarrow> steps (DriveData md st n k) (Driven md st n r # tr) Q"
| json: "steps (k r) tr Q \<Longrightarrow> steps (ToJson res k) (Encoded res r # tr) Q"
| print: "steps P tr Q \<Longrightarrow> steps (Print ch s P) (Printed ch s # tr) Q"

inductive_simps steps_Nil: "steps P [] Q"
inductive_simps steps_Done: "steps (Done x) tr Q"
inductive_simps steps_Recv: "steps (Recv k) tr Q"
inductive_simps steps_Send: "steps (Send_msg m k) tr Q"
inductive_simps steps_Bind: "steps (BindData md k) tr Q"
inductive_simps steps_Until: "steps (ServeUntilStop n k) tr Q"
inductive_simps steps_All: "steps (ServeAll n k) tr Q"
inductive_simps steps_Stat: "steps (StatFile f k) tr Q"
inductive_simps steps_Dial: "steps (Dial h p k) tr Q"
inductive_simps steps_Drive: "steps (DriveData md st n k) tr Q"
inductive_simps steps_Json: "steps (ToJson res k) tr Q"
inductive_simps steps_Print: "steps (Print ch s P) tr Q"

lemma steps_try_io:
  "steps (try_io r k) tr Q \<longleftrightarrow>
     (\<exists>e. r = Inl e \<and> tr = [] \<and> Q = Done (Inl (Io e))) \<or> (\<exists>v. r = Inr v \<and> steps (k v) tr Q)"
  by (cases r) (auto simp: steps_Done)

lemma steps_try_outcome:
  "steps (try_outcome r k) tr Q \<longleftrightarrow>
     (\<exists>e. r = Inl e \<and> tr = [] \<and> Q = Done (Inl e)) \<or> (\<exists>v. r = Inr v \<and> steps (k v) tr Q)"
  by (cases r) (auto simp: steps_Done)

lemmas steps_simps = steps_try_io steps_try_outcome steps_Done steps_Recv steps_Send steps_Bind steps_Until steps_All steps_Stat
  steps_Dial steps_Drive steps_Json steps_Print

text \<open>The messages a trace sends.\<close>

fun sent_msgs :: "event list \<Rightarrow> msg list" where
  "sent_msgs [] = []"
| "sent_msgs (Sent m r # tr) = m # sent_msgs tr"
| "sent_msgs (_ # tr) = sent_msgs tr"

section \<open>Running on a byte stream\<close>

text \<open>
  The environment beyond the control connection: the outcomes of the other actions. A data
  path may wait forever (\<open>None\<close>), and then so does the function.
\<close>

record env =
  en_bind :: "mode \<Rightarrow> u16 io_result"
  en_serve :: "negotiate \<Rightarrow> test_result outcome option"
  en_stat :: "string \<Rightarrow> u64 io_result"
  en_dial :: "string \<Rightarrow> u16 \<Rightarrow> unit io_result"
  en_drive :: "cli_mode \<Rightarrow> start \<Rightarrow> negotiate \<Rightarrow> unit outcome option"
  en_json :: "test_result \<Rightarrow> string io_result"

text \<open>A data path that waits for the next message consumes it, unless it failed before that.\<close>

definition drain :: "codec \<Rightarrow> 'a outcome \<Rightarrow> stream \<Rightarrow> stream" where
  "drain c r s = (case r of Inl e \<Rightarrow> s | Inr v \<Rightarrow> snd (read_msg c stream_read_exact s))"

text \<open>
  \<open>play\<close> tells how the function ended, if it did, and how it has left the stream: what a function
  that waits forever had written until then is there as well.
\<close>

primrec play :: "proc \<Rightarrow> codec \<Rightarrow> env \<Rightarrow> stream \<Rightarrow> unit outcome option \<times> stream" where
  "play (Done x) = (\<lambda>c env s. (Some x, s))"
| "play (Recv k) = (\<lambda>c env s. let (r, s') = read_msg c stream_read_exact s in play (k r) c env s')"
| "play (Send_msg m k) = (\<lambda>c env s. let (r, s') = write_msg c stream_ops s m in play (k r) c env s')"
| "play (BindData md k) = (\<lambda>c env s. play (k (en_bind env md)) c env s)"
| "play (ServeUntilStop n k) =
     (\<lambda>c env s. case en_serve env n of None \<Rightarrow> (None, s) | Some r \<Rightarrow> play (k r) c env (drain c r s))"
| "play (ServeAll n k) =
     (\<lambda>c env s. case en_serve env n of None \<Rightarrow> (None, s) | Some r \<Rightarrow> play (k r) c env s)"
| "play (StatFile f k) = (\<lambda>c env s. play (k (en_stat env f)) c env s)"
| "play (Dial h p k) = (\<lambda>c env s. play (k (en_dial env h p)) c env s)"
| "play (DriveData md st n k) =
     (\<lambda>c env s. case en_drive env md st n of None \<Rightarrow> (None, s) | Some r \<Rightarrow> play (k r) c env s)"
| "play (ToJson res k) = (\<lambda>c env s. play (k (en_json env res)) c env s)"
| "play (Print ch t P) = (\<lambda>c env s. play P c env s)"

text \<open>The runs that end.\<close>

definition run_on :: "proc \<Rightarrow> codec \<Rightarrow> env \<Rightarrow> stream \<Rightarrow> (unit outcome \<times> stream) option" where
  "run_on P c env s = (case play P c env s of (None, s') \<Rightarrow> None | (Some x, s') \<Rightarrow> Some (x, s'))"

lemma run_on_simps [simp]:
  "run_on (Done x) c env s = Some (x, s)"
  "run_on (Recv k1) c env s = (let (r, s') = read_msg c stream_read_exact s in run_on (k1 r) c env s')"
  "run_on (Send_msg m k2) c env s = (let (r, s') = write_msg c stream_ops s m in run_on (k2 r) c env s')"
  "run_on (BindData b k3) c env s = run_on (k3 (en_bind env b)) c env s"
  "run_on (ServeUntilStop n k4) c env s =
     (case en_serve env n of None \<Rightarrow> None | Some r \<Rightarrow> run_on (k4 r) c env (drain c r s))"
  "run_on (ServeAll n k5) c env s = (case en_serve env n of None \<Rightarrow> None | Some r \<Rightarrow> run_on (k5 r) c env s)"
  "run_on (StatFile f k6) c env s = run_on (k6 (en_stat env f)) c env s"
  "run_on (Dial h p k7) c env s = run_on (k7 (en_dial env h p)) c env s"
  "run_on (DriveData md st n k8) c env s =
     (case en_drive env md st n of None \<Rightarrow> None | Some r \<Rightarrow> run_on (k8 r) c env s)"
  "run_on (ToJson res k9) c env s = run_on (k9 (en_json env res)) c env s"
  "run_on (Print ch t P) c env s = run_on P c env s"
  by (simp_all add: run_on_def case_prod_beta split: option.split)

lemma play_run_on: "play P c env s = (Some x, s') \<longleftrightarrow> run_on P c env s = Some (x, s')"
  "fst (play P c env s) = None \<longleftrightarrow> run_on P c env s = None"
  by (cases "play P c env s"; cases "fst (play P c env s)"; simp add: run_on_def)+

end
