(* ===== verification/Commuting.thy ===== *)
theory Commuting
  imports Main
begin

text \<open>
  Two components whose steps commute. Each is a partial function on the common state; when
  both can step, either order leads to the same state. Then the order does not matter at all:
  if one schedule comes to a state where neither can step, every schedule is a part of one
  that comes to the same state in the same number of steps.
\<close>

definition either :: "('s \<Rightarrow> 's option) \<Rightarrow> ('s \<Rightarrow> 's option) \<Rightarrow> 's \<Rightarrow> 's \<Rightarrow> bool" where
  "either f g s t \<longleftrightarrow> f s = Some t \<or> g s = Some t"

definition blocked :: "('s \<Rightarrow> 's option) \<Rightarrow> ('s \<Rightarrow> 's option) \<Rightarrow> 's \<Rightarrow> bool" where
  "blocked f g s \<longleftrightarrow> f s = None \<and> g s = None"

locale commuting =
  fixes left :: "'s \<Rightarrow> 's option" and right :: "'s \<Rightarrow> 's option"
  assumes commute:
    "left s = Some a \<Longrightarrow> right s = Some b \<Longrightarrow> \<exists>t. right a = Some t \<and> left b = Some t"
begin

lemma diamond:
  assumes "either left right s a" "either left right s b" "a \<noteq> b"
  shows "\<exists>t. either left right a t \<and> either left right b t"
  using assms commute unfolding either_def by (metis option.inject)

text \<open>After any first step, the rest of the run to the final state is one step shorter.\<close>

lemma any_first_step:
  assumes "(either left right ^^ n) s t" "blocked left right t" "either left right s u"
  shows "\<exists>m. n = Suc m \<and> (either left right ^^ m) u t"
  using assms
proof (induction n arbitrary: s u)
  case 0
  then show ?case by (auto simp: either_def blocked_def)
next
  case (Suc n)
  from Suc.prems(1) obtain a where a: "either left right s a" "(either left right ^^ n) a t"
    by (metis relpowp_Suc_D2)
  show ?case
  proof (cases "a = u")
    case False
    with diamond a(1) Suc.prems(3) obtain z where z: "either left right a z" "either left right u z" by blast
    with Suc.IH [OF a(2) Suc.prems(2)] obtain m where "n = Suc m" "(either left right ^^ m) z t" by blast
    with z(2) show ?thesis by (metis relpowp_Suc_I2)
  qed (use a in blast)
qed

lemma every_schedule:
  assumes "(either left right ^^ n) s t" "blocked left right t" "(either left right ^^ m) s u"
  shows "m \<le> n \<and> (either left right ^^ (n - m)) u t"
  using assms(3)
proof (induction m arbitrary: u)
  case 0
  then show ?case using assms(1) by simp
next
  case (Suc m)
  then obtain v where v: "(either left right ^^ m) s v" "either left right v u" by auto
  with Suc.IH any_first_step [OF _ assms(2)] obtain k where
    "m \<le> n" "n - m = Suc k" "(either left right ^^ k) u t" by blast
  then have "Suc m \<le> n" "n - Suc m = k" by arith+
  with \<open>(either left right ^^ k) u t\<close> show ?case by simp
qed

text \<open>A blocked state reached by any schedule is the final state of all.\<close>

lemma blocked_unique:
  assumes "(either left right ^^ n) s t" "blocked left right t"
    and "(either left right ^^ m) s u" "blocked left right u"
  shows "u = t \<and> m = n"
proof -
  note A = every_schedule [OF assms(1-3)] and B = every_schedule [OF assms(3,4,1)]
  then have "m = n" by simp
  with A show ?thesis by simp
qed

end

end
