(* ===== verification/Network.thy ===== *)
theory Network
  imports Control Commuting
begin

text \<open>
  Two control functions joined by the two directions of a connection. A message that is
  written is queued as what the peer will read: the decoding of its encoding; that the bytes
  of the messages stay apart and in order is \<open>framing_roundtrip\<close> of \<open>Proto\<close>. The functions
  run concurrently; each step of the system is one action of one of them. A function that
  has returned has closed its end: its peer still reads what is queued and then the end of
  the stream. What the other actions return is given by an environment for each side.
\<close>

section \<open>One side\<close>

record side_env = env +
  en_wire :: "msg \<Rightarrow> msg io_result io_result"

text \<open>Whether \<open>write_msg\<close> succeeds on a healthy connection, and what \<open>read_msg\<close> makes of it.\<close>

definition wire :: "codec \<Rightarrow> msg \<Rightarrow> msg io_result io_result" where
  "wire c m =
     (case to_vec c m of
        Inl e \<Rightarrow> Inl e
      | Inr payload \<Rightarrow>
          if unat MAX_FRAME_BYTES < length payload
          then Inl (IoError InvalidData ''control message exceeds MAX_FRAME_BYTES'')
          else Inr (from_slice c payload))"

definition with_codec :: "codec \<Rightarrow> env \<Rightarrow> side_env" where
  "with_codec c env = env.extend env \<lparr>en_wire = wire c\<rparr>"

lemma with_codec_simps [simp]:
  "en_bind (with_codec c env) = en_bind env" "en_serve (with_codec c env) = en_serve env"
  "en_stat (with_codec c env) = en_stat env" "en_dial (with_codec c env) = en_dial env"
  "en_drive (with_codec c env) = en_drive env" "en_json (with_codec c env) = en_json env"
  "en_wire (with_codec c env) = wire c"
  by (simp_all add: with_codec_def env.extend_def)

text \<open>The framing does just that.\<close>

lemma wire_write:
  assumes "write_msg c stream_ops s m = (x, s')" "room s = None"
  shows "x = map_sum id (\<lambda>_. ()) (wire c m)"
  using assms
  by (auto simp: write_msg_def wire_def stream_ops_def stream_write_all_def split: sum.splits if_splits)

lemma wire_read:
  assumes "wire c m = Inr r" "inbox s = frame_of c m @ rest"
  shows "\<exists>s'. read_msg c stream_read_exact s = (r, s') \<and> inbox s' = rest"
proof -
  obtain payload where p: "to_vec c m = Inr payload" "length payload \<le> 65536" "from_slice c payload = r"
    using assms(1) by (auto simp: wire_def unat_MAX_FRAME_BYTES split: sum.splits if_splits)
  with assms(2) have "inbox s = frame payload @ rest" by (simp add: frame_of_def)
  from src.read_msg_frame [OF this p(2), of c] p(3) show ?thesis by simp
qed

lemma wire_conveys: "wire c m = Inr (Inr m) \<longleftrightarrow> decodes c m \<and> fits c m"
  by (auto simp: wire_def decodes_def fits_def split: sum.splits)

text \<open>
  A step of a function: the rest of it, what is left of its incoming queue, what it queues
  for its peer, and the event. \<open>shut\<close> says that the peer has returned. A data path that waits
  for a message steps when one is there, or the end of the stream; one that never ends does
  not.
\<close>

definition eof :: "msg io_result" where
  "eof = Inl (IoError UnexpectedEof ''early eof'')"

type_synonym queue = "msg io_result list"

fun advance :: "side_env \<Rightarrow> bool \<Rightarrow> proc \<Rightarrow> queue \<Rightarrow> (proc \<times> queue \<times> queue \<times> event) option" where
  "advance E shut (Done x) q = None"
| "advance E shut (Recv k) q =
     (case q of
        r # q' \<Rightarrow> Some (k r, q', [], Received r)
      | [] \<Rightarrow> if shut then Some (k eof, [], [], Received eof) else None)"
| "advance E shut (Send_msg m k) q =
     (case en_wire E m of
        Inl e \<Rightarrow> Some (k (Inl e), q, [], Sent m (Inl e))
      | Inr r \<Rightarrow> Some (k (Inr ()), q, [r], Sent m (Inr ())))"
| "advance E shut (BindData md k) q = Some (k (en_bind E md), q, [], Bound md (en_bind E md))"
| "advance E shut (ServeUntilStop n k) q =
     (case en_serve E n of
        None \<Rightarrow> None
      | Some (Inl e) \<Rightarrow> Some (k (Inl e), q, [], Served n None (Inl e))
      | Some (Inr v) \<Rightarrow>
          if q = [] \<and> \<not> shut then None
          else Some (k (Inr v), tl q, [], Served n (Some (case q of [] \<Rightarrow> eof | d # q' \<Rightarrow> d)) (Inr v)))"
| "advance E shut (ServeAll n k) q =
     (case en_serve E n of None \<Rightarrow> None | Some r \<Rightarrow> Some (k r, q, [], Served n None r))"
| "advance E shut (StatFile f k) q = Some (k (en_stat E f), q, [], Stat f (en_stat E f))"
| "advance E shut (Dial h p k) q = Some (k (en_dial E h p), q, [], Dialled h p (en_dial E h p))"
| "advance E shut (DriveData md st n k) q =
     (case en_drive E md st n of None \<Rightarrow> None | Some r \<Rightarrow> Some (k r, q, [], Driven md st n r))"
| "advance E shut (ToJson res k) q = Some (k (en_json E res), q, [], Encoded res (en_json E res))"
| "advance E shut (Print ch s P) q = Some (P, q, [], Printed ch s)"

text \<open>More input does not disturb a step that can be taken.\<close>

lemma advance_mono:
  assumes "advance E shut P q = Some (Q, q', out, ev)" and "shut \<Longrightarrow> new = []"
    and "shut \<longrightarrow> shut'"
  shows "advance E shut' P (q @ new) = Some (Q, q' @ new, out, ev)"
  using assms by (cases P) (auto split: list.splits option.splits sum.splits if_splits)

lemma advance_steps: "advance E shut P q = Some (Q, q', out, ev) \<Longrightarrow> steps Q tr R \<Longrightarrow> steps P (ev # tr) R"
  by (cases P) (auto split: list.splits option.splits sum.splits if_splits intro: steps.intros)

section \<open>The two sides\<close>

record sys =
  sy_client :: proc
  sy_server :: proc
  sy_up :: queue
  sy_down :: queue
  sy_client_log :: "event list"
  sy_server_log :: "event list"

definition returned :: "proc \<Rightarrow> bool" where
  "returned P = (case P of Done x \<Rightarrow> True | _ \<Rightarrow> False)"

lemma returned_simps [simp]: "returned (Done x)" "returned P \<Longrightarrow> advance E c P q = None"
  by (simp_all add: returned_def split: proc.splits)

definition step_client :: "side_env \<Rightarrow> sys \<Rightarrow> sys option" where
  "step_client E s =
     map_option (\<lambda>(P, q, out, ev).
         s\<lparr>sy_client := P, sy_down := q, sy_up := sy_up s @ out, sy_client_log := sy_client_log s @ [ev]\<rparr>)
       (advance E (returned (sy_server s)) (sy_client s) (sy_down s))"

definition step_server :: "side_env \<Rightarrow> sys \<Rightarrow> sys option" where
  "step_server E s =
     map_option (\<lambda>(P, q, out, ev).
         s\<lparr>sy_server := P, sy_up := q, sy_down := sy_down s @ out, sy_server_log := sy_server_log s @ [ev]\<rparr>)
       (advance E (returned (sy_client s)) (sy_server s) (sy_up s))"

definition sys_init :: "proc \<Rightarrow> proc \<Rightarrow> sys" where
  "sys_init C S =
     \<lparr>sy_client = C, sy_server = S, sy_up = [], sy_down = [], sy_client_log = [], sy_server_log = []\<rparr>"

text \<open>The sides step independently.\<close>

lemma sides_commute:
  assumes "step_client E s = Some a" "step_server F s = Some b"
  shows "\<exists>t. step_server F a = Some t \<and> step_client E b = Some t"
proof -
  obtain P q out ev where c: "advance E (returned (sy_server s)) (sy_client s) (sy_down s) = Some (P, q, out, ev)"
    "a = s\<lparr>sy_client := P, sy_down := q, sy_up := sy_up s @ out, sy_client_log := sy_client_log s @ [ev]\<rparr>"
    using assms(1) by (auto simp: step_client_def)
  obtain P' q' out' ev' where d: "advance F (returned (sy_client s)) (sy_server s) (sy_up s) = Some (P', q', out', ev')"
    "b = s\<lparr>sy_server := P', sy_up := q', sy_down := sy_down s @ out', sy_server_log := sy_server_log s @ [ev']\<rparr>"
    using assms(2) by (auto simp: step_server_def)
  have nr: "\<not> returned (sy_server s)" "\<not> returned (sy_client s)" using c d by auto
  have "advance E (returned P') (sy_client s) (sy_down s @ out') = Some (P, q @ out', out, ev)"
    by (rule advance_mono [OF c(1)]) (use nr in auto)
  moreover have "advance F (returned P) (sy_server s) (sy_up s @ out) = Some (P', q' @ out, out', ev')"
    by (rule advance_mono [OF d(1)]) (use nr in auto)
  ultimately show ?thesis by (simp add: c(2) d(2) step_client_def step_server_def)
qed

interpretation net: commuting "step_client E" "step_server F" for E F
  by unfold_locales (rule sides_commute)

abbreviation net_step :: "side_env \<Rightarrow> side_env \<Rightarrow> sys \<Rightarrow> sys \<Rightarrow> bool" where
  "net_step E F \<equiv> either (step_client E) (step_server F)"

abbreviation net_blocked :: "side_env \<Rightarrow> side_env \<Rightarrow> sys \<Rightarrow> bool" where
  "net_blocked E F \<equiv> blocked (step_client E) (step_server F)"

section \<open>Runs\<close>

text \<open>Some schedule comes to a state where nothing can happen any more, and \<open>Q\<close> holds there.\<close>

definition leads :: "side_env \<Rightarrow> side_env \<Rightarrow> sys \<Rightarrow> (sys \<Rightarrow> bool) \<Rightarrow> bool" where
  "leads E F s Q \<longleftrightarrow> (\<exists>n t. (net_step E F ^^ n) s t \<and> net_blocked E F t \<and> Q t)"

lemma leads_client: "step_client E s = Some s' \<Longrightarrow> leads E F s' Q \<Longrightarrow> leads E F s Q"
  unfolding leads_def by (metis either_def relpowp_Suc_I2)

lemma leads_server: "step_server F s = Some s' \<Longrightarrow> leads E F s' Q \<Longrightarrow> leads E F s Q"
  unfolding leads_def by (metis either_def relpowp_Suc_I2)

lemma leads_stop: "step_client E s = None \<Longrightarrow> step_server F s = None \<Longrightarrow> Q s \<Longrightarrow> leads E F s Q"
  unfolding leads_def blocked_def by (metis relpowp_0_I)

text \<open>The next step, the client's if it has one.\<close>

lemma leads_next:
  assumes "case step_client E s of
      Some s' \<Rightarrow> leads E F s' Q
    | None \<Rightarrow> (case step_server F s of Some s' \<Rightarrow> leads E F s' Q | None \<Rightarrow> Q s)"
  shows "leads E F s Q"
  using assms by (auto split: option.splits intro: leads_client leads_server leads_stop)

text \<open>If one schedule leads there, all do, and in a bounded number of steps.\<close>

definition all_lead :: "side_env \<Rightarrow> side_env \<Rightarrow> sys \<Rightarrow> (sys \<Rightarrow> bool) \<Rightarrow> bool" where
  "all_lead E F s Q \<longleftrightarrow>
     (\<exists>n t. net_blocked E F t \<and> Q t \<and>
        (\<forall>m u. (net_step E F ^^ m) s u \<longrightarrow> m \<le> n \<and> (net_step E F ^^ (n - m)) u t))"

lemma leads_all:
  assumes "leads E F s Q"
  shows "all_lead E F s Q"
proof -
  obtain n t where t: "(net_step E F ^^ n) s t" "net_blocked E F t" "Q t"
    using assms by (auto simp: leads_def)
  with net.every_schedule [OF t(1,2)] show ?thesis by (auto simp: all_lead_def)
qed

text \<open>Both logs are traces of the functions.\<close>

lemma steps_snoc: "steps P tr Q \<Longrightarrow> steps Q [ev] R \<Longrightarrow> steps P (tr @ [ev]) R"
  by (induction rule: steps.induct) (auto intro: steps.intros)

lemma net_logs:
  assumes "(net_step E F ^^ n) (sys_init C S) t"
  shows "steps C (sy_client_log t) (sy_client t) \<and> steps S (sy_server_log t) (sy_server t)"
  using assms
proof (induction n arbitrary: t)
  case 0
  then show ?case by (auto simp: sys_init_def intro: steps.here)
next
  case (Suc n)
  then obtain u where u: "(net_step E F ^^ n) (sys_init C S) u" "net_step E F u t" by auto
  from Suc.IH [OF u(1)] u(2) show ?case
    by (auto simp: either_def step_client_def step_server_def
        intro!: steps_snoc dest!: advance_steps [OF _ steps.here])
qed

end
