(* ===== verification/SessionServer.thy ===== *)
theory SessionServer
  imports Network TcpServer UdpServer FileServer
begin

text \<open>
  The server's half of \<open>src/src/session.rs\<close>: the session with one client, as a \<open>proc\<close> cut at
  its awaits, the dispatch to the data paths, and the accept loop. A hang of a data path is
  \<open>None\<close>; so is the accept loop's waiting for a next client.
\<close>

definition VERSION :: string where
  "VERSION = ''0.1.1''"

fun proto_error_debug :: "proto_error \<Rightarrow> string" where
  "proto_error_debug VersionMismatch = ''VersionMismatch''"
| "proto_error_debug InvalidParams = ''InvalidParams''"
| "proto_error_debug UnexpectedMessage = ''UnexpectedMessage''"
| "proto_error_debug DataConnectFailed = ''DataConnectFailed''"
| "proto_error_debug Timeout = ''Timeout''"
| "proto_error_debug Internal = ''Internal''"

definition reject :: "proto_error \<Rightarrow> proc" where
  "reject err =
     Send_msg (Error err) (\<lambda>r. try_io r (\<lambda>_.
       Done (Inl (Io (IoError InvalidData (''rejected: '' @ proto_error_debug err))))))"

section \<open>A session\<close>

text \<open>From the last await back to the first.\<close>

definition ss_report :: "test_result \<Rightarrow> proc" where
  "ss_report result = Send_msg (Result result) (\<lambda>r. try_io r (\<lambda>_. Done (Inr ())))"

definition ss_serve :: "negotiate \<Rightarrow> proc" where
  "ss_serve neg =
     (case mode neg of
        Tcp \<Rightarrow> ServeUntilStop neg (\<lambda>r. try_outcome r ss_report)
      | Udp \<Rightarrow> ServeUntilStop neg (\<lambda>r. try_outcome r ss_report)
      | File \<Rightarrow> ServeAll neg (\<lambda>r. try_outcome r (\<lambda>result. Recv (\<lambda>_. ss_report result))))"

definition ss_run :: "negotiate \<Rightarrow> proc" where
  "ss_run neg =
     Recv (\<lambda>r. try_io r (\<lambda>m. case m of Run \<Rightarrow> ss_serve neg | _ \<Rightarrow> reject UnexpectedMessage))"

definition ss_start :: "negotiate \<Rightarrow> u16 \<Rightarrow> proc" where
  "ss_start neg port =
     Send_msg (Start \<lparr>data_port = port, server_seed = 0x5EED2026\<rparr>) (\<lambda>r. try_io r (\<lambda>_. ss_run neg))"

definition ss_bind :: "negotiate \<Rightarrow> proc" where
  "ss_bind neg = BindData (mode neg) (\<lambda>r. try_io r (ss_start neg))"

definition ss_negotiate :: proc where
  "ss_negotiate =
     Recv (\<lambda>r. try_io r (\<lambda>m. case m of Negotiate neg \<Rightarrow> ss_bind neg | _ \<Rightarrow> reject UnexpectedMessage))"

definition ss_welcome :: "hello \<Rightarrow> proc" where
  "ss_welcome h =
     (let accepted = (h_protocol_version h = PROTOCOL_VERSION)
      in Send_msg (Welcome \<lparr>w_protocol_version = PROTOCOL_VERSION, w_server_version = VERSION,
                            w_nonce = h_nonce h, w_accepted = accepted\<rparr>)
           (\<lambda>r. try_io r (\<lambda>_. if accepted then ss_negotiate else reject VersionMismatch)))"

definition serve_session :: proc where
  "serve_session =
     Recv (\<lambda>r. try_io r (\<lambda>m. case m of Hello h \<Rightarrow> ss_welcome h | _ \<Rightarrow> reject UnexpectedMessage))"

lemmas server_defs = reject_def ss_report_def ss_serve_def ss_run_def ss_start_def ss_bind_def
  ss_negotiate_def ss_welcome_def serve_session_def

section \<open>The data paths\<close>

text \<open>What the network and the clock do to the server's data path, for each mode.\<close>

record server_world =
  sw_socket :: "mode \<Rightarrow> unit io_result"
  sw_addr :: "mode \<Rightarrow> u16 io_result"
  sw_tcp :: "unit io_result list \<times> instant \<times> tcp_event list"
  sw_udp :: "instant \<times> udp_event list"
  sw_file :: "unit io_result \<times> instant \<times> file_event list"

text \<open>
  The data socket of a session: opened on any port, then asked for the port it got
  (\<open>bind_data\<close> of \<open>modes/udp.rs\<close>, and the same for the TCP listener).
\<close>

fun bind_data :: "unit io_result \<Rightarrow> u16 io_result \<Rightarrow> u16 io_result" where
  "bind_data (Inl e) local_port = Inl e"
| "bind_data (Inr _) local_port = local_port"

definition sw_bind :: "server_world \<Rightarrow> mode \<Rightarrow> u16 io_result" where
  "sw_bind w md = bind_data (sw_socket w md) (sw_addr w md)"

lemma sw_bind_record [simp]:
  "sw_bind \<lparr>sw_socket = s, sw_addr = a, sw_tcp = t, sw_udp = u, sw_file = f\<rparr> md = bind_data (s md) (a md)"
  by (simp add: sw_bind_def)

definition serve_data :: "profile \<Rightarrow> format \<Rightarrow> server_world \<Rightarrow> negotiate \<Rightarrow> test_result outcome option" where
  "serve_data p fmt w neg =
     map_option (map_sum id fst)
       (case mode neg of
          Tcp \<Rightarrow> (case sw_tcp w of (accepts, t0, evs) \<Rightarrow> serve_tcp p neg fmt accepts t0 evs)
        | Udp \<Rightarrow> (case sw_udp w of (t0, evs) \<Rightarrow> serve_udp p neg fmt t0 evs)
        | File \<Rightarrow> (case sw_file w of (accepted, t0, evs) \<Rightarrow> serve_file p neg fmt accepted t0 evs))"

lemma result_of: "map_sum id fst z = Inr r \<longleftrightarrow> (\<exists>l. z = Inr (r, l))"
  by (cases z) auto

text \<open>The actions only a client takes are never asked for.\<close>

definition server_env :: "profile \<Rightarrow> format \<Rightarrow> server_world \<Rightarrow> env" where
  "server_env p fmt w =
     \<lparr>en_bind = sw_bind w, en_serve = serve_data p fmt w,
      en_stat = (\<lambda>_. Inl (IoError OtherKind ''client only'')),
      en_dial = (\<lambda>_ _. Inl (IoError OtherKind ''client only'')),
      en_drive = (\<lambda>_ _ _. Some (Inl (Panic ''client only''))), en_json = (\<lambda>_. Inl (IoError OtherKind ''client only''))\<rparr>"

section \<open>The accept loop\<close>

text \<open>A client as the server sees it: its address, its bytes and its data traffic.\<close>

record conn =
  cn_peer :: string
  cn_ctrl :: stream
  cn_world :: server_world

text \<open>
  The sessions served, the last of them perhaps one that never ends (the peer and what was written
  to it), the lines printed to the standard error, and the end of the loop, if it ends.
\<close>

type_synonym served = "(string \<times> bytes) list \<times> string list \<times> unit outcome option"

definition log_session :: "string \<times> bytes \<Rightarrow> string list \<Rightarrow> served \<Rightarrow> served" where
  "log_session x ls = (\<lambda>(xs, ls', r). (x # xs, ls @ ls', r))"

fun serve_loop :: "profile \<Rightarrow> codec \<Rightarrow> format \<Rightarrow> conn io_result list \<Rightarrow> served" where
  "serve_loop p c fmt [] = ([], [], None)"
| "serve_loop p c fmt (Inl e # cs) = ([], [], Some (Inl (Io e)))"
| "serve_loop p c fmt (Inr x # cs) =
     (case play serve_session c (server_env p fmt (cn_world x)) (cn_ctrl x) of
        (None, st) \<Rightarrow> ([(cn_peer x, outbox st)], [], None)
      | (Some (Inl (Panic s)), st) \<Rightarrow> ([(cn_peer x, outbox st)], [], Some (Inl (Panic s)))
      | (Some (Inl (Io e)), st) \<Rightarrow>
          log_session (cn_peer x, outbox st) [''session with '' @ cn_peer x @ '' ended: '' @ message e]
            (serve_loop p c fmt cs)
      | (Some (Inr _), st) \<Rightarrow> log_session (cn_peer x, outbox st) [] (serve_loop p c fmt cs))"

definition serve ::
  "profile \<Rightarrow> codec \<Rightarrow> u16 \<Rightarrow> format \<Rightarrow> unit io_result \<Rightarrow> conn io_result list \<Rightarrow> string list \<times> served" where
  "serve p c port fmt bound conns =
     (case bound of
        Inl e \<Rightarrow> ([], [], [], Some (Inl (Io e)))
      | Inr _ \<Rightarrow>
          ([''andri server listening on 0.0.0.0:'' @ show_nat (unat port)], serve_loop p c fmt conns))"

end
