(* ===== verification/SessionClient.thy ===== *)
theory SessionClient
  imports SessionServer TcpClient UdpClient FileClient
begin

text \<open>
  The client's half of \<open>src/src/session.rs\<close>, as a \<open>proc\<close> cut at its awaits, the dispatch to
  the data paths, and \<open>src/src/main.rs\<close>. Text that is not ASCII is its UTF-8 bytes.
\<close>

definition WRITE_BUF :: usize where
  "WRITE_BUF = 64 * 1024"

definition WARMUP_SECS :: u64 where
  "WARMUP_SECS = 1"

definition NONCE :: u64 where
  "NONCE = 0xA17D2026"

definition other :: "string \<Rightarrow> proc" where
  "other m = Done (Inl (Io (IoError OtherKind m)))"

fun print_lines :: "channel \<Rightarrow> string list \<Rightarrow> proc \<Rightarrow> proc" where
  "print_lines ch [] P = P"
| "print_lines ch (l # ls) P = Print ch l (print_lines ch ls P)"

definition unwrap_or :: "'a \<Rightarrow> 'a option \<Rightarrow> 'a" where
  "unwrap_or d x = (case x of None \<Rightarrow> d | Some v \<Rightarrow> v)"

section \<open>Text\<close>

fun format_debug :: "format \<Rightarrow> string" where
  "format_debug Bits = ''Bits''"
| "format_debug Bytes = ''Bytes''"
| "format_debug Mbps = ''Mbps''"
| "format_debug Gbps = ''Gbps''"

definition show_u64 :: "u64 \<Rightarrow> string" where
  "show_u64 n = show_nat (unat n)"

text \<open>The banner (\<open>print_config\<close>).\<close>

definition print_config :: "cli \<Rightarrow> string \<Rightarrow> cli_mode \<Rightarrow> string list" where
  "print_config args host md =
     (let opts = c_client_opts args
      in [''andri '' @ VERSION @ '' '' @ [CHR 0xE2, CHR 0x80, CHR 0x94] @ '' client'',
          ''  target     '' @ host @ '':'' @ show_nat (unat (c_port args)),
          ''  mode       '' @ mode_display md,
          ''  duration   '' @ show_u64 (o_duration opts) @ ''s (+ '' @ show_u64 WARMUP_SECS
            @ ''s warm-up, excluded)'']
         @ (if md = UdpMode then
              [''  bitrate    '' @ render (c_format args) (u64_to_f64 (unwrap_or 0 (o_bitrate opts))),
               ''  packet     '' @ show_u64 (o_packet opts) @ '' bytes'']
            else
              [''  streams    '' @ show_nat (unat (o_parallel opts)),
               ''  buffer     '' @ show_u64 (WRITE_BUF div 1024) @ '' KiB''])
         @ [''  bidir      '' @ (if o_bidir opts then ''true'' else ''false''),
            ''  format     '' @ format_debug (c_format args),
            ''''])"

text \<open>The summary of the mode.\<close>

definition summary :: "cli \<Rightarrow> cli_mode \<Rightarrow> test_result \<Rightarrow> string" where
  "summary args md res =
     (let opts = c_client_opts args; rate = render (c_format args) (r_bits_per_sec res); nl = CHR 10
      in case md of
           UdpMode \<Rightarrow>
             nl # ''UDP: '' @ rate @ '' over '' @ fixed 1 (r_duration_secs res) @ ''s | loss ''
             @ show_u64 (unwrap_or 0 (packets_lost res)) @ ''/'' @ show_u64 (unwrap_or 0 (packets_expected res))
             @ '' ('' @ fixed 2 (fmul (unwrap_or (Fin 0) (loss_ratio res)) (Fin 100)) @ ''%) | jitter ''
             @ fixed 3 (unwrap_or (Fin 0) (jitter_ms res)) @ '' ms''
         | FileMode \<Rightarrow>
             nl # ''File transfer: '' @ rate @ '' over '' @ fixed 3 (r_duration_secs res) @ ''s | ''
             @ show_u64 (r_bytes res) @ '' bytes from ''
             @ (if o_null_source opts then ''memory (--null-source)'' else ''disk'')
         | TcpMode \<Rightarrow>
             nl # ''TCP throughput: '' @ rate @ '' over '' @ fixed 1 (r_duration_secs res) @ ''s, ''
             @ show_nat (unat (o_parallel opts)) @ '' stream(s)'')"

section \<open>A session\<close>

text \<open>From the last await back to the first.\<close>

definition cs_report :: "cli \<Rightarrow> cli_mode \<Rightarrow> test_result \<Rightarrow> proc" where
  "cs_report args md res =
     (if o_json (c_client_opts args)
      then ToJson res (\<lambda>r. try_io r (\<lambda>s. Print Stdout s (Done (Inr ()))))
      else Print Stdout (summary args md res) (Done (Inr ())))"

definition cs_result :: "cli \<Rightarrow> cli_mode \<Rightarrow> proc" where
  "cs_result args md =
     Recv (\<lambda>r. try_io r (\<lambda>m. case m of Result res \<Rightarrow> cs_report args md res | _ \<Rightarrow> other ''expected Result''))"

definition cs_drive :: "cli \<Rightarrow> cli_mode \<Rightarrow> negotiate \<Rightarrow> start \<Rightarrow> proc" where
  "cs_drive args md neg st =
     Send_msg Run (\<lambda>r. try_io r (\<lambda>_. DriveData md st neg (\<lambda>r. try_outcome r (\<lambda>_.
       Send_msg Stop (\<lambda>r. try_io r (\<lambda>_. cs_result args md))))))"

definition cs_started :: "cli \<Rightarrow> cli_mode \<Rightarrow> negotiate \<Rightarrow> start \<Rightarrow> proc" where
  "cs_started args md neg st =
     (if c_verbose args
      then try_outcome (payload_sample st (buffer_bytes neg)) (\<lambda>sample.
             Print Stderr (''  payload    '' @ payload_preview sample @ [CHR 10]) (cs_drive args md neg st))
      else cs_drive args md neg st)"

fun wire_mode :: "cli_mode \<Rightarrow> mode" where
  "wire_mode TcpMode = Tcp"
| "wire_mode UdpMode = Udp"
| "wire_mode FileMode = File"

definition request :: "client_opts \<Rightarrow> cli_mode \<Rightarrow> u64 option \<Rightarrow> negotiate" where
  "request opts md len =
     \<lparr>mode = wire_mode md,
      duration_secs = o_duration opts,
      warmup_secs = (if md = FileMode then 0 else WARMUP_SECS),
      parallel = o_parallel opts,
      buffer_bytes = WRITE_BUF,
      bidir = o_bidir opts,
      bitrate_bps = (if md = UdpMode then o_bitrate opts else None),
      packet_bytes = (if md = UdpMode then Some (o_packet opts) else None),
      file_len = len,
      null_source = (if md = FileMode then Some (o_null_source opts) else None)\<rparr>"

definition cs_negotiate :: "cli \<Rightarrow> cli_mode \<Rightarrow> negotiate \<Rightarrow> proc" where
  "cs_negotiate args md neg =
     Send_msg (Negotiate neg) (\<lambda>r. try_io r (\<lambda>_.
       Recv (\<lambda>r. try_io r (\<lambda>m. case m of
         Start st \<Rightarrow> cs_started args md neg st
       | _ \<Rightarrow> other ''expected Start''))))"

definition cs_hello :: "cli \<Rightarrow> cli_mode \<Rightarrow> u64 option \<Rightarrow> proc" where
  "cs_hello args md len =
     Send_msg (Hello \<lparr>h_protocol_version = PROTOCOL_VERSION, h_client_version = VERSION, h_nonce = NONCE\<rparr>)
       (\<lambda>r. try_io r (\<lambda>_. Recv (\<lambda>r. try_io r (\<lambda>m. case m of
          Welcome w \<Rightarrow>
            if \<not> w_accepted w \<or> w_nonce w \<noteq> NONCE then other ''server rejected handshake''
            else cs_negotiate args md (request (c_client_opts args) md len)
        | _ \<Rightarrow> other ''expected Welcome''))))"

definition cs_dial :: "cli \<Rightarrow> string \<Rightarrow> cli_mode \<Rightarrow> u64 option \<Rightarrow> proc" where
  "cs_dial args host md len =
     print_lines Stderr (if o_json (c_client_opts args) then [] else print_config args host md)
       (Dial host (c_port args) (\<lambda>r. try_io r (\<lambda>_. cs_hello args md len)))"

definition connect :: "cli \<Rightarrow> string \<Rightarrow> proc" where
  "connect args host =
     (let opts = c_client_opts args
      in case selected (o_mode opts) of
           None \<Rightarrow> other ''a mode is required: pass one of --tcp, --udp, or --file <path>''
         | Some md \<Rightarrow>
             if md = UdpMode \<and> o_bitrate opts = None
             then other ''--udp requires --bitrate (e.g. --bitrate 1G, 500M, 10M)''
             else if md = FileMode then
               (case mf_file (o_mode opts) of
                  None \<Rightarrow> other ''--file requires a path''
                | Some path \<Rightarrow> StatFile path (\<lambda>r. try_io r (\<lambda>len. cs_dial args host md (Some len))))
             else cs_dial args host md None)"

lemmas client_defs = other_def cs_report_def cs_result_def cs_drive_def cs_started_def
  cs_negotiate_def cs_hello_def cs_dial_def connect_def

section \<open>The data paths\<close>

text \<open>What the network, the disk and the clock do to the client.\<close>

record client_world =
  cw_metadata :: "string \<Rightarrow> metadata io_result"
  cw_dial :: "string \<Rightarrow> u16 \<Rightarrow> unit io_result"
  cw_json :: "test_result \<Rightarrow> string io_result"
  cw_tcp :: "(unit io_result \<times> unit io_result) list \<times> instant
               \<times> (unit io_result \<times> (instant \<times> write_result) list) list \<times> counter list \<times> tick list"
  cw_udp :: "unit io_result \<times> unit io_result \<times> udp_iteration list"
  cw_file :: file_env

definition drive_data ::
  "profile \<Rightarrow> cli \<Rightarrow> client_world \<Rightarrow> cli_mode \<Rightarrow> start \<Rightarrow> negotiate \<Rightarrow> unit outcome option" where
  "drive_data p args w md st neg =
     (let opts = c_client_opts args; fmt = c_format args; quiet = o_json opts
      in case md of
           TcpMode \<Rightarrow>
             (case cw_tcp w of (conns, t0, runs, readings) \<Rightarrow>
                map_option fst (drive_tcp p conns st neg fmt quiet t0 runs readings))
         | UdpMode \<Rightarrow>
             (case cw_udp w of (bind_r, connect_r, its) \<Rightarrow>
                map_option (\<lambda>(sent, ls, r). r) (drive_udp p bind_r connect_r st neg fmt quiet its))
         | FileMode \<Rightarrow>
             map_option (\<lambda>(sent, ls, r). r)
               (drive_file p (cw_file w) st neg (mf_file (o_mode opts)) (o_null_source opts) fmt quiet))"

text \<open>The actions only a server takes are never asked for.\<close>

definition client_env :: "profile \<Rightarrow> cli \<Rightarrow> client_world \<Rightarrow> env" where
  "client_env p args w =
     \<lparr>en_bind = (\<lambda>_. Inl (IoError OtherKind ''server only'')), en_serve = (\<lambda>_. Some (Inl (Panic ''server only''))),
      en_stat = file_size (cw_metadata w), en_dial = cw_dial w, en_drive = drive_data p args w, en_json = cw_json w\<rparr>"

section \<open>The program\<close>

text \<open>
  \<open>main\<close>: the role's function, and what becomes of its result: the exit status and the line
  printed to the standard error. A panic unwinds out of \<open>main\<close> in a debug build (status 101) and
  aborts in a release build (\<open>panic = "abort"\<close>; 134 is the signal as a shell reports it).
\<close>

definition exit_status :: "profile \<Rightarrow> unit outcome \<Rightarrow> nat \<times> string list" where
  "exit_status p result =
     (case result of
        Inr _ \<Rightarrow> (0, [])
      | Inl (Io e) \<Rightarrow> (1, [''andri: '' @ message e])
      | Inl (Panic s) \<Rightarrow> (if p = Debug then 101 else 134, [s]))"

definition andri_main ::
  "profile \<Rightarrow> codec \<Rightarrow> cli \<Rightarrow> unit io_result \<times> conn io_result list \<Rightarrow> client_world \<times> stream
     \<Rightarrow> (nat \<times> string list) option" where
  "andri_main p c args srv clt =
     map_option (exit_status p)
       (if rl_server (c_role args)
        then snd (snd (snd (serve p c (c_port args) (c_format args) (fst srv) (snd srv))))
        else (case rl_client (c_role args) of
            Some host \<Rightarrow>
              map_option fst (run_on (connect args host) c (client_env p args (fst clt)) (snd clt))
          | None \<Rightarrow> Some (Inl (Panic ''internal error: entered unreachable code: clap group guarantees a role is selected''))))"

end
