(* ===== verification/Build_Profiles.thy ===== *)
theory Build_Profiles
  imports SessionServer
begin

text \<open>
  The two builds of the program, that with overflow checks and that without: what the first
  reports, the second reports too. The locale compares two event loops whose actions agree on the
  states that come up; its instances are the file and the TCP receiver in either build.
\<close>

section \<open>Arithmetic\<close>

text \<open>A value that the checks let through is the value without them.\<close>

lemma no_checks:
  "uadd Debug a b = Some c \<Longrightarrow> uadd Release a b = Some c" "usub Debug a b = Some c \<Longrightarrow> usub Release a b = Some c"
  "umul Debug a b = Some c \<Longrightarrow> umul Release a b = Some c" "ssub Debug i j = Some k \<Longrightarrow> ssub Release i j = Some k"
  "sabs Debug i = Some k \<Longrightarrow> sabs Release i = Some k"
  by (simp_all add: uadd_def usub_def umul_def ssub_def sabs_def split: if_splits)

lemma usum_profiles:
  assumes "sum_list (map unat ws) < 2 ^ LENGTH('a)"
  shows "usum p ws = usum q (ws :: 'a::len word list)"
  using usum_ok [OF assms, of p] usum_ok [OF assms, of q] by (metis word_unat_eq_iff)

section \<open>Datagrams\<close>

lemmas returned_values = bind_eq_Some_conv and_then_Inr or_panic_Inr Let_def

lemma observe_unchecked:
  assumes "observe Debug a s t r n = Some a'"
  shows "observe Release a s t r n = Some a'"
proof (cases "prev_transit a")
  case None
  with assms show ?thesis by (auto simp: observe_def returned_values dest!: no_checks split: if_splits)
next
  case (Some i)
  with assms show ?thesis by (auto simp: observe_def returned_values dest!: no_checks split: if_splits)
qed

lemma expected_unchecked: "expected Debug a = Some e \<Longrightarrow> expected Release a = Some e"
  by (cases "min_seq a") (auto simp: expected_def returned_values dest!: no_checks)

lemma snapshot_unchecked: "lj_snapshot Debug a = Some x \<Longrightarrow> lj_snapshot Release a = Some x"
  by (auto simp: lj_snapshot_def returned_values dest!: expected_unchecked)

lemma into_result_unchecked:
  assumes "into_result Debug a secs = Some r"
  shows "into_result Release a secs = Some r"
proof -
  obtain e where e: "expected Debug a = Some e"
    using assms by (cases "expected Debug a") (simp_all add: into_result_def)
  show ?thesis using assms unfolding into_result_def e expected_unchecked [OF e] .
qed

lemma udp_tick_unchecked:
  assumes "udp_tick Debug fmt u t0 st now = Inr st'"
  shows "udp_tick Release fmt u t0 st now = Inr st'"
proof -
  obtain cur where d: "lj_snapshot Debug (rx_acc st) = Some cur"
    using assms by (cases "lj_snapshot Debug (rx_acc st)") (simp_all add: udp_tick_def)
  show ?thesis using assms unfolding udp_tick_def d snapshot_unchecked [OF d] .
qed

lemma udp_recv_unchecked:
  assumes "udp_recv Debug t0 b w st d m n = Inr st'"
  shows "udp_recv Release t0 b w st d m n = Inr st'"
proof (cases "unstamp (take b d)")
  case (Some x)
  then obtain seq ns where u: "unstamp (take b d) = Some (seq, ns)" by (cases x) simp
  let ?o = "\<lambda>p. observe p (rx_acc st) seq ns (as_nanos_u64 (duration_since m t0)) (of_nat (length (take b d)))"
  obtain a where o: "?o Debug = Some a"
    using assms by (cases "?o Debug") (simp_all add: udp_recv_def u Let_def)
  show ?thesis
    using assms by (simp only: udp_recv_def Let_def u option.case prod.case o observe_unchecked [OF o])
qed (use assms in \<open>simp add: udp_recv_def\<close>)

lemma udp_finish_unchecked: "udp_finish Debug st now = Inr y \<Longrightarrow> udp_finish Release st now = Inr y"
  by (auto simp: udp_finish_def returned_values dest!: into_result_unchecked)

lemma udp_loop_unchecked:
  "udp_loop Debug fmt u t0 b w st evs = Some (Inr y) \<Longrightarrow> udp_loop Release fmt u t0 b w st evs = Some (Inr y)"
proof (induction evs arbitrary: st)
  case (Cons ev evs)
  then show ?case
    by (cases ev) (auto dest: udp_finish_unchecked udp_tick_unchecked udp_recv_unchecked split: sum.splits)
qed simp

lemma serve_udp_unchecked:
  assumes "serve_udp Debug neg fmt t0 evs = Some (Inr y)"
  shows "serve_udp Release neg fmt t0 evs = Some (Inr y)"
proof -
  obtain w where w: "warmup_threshold Debug neg = Some w"
    using assms by (auto simp: serve_udp_def split: option.splits)
  then have "warmup_threshold Release neg = Some w"
    by (auto simp: warmup_threshold_def returned_values dest!: no_checks)
  then show ?thesis
    using assms w by (auto simp: serve_udp_def dest: udp_loop_unchecked dest!: snapshot_unchecked split: option.splits sum.splits)
qed

section \<open>Two event loops\<close>

locale same_loops =
  event_loop step finish run + other: event_loop step' finish' run'
  for step step' :: "'s \<Rightarrow> 'e \<Rightarrow> 's outcome" and finish finish' :: "'s \<Rightarrow> 'r option"
    and run run' :: "'s \<Rightarrow> 'e list \<Rightarrow> 'r outcome option" +
  fixes inv :: "'s \<Rightarrow> 'e list \<Rightarrow> bool"
  assumes same_finish: "inv s evs \<Longrightarrow> finish s = finish' s"
    and same_step: "inv s (ev # evs) \<Longrightarrow> step s ev = step' s ev"
    and inv_step: "inv s (ev # evs) \<Longrightarrow> step s ev = Inr s' \<Longrightarrow> inv s' evs"
begin

lemma same_run: "inv s evs \<Longrightarrow> run s evs = run' s evs"
proof (induction evs arbitrary: s)
  case Nil
  with same_finish [OF Nil] show ?case
    by (cases "finish' s") (simp_all add: run_finished run_waiting other.run_finished other.run_waiting)
next
  case (Cons ev evs)
  note f = same_finish [OF Cons.prems] and st = same_step [OF Cons.prems]
  show ?case
  proof (cases "finish s")
    case None
    with f st show ?thesis
      using Cons.IH inv_step [OF Cons.prems]
      by (simp add: run_step other.run_step split: sum.split)
  next
    case (Some r)
    then have "finish' s = Some r" using f by simp
    with Some show ?thesis by (simp only: run_finished other.run_finished)
  qed
qed

end

section \<open>Files\<close>

lemma sample_until_done_profiles:
  assumes "ticks_below c ticks"
  shows "sample_until_done p t0 fmt n b t ticks = sample_until_done q t0 fmt n b t ticks"
  using assms
proof (induction ticks arbitrary: b t)
  case (Cons tk ticks)
  then obtain now d where "tk = (now, [d])" by (cases tk) (auto simp: ticks_below_def)
  moreover have "ticks_below c ticks" using Cons.prems by (simp add: ticks_below_def)
  ultimately show ?case using Cons.IH by (simp add: usum_single Let_def)
qed simp

lemma file_step_profiles:
  assumes "file_inv n st"
  shows "file_step p n st ev = file_step q n st ev"
proof (cases ev)
  case (FileRead r)
  show ?thesis
  proof (cases "file_reading n st \<and> (\<exists>got. r = Inr got)")
    case True
    then obtain got where r: "r = Inr got" and lt: "fr_received st < n" by (auto simp: file_reading_def)
    have "length (take (file_want n (fr_received st)) got) \<le> file_want n (fr_received st)" by simp
    from file_read_advance(1) [OF lt this] show ?thesis
      using True by (simp only: file_step_def FileRead r file_event.case sum.case Let_def)
  qed (auto simp: file_step_def FileRead split: sum.splits)
qed (simp_all add: file_step_def)

lemma file_done_profiles: "file_inv n st \<Longrightarrow> file_done p fmt t0 n st = file_done q fmt t0 n st"
  using sample_until_done_profiles by (metis file_done_def file_inv_def)

interpretation file_builds: same_loops "file_step p n" "file_step q n" "file_done p fmt t0 n" "file_done q fmt t0 n"
    "file_run p fmt t0 n" "file_run q fmt t0 n" "\<lambda>st evs. file_inv n st" for p q n fmt t0
  by unfold_locales (erule file_done_profiles, erule file_step_profiles, erule (1) file_step_inv)

lemma serve_file_profiles: "serve_file p neg fmt accepted t0 evs = serve_file q neg fmt accepted t0 evs"
  using file_builds.same_run [OF file_inv_init] by (simp add: serve_file_def split: sum.split)

section \<open>TCP\<close>

text \<open>As long as all the counters together fit a \<open>u64\<close>, their readings add up in either build.\<close>

abbreviation adds_up :: "counter list \<Rightarrow> bool" where
  "adds_up cs \<equiv> sum_list (map unat cs) < 2 ^ LENGTH(64)"

lemma sampler_loop_profiles:
  "\<forall>tk\<in>set ticks. adds_up (snd tk) \<Longrightarrow>
     sampler_loop p t0 window warmup fmt quiet b t ticks = sampler_loop q t0 window warmup fmt quiet b t ticks"
proof (induction ticks arbitrary: b t)
  case (Cons tk ticks)
  obtain now vals where tk: "tk = (now, vals)" by fastforce
  have t: "total p vals = total q vals" using Cons.prems usum_profiles [of vals p q] by (simp add: tk total_def)
  have r: "sampler_loop p t0 window warmup fmt quiet v now ticks = sampler_loop q t0 window warmup fmt quiet v now ticks" for v
    using Cons by simp
  show ?case unfolding tk sampler_loop.simps t r ..
qed simp

lemma run_sampler_profiles:
  assumes "adds_up cs" "\<forall>tk\<in>set ticks. adds_up (snd tk)"
  shows "run_sampler p cs t0 window warmup fmt quiet ticks = run_sampler q cs t0 window warmup fmt quiet ticks"
  using usum_profiles [OF assms(1), of p q] sampler_loop_profiles [OF assms(2), of p _ _ _ _ _ _ _ q]
  by (simp add: run_sampler_def total_def split: option.split)

text \<open>The counters of the streams, and all the readings of them so far, add up.\<close>

definition tcp_adds_up :: "nat \<Rightarrow> tcp_rx \<Rightarrow> tcp_event list \<Rightarrow> bool" where
  "tcp_adds_up n st evs \<longleftrightarrow>
     (\<exists>ended b. streams_abs st n ended b \<and> b + stream_bytes ended n evs < 2 ^ 64) \<and>
     (\<forall>cs. tr_started st = Some cs \<longrightarrow> adds_up cs) \<and> (\<forall>tk\<in>set (tr_ticks st). adds_up (snd tk))"

lemma tcp_adds_up_now: "tcp_adds_up n st evs \<Longrightarrow> adds_up (counters_of st)"
  by (auto simp: tcp_adds_up_def streams_abs_def)

lemma tcp_step_profiles:
  assumes "tcp_adds_up n st evs"
  shows "tcp_step p t0 st ev = tcp_step q t0 st ev"
proof -
  have t: "sum_bytes p (counters_of st) = sum_bytes q (counters_of st)"
    using usum_profiles [OF tcp_adds_up_now [OF assms]] by (simp add: sum_bytes_def)
  show ?thesis unfolding tcp_step_def t ..
qed

lemma tcp_done_profiles:
  assumes "tcp_adds_up n st evs"
  shows "tcp_done p fmt t0 window warmup st = tcp_done q fmt t0 window warmup st"
proof -
  have "run_sampler p cs t0 window warmup fmt False (tr_ticks st) = run_sampler q cs t0 window warmup fmt False (tr_ticks st)"
    if "tr_started st = Some cs" for cs
    using run_sampler_profiles assms that unfolding tcp_adds_up_def by blast
  then show ?thesis by (cases "tr_started st") (simp_all add: tcp_done_def)
qed

lemma tcp_step_readings:
  assumes "tcp_step p t0 st ev = Inr st'"
  shows "tr_started st' = tr_started st \<or> tr_started st' = Some (counters_of st)"
    "tr_ticks st' = tr_ticks st \<or> (\<exists>now. tr_ticks st' = tr_ticks st @ [(now, counters_of st)])"
  using assms by (auto simp: tcp_step_def and_then_Inr split: tcp_event.splits if_splits)

lemma tcp_step_adds_up:
  assumes "tcp_adds_up n st (ev # evs)" "tcp_step p t0 st ev = Inr st'"
  shows "tcp_adds_up n st' evs"
proof -
  obtain ended b where a: "streams_abs st n ended b" "b + stream_bytes ended n (ev # evs) < 2 ^ 64"
    using assms(1) by (auto simp: tcp_adds_up_def)
  have e: "stream_bytes ended n (ev # evs) = stream_bytes ended n [ev] + stream_bytes (ended_after ended n [ev]) n evs"
    using stream_bytes_append [of ended n "[ev]" evs] by simp
  have "tcp_steps p t0 st [ev] = Inr st'" using assms(2) by simp
  from tcp_steps_abs [OF this a(1)] a(2) e
  have "\<exists>ended b. streams_abs st' n ended b \<and> b + stream_bytes ended n evs < 2 ^ 64"
    by (metis add.assoc add_lessD1)
  then show ?thesis
    using assms(1) tcp_adds_up_now [OF assms(1)] tcp_step_readings [OF assms(2)]
    by (auto simp: tcp_adds_up_def)
qed

interpretation tcp_builds: same_loops "tcp_step p t0" "tcp_step q t0" "tcp_done p fmt t0 window warmup"
    "tcp_done q fmt t0 window warmup" "tcp_run p fmt t0 window warmup" "tcp_run q fmt t0 window warmup" "tcp_adds_up n"
    for p q n fmt t0 window warmup
  by unfold_locales (erule tcp_done_profiles, erule tcp_step_profiles, erule (1) tcp_step_adds_up)

lemma serve_tcp_unchecked:
  assumes "serve_tcp Debug neg fmt accepts t0 evs = Some (Inr y)" "stream_bytes {} (unat (parallel neg)) evs < 2 ^ 64"
  shows "serve_tcp Release neg fmt accepts t0 evs = Some (Inr y)"
proof -
  have "tcp_adds_up (unat (parallel neg)) (tcp_rx_init (unat (parallel neg))) evs"
    unfolding tcp_adds_up_def
    using assms(2) streams_abs_init [of "unat (parallel neg)"]
    by (intro conjI exI [of _ "{}"] exI [of _ "0::nat"]) (simp_all add: tcp_rx_init_def)
  note run = tcp_builds.same_run [OF this, of Debug _ _ _ _ Release]
  obtain secs where d: "uadd Debug (duration_secs neg) (warmup_secs neg) = Some secs"
    using assms(1) by (auto simp: serve_tcp_def split: option.splits sum.splits)
  show ?thesis using assms(1) unfolding serve_tcp_def d no_checks(1) [OF d] by (simp add: run split: option.splits sum.splits)
qed

section \<open>Properties\<close>

text \<open>
  C15. The two builds agree: whatever result the server measures in a build with overflow checks, a
  release build measures too, from the same events, to the last sample. For TCP this is so as long as
  the streams carry less than \<open>2 ^ 64\<close> bytes; a check that fails in a task of its own would go unnoticed.
  The file receiver behaves the same in both, whatever happens.
\<close>

theorem builds_agree:
  assumes "mode neg = Tcp \<Longrightarrow> stream_bytes {} (unat (parallel neg)) (snd (snd (sw_tcp w))) < 2 ^ 64"
  shows "(\<forall>res. serve_data Debug fmt w neg = Some (Inr res) \<longrightarrow> serve_data Release fmt w neg = Some (Inr res))
    \<and> (mode neg = File \<longrightarrow> serve_data Debug fmt w neg = serve_data Release fmt w neg)"
proof (intro conjI allI impI)
  fix res
  assume s: "serve_data Debug fmt w neg = Some (Inr res)"
  show "serve_data Release fmt w neg = Some (Inr res)"
  proof (cases "mode neg")
    case Tcp
    obtain accepts t0 evs where "sw_tcp w = (accepts, t0, evs)" by (cases "sw_tcp w") auto
    with Tcp s assms [OF Tcp] show ?thesis by (auto simp: serve_data_def result_of dest!: serve_tcp_unchecked)
  next
    case Udp
    obtain t0 evs where "sw_udp w = (t0, evs)" by fastforce
    with Udp s show ?thesis by (auto simp: serve_data_def result_of dest!: serve_udp_unchecked)
  next
    case File
    with s show ?thesis using serve_file_profiles [of Debug neg _ _ _ _ Release]
      by (simp add: serve_data_def split: prod.splits)
  qed
qed (use serve_file_profiles [of Debug neg _ _ _ _ Release] in \<open>simp add: serve_data_def split: prod.splits\<close>)

text \<open>A UDP run that ends at once.\<close>

abbreviation idle_world :: server_world where
  "idle_world \<equiv> \<lparr>sw_socket = (\<lambda>_. Inr ()), sw_addr = (\<lambda>_. Inr 4000), sw_tcp = ([], 0, []),
     sw_udp = (0, [StopAt 5]), sw_file = (Inr (), 0, [])\<rparr>"

theorem builds_agree_witness:
  "\<exists>res. serve_data Debug Mbps idle_world (udp_negotiate 1000 1 1472) = Some (Inr res)
     \<and> serve_data Release Mbps idle_world (udp_negotiate 1000 1 1472) = Some (Inr res)"
proof -
  have "\<exists>y. serve_udp Debug (udp_negotiate 1000 1 1472) Mbps 0 [StopAt 5] = Some (Inr y)"
    by (simp add: serve_udp_def warmup_threshold_def packet_size_def HEADER_LEN_def zeroed_vec_def umul_def
        lj_snapshot_def expected_def lj_new_def udp_rx_init_def udp_finish_def into_result_def Let_def)
  then obtain res where "serve_data Debug Mbps idle_world (udp_negotiate 1000 1 1472) = Some (Inr res)"
    by (auto simp: serve_data_def)
  with builds_agree [of "udp_negotiate 1000 1 1472" idle_world Mbps] show ?thesis by auto
qed

end
