(* ===== verification/Results.thy ===== *)
theory Results
  imports SessionServer
begin

text \<open>
  The form of the results that \<open>serve_data\<close> returns: which of the optional fields of
  \<open>TestResult\<close> and of its \<open>Sample\<close>s are there, for each mode.
\<close>

section \<open>The form of a result\<close>

definition sample_form :: "mode \<Rightarrow> sample \<Rightarrow> bool" where
  "sample_form md s \<longleftrightarrow> (s_packets_lost s \<noteq> None \<longleftrightarrow> md = Udp) \<and> (s_jitter_ms s \<noteq> None \<longleftrightarrow> md = Udp)"

text \<open>The counts of packets belong together.\<close>

definition loss_fields :: "mode \<Rightarrow> test_result \<Rightarrow> bool" where
  "loss_fields md r \<longleftrightarrow>
     (case (packets_expected r, packets_received r, packets_lost r) of
        (Some e, Some n, Some l) \<Rightarrow> md = Udp \<and> l = saturating_sub e n
      | (None, None, None) \<Rightarrow> md \<noteq> Udp
      | _ \<Rightarrow> False)
     \<and> (loss_ratio r \<noteq> None \<longleftrightarrow> md = Udp) \<and> (jitter_ms r \<noteq> None \<longleftrightarrow> md = Udp)"

definition result_form :: "mode \<Rightarrow> test_result \<Rightarrow> bool" where
  "result_form md r \<longleftrightarrow> role r = Receive \<and> loss_fields md r \<and> list_all (sample_form md) (samples r)"

section \<open>TCP\<close>

lemma sampler_samples:
  "sampler_loop p t0 window warmup fmt quiet b t ticks = Some (Inr (ss, ls)) \<Longrightarrow> md \<noteq> Udp \<Longrightarrow> list_all (sample_form md) ss"
proof (induction p t0 window warmup fmt quiet b t ticks arbitrary: ss ls rule: sampler_loop.induct)
  case (2 p t0 window warmup fmt quiet b t now vals ticks)
  then show ?case by (auto simp: Let_def sample_form_def split: option.splits if_splits sum.splits)
qed simp

lemma tcp_done_form: "tcp_done p fmt t0 window warmup st = Some (r, ls) \<Longrightarrow> md \<noteq> Udp \<Longrightarrow> result_form md r"
  using sampler_samples
  by (fastforce simp: tcp_done_def run_sampler_def tcp_result_def Let_def result_form_def loss_fields_def
      split: Option.bind_splits prod.splits option.splits sum.splits)

lemma serve_tcp_form:
  assumes "serve_tcp p neg fmt accepts t0 evs = Some (Inr (r, ls))" "md \<noteq> Udp"
  shows "result_form md r"
proof -
  obtain secs where "tcp_run p fmt t0 (from_secs secs) (from_secs (warmup_secs neg))
      (tcp_rx_init (unat (parallel neg))) evs = Some (Inr (r, ls))" using serve_tcp_run [OF assms(1)] by blast
  from trx.run_result [OF this] tcp_done_form assms(2) show ?thesis by blast
qed

section \<open>File\<close>

lemma sample_until_done_samples:
  "sample_until_done p t0 fmt len b t ticks = Some (Inr (ss, ls)) \<Longrightarrow> md \<noteq> Udp \<Longrightarrow> list_all (sample_form md) ss"
proof (induction p t0 fmt len b t ticks arbitrary: ss ls rule: sample_until_done.induct)
  case (2 p t0 fmt len b t now counters ticks)
  then show ?case by (auto simp: Let_def sample_form_def split: option.splits if_splits sum.splits)
qed simp

lemma file_done_form: "file_done p fmt t0 len st = Some (r, ls) \<Longrightarrow> md \<noteq> Udp \<Longrightarrow> result_form md r"
  using sample_until_done_samples
  by (fastforce simp: file_done_def file_result_def Let_def result_form_def loss_fields_def
      split: Option.bind_splits prod.splits sum.splits)

lemma serve_file_form:
  assumes "serve_file p neg fmt accepted t0 evs = Some (Inr (r, ls))" "md \<noteq> Udp"
  shows "result_form md r"
proof -
  have "file_run p fmt t0 (file_expected neg) file_rx_init evs = Some (Inr (r, ls))"
    using assms(1) by (auto simp: serve_file_def split: sum.splits)
  from frx.run_result [OF this] file_done_form assms(2) show ?thesis by blast
qed

section \<open>UDP\<close>

lemma into_result_form: "into_result p a secs = Some r \<Longrightarrow> loss_fields Udp r \<and> role r = Receive"
  by (auto simp: into_result_def loss_fields_def Let_def split: Option.bind_splits)

lemma udp_tick_form:
  "udp_tick p fmt warmup t0 st now = Inr st' \<Longrightarrow> list_all (sample_form Udp) (rx_samples st)
    \<Longrightarrow> list_all (sample_form Udp) (rx_samples st')"
  by (auto simp: udp_tick_def Let_def and_then_Inr sample_form_def)

lemma udp_recv_form: "udp_recv p t0 b w st d now1 now2 = Inr st' \<Longrightarrow> rx_samples st' = rx_samples st"
  by (auto simp: udp_recv_def Let_def and_then_Inr split: option.splits)

lemma loss_fields_samples [simp]: "loss_fields md (r\<lparr>samples := ss\<rparr>) = loss_fields md r"
  by (cases r) (simp add: loss_fields_def)

lemma udp_finish_form:
  "udp_finish p st now = Inr (r, ls) \<Longrightarrow> list_all (sample_form Udp) (rx_samples st) \<Longrightarrow> result_form Udp r"
  by (auto simp: udp_finish_def Let_def and_then_Inr result_form_def dest!: into_result_form)

lemma udp_loop_form:
  "udp_loop p fmt warmup t0 b w st evs = Some (Inr (r, ls)) \<Longrightarrow> list_all (sample_form Udp) (rx_samples st)
    \<Longrightarrow> result_form Udp r"
  by (induction p fmt warmup t0 b w st evs rule: udp_loop.induct)
    (auto simp: udp_recv_form dest: udp_tick_form udp_finish_form split: sum.splits)

lemma serve_udp_form: "serve_udp p neg fmt t0 evs = Some (Inr (r, ls)) \<Longrightarrow> result_form Udp r"
  using serve_udp_loop [of p neg fmt t0 evs "(r, ls)"] udp_loop_form by (fastforce simp: udp_rx_init_def)

section \<open>Every mode\<close>

text \<open>
  C26. Results are well formed: whatever a data path does, a result it returns is the receiver's, has
  the five loss and jitter fields for UDP and none of them for TCP and files, its loss is the
  expected count less the received one and never below zero, and its samples have their two
  optional fields in the same way.
\<close>

theorem results_well_formed:
  assumes "serve_data p fmt w neg = Some (Inr res)"
  shows "result_form (mode neg) res"
  using assms serve_tcp_form [where md = Tcp] serve_file_form [where md = File] serve_udp_form
  by (cases "mode neg") (fastforce simp: serve_data_def result_of split: prod.splits)+

theorem results_well_formed_witness:
  "\<exists>res. serve_data Release Mbps \<lparr>sw_socket = (\<lambda>_. Inr ()), sw_addr = (\<lambda>_. Inr 4000), sw_tcp = ([], 0, []),
        sw_udp = (0, [Datagram (replicate 20 0) 5 6, TickAt 1000000000, StopAt 2000000000]),
        sw_file = (Inr (), 0, [])\<rparr> (udp_negotiate 1000000 0 1472) = Some (Inr res) \<and> result_form Udp res"
proof -
  let ?evs = "[Datagram (replicate 20 0) 5 6, TickAt 1000000000, StopAt 2000000000]"
  have "\<exists>y. serve_udp Release (udp_negotiate 1000000 0 1472) Mbps 0 ?evs = Some (Inr y)"
    by (rule serve_udp_Release) (simp_all add: packet_size_def HEADER_LEN_def)
  then obtain r ls where "serve_udp Release (udp_negotiate 1000000 0 1472) Mbps 0 ?evs = Some (Inr (r, ls))"
    by (metis surj_pair)
  then have "serve_data Release Mbps \<lparr>sw_socket = (\<lambda>_. Inr ()), sw_addr = (\<lambda>_. Inr 4000), sw_tcp = ([], 0, []), sw_udp = (0, ?evs),
      sw_file = (Inr (), 0, [])\<rparr> (udp_negotiate 1000000 0 1472) = Some (Inr r)" by (simp add: serve_data_def)
  with results_well_formed [OF this] show ?thesis by auto
qed

end
