(* ===== verification/Protocol.thy ===== *)
theory Protocol
  imports SessionClient
begin

text \<open>
  The session state machine of \<open>docs/protocol.md\<close> \<section>4 (its states, its table of who may send
  what, its transitions), and the conformance of both control functions to it: whatever the
  peer, the connection and the data paths do.
\<close>

section \<open>The specification\<close>

datatype phase = Greeting | Negotiating | Connecting | Running | Reporting | Closed

datatype side = Client | Server

fun peer :: "side \<Rightarrow> side" where
  "peer Client = Server"
| "peer Server = Client"

fun may_send :: "side \<Rightarrow> phase \<Rightarrow> msg \<Rightarrow> bool" where
  "may_send Client Greeting m = (case m of Hello h \<Rightarrow> True | _ \<Rightarrow> False)"
| "may_send Client Negotiating m = (case m of Negotiate neg \<Rightarrow> True | _ \<Rightarrow> False)"
| "may_send Client Connecting m = (m = Run)"
| "may_send Client Running m = (m = Stop)"
| "may_send Client Reporting m = False"
| "may_send Client Closed m = False"
| "may_send Server Greeting m = (case m of Welcome w \<Rightarrow> True | Error e \<Rightarrow> True | _ \<Rightarrow> False)"
| "may_send Server Negotiating m = (case m of Start st \<Rightarrow> True | Error e \<Rightarrow> True | _ \<Rightarrow> False)"
| "may_send Server Connecting m = (case m of Error e \<Rightarrow> True | _ \<Rightarrow> False)"
| "may_send Server Running m = (case m of Error e \<Rightarrow> True | _ \<Rightarrow> False)"
| "may_send Server Reporting m = (case m of Result res \<Rightarrow> True | Error e \<Rightarrow> True | _ \<Rightarrow> False)"
| "may_send Server Closed m = False"

text \<open>The transitions: a message that both ends have seen, and the end of the run.\<close>

fun move :: "phase \<Rightarrow> msg \<Rightarrow> phase" where
  "move ph (Welcome w) = (if ph = Greeting \<and> w_accepted w then Negotiating else ph)"
| "move ph (Start st) = (if ph = Negotiating then Connecting else ph)"
| "move ph Run = (if ph = Connecting then Running else ph)"
| "move ph Stop = (if ph = Running then Reporting else ph)"
| "move ph (Result res) = (if ph = Reporting then Closed else ph)"
| "move ph (Error e) = Closed"
| "move ph (Hello h) = ph"
| "move ph (Negotiate neg) = ph"

text \<open>
  An action that fails closes the session, but for a drop of the connection while reporting,
  which is benign. A message moves the session when it is read, be it by the data path, and only
  if the peer may send it.
\<close>

fun after :: "side \<Rightarrow> phase \<Rightarrow> event \<Rightarrow> phase" where
  "after sd ph (Received r) =
     (case r of
        Inr m \<Rightarrow> if may_send (peer sd) ph m then move ph m else ph
      | Inl e \<Rightarrow> if ph = Reporting then Reporting else Closed)"
| "after sd ph (Sent m r) = (case r of Inr u \<Rightarrow> move ph m | Inl e \<Rightarrow> Closed)"
| "after sd ph (Served n d r) =
     (case r of
        Inl e \<Rightarrow> Closed
      | Inr res \<Rightarrow>
          (case d of
             None \<Rightarrow> ph
           | Some (Inr m) \<Rightarrow> if may_send (peer sd) ph m then move ph m else ph
           | Some (Inl e) \<Rightarrow> if ph = Reporting then Reporting else Closed))"
| "after sd ph (Bound md r) = (case r of Inr port \<Rightarrow> ph | Inl e \<Rightarrow> Closed)"
| "after sd ph (Driven md st n r) = (case r of Inr u \<Rightarrow> ph | Inl e \<Rightarrow> Closed)"
| "after sd ph ev = ph"

text \<open>
  A trace that keeps to the table: a message is only sent in a phase that allows it, nothing
  is read once the session is closed, the data port is bound while negotiating and data only
  moves while running.
\<close>

fun allowed :: "side \<Rightarrow> phase \<Rightarrow> event \<Rightarrow> bool" where
  "allowed sd ph (Sent m r) = may_send sd ph m"
| "allowed sd ph (Received r) = (ph \<noteq> Closed)"
| "allowed sd ph (Served n d r) = (ph = Running)"
| "allowed sd ph (Driven md st n r) = (ph = Running)"
| "allowed sd ph (Bound md r) = (ph = Negotiating)"
| "allowed sd ph ev = True"

fun keeps :: "side \<Rightarrow> phase \<Rightarrow> event list \<Rightarrow> bool" where
  "keeps sd ph [] = True"
| "keeps sd ph (ev # tr) = (allowed sd ph ev \<and> keeps sd (after sd ph ev) tr)"

text \<open>The phases in the order in which they follow each other.\<close>

fun rank :: "phase \<Rightarrow> nat" where
  "rank Greeting = 0"
| "rank Negotiating = 1"
| "rank Connecting = 2"
| "rank Running = 3"
| "rank Reporting = 4"
| "rank Closed = 5"

lemma rank_inj: "rank a = rank b \<Longrightarrow> a = b"
  by (cases a; cases b) simp_all

instantiation phase :: linorder
begin

definition less_eq_phase :: "phase \<Rightarrow> phase \<Rightarrow> bool" where
  "less_eq_phase a b \<longleftrightarrow> rank a \<le> rank b"

definition less_phase :: "phase \<Rightarrow> phase \<Rightarrow> bool" where
  "less_phase a b \<longleftrightarrow> rank a < rank b"

instance
  by standard (auto simp: less_eq_phase_def less_phase_def intro: rank_inj)

end

lemma phase_order [simp]:
  "Greeting \<le> ph" "ph \<le> Closed" "Negotiating \<le> Reporting" "Connecting \<le> Running"
  "Greeting < Negotiating" "Negotiating < Connecting" "Connecting < Running" "Running < Reporting" "Reporting < Closed"
  by (cases ph; simp add: less_eq_phase_def less_phase_def)+

text \<open>A session never goes back.\<close>

lemma move_advances: "ph \<le> move ph m"
  by (cases m) (simp_all add: less_imp_le)

lemma after_advances: "ph \<le> after sd ph ev"
  using move_advances by (cases ev) (auto simp: less_imp_le split: sum.splits option.splits)

text \<open>The phase after a trace.\<close>

fun phase_after :: "side \<Rightarrow> phase \<Rightarrow> event list \<Rightarrow> phase" where
  "phase_after sd ph [] = ph"
| "phase_after sd ph (ev # tr) = phase_after sd (after sd ph ev) tr"

lemma phase_after_append: "phase_after sd ph (xs @ ys) = phase_after sd (phase_after sd ph xs) ys"
  by (induction xs arbitrary: ph) simp_all

lemma phase_after_advances: "ph \<le> phase_after sd ph tr"
  by (induction tr arbitrary: ph) (simp, simp, meson after_advances order_trans)

lemma keeps_append: "keeps sd ph (xs @ ys) \<longleftrightarrow> keeps sd ph xs \<and> keeps sd (phase_after sd ph xs) ys"
  by (induction xs arbitrary: ph) simp_all

text \<open>What an action has read from the control connection: the message, or the failure to read one.\<close>

fun taken :: "event \<Rightarrow> msg io_result option" where
  "taken (Received d) = Some d"
| "taken (Served n d r) = d"
| "taken ev = None"

text \<open>
  Before the run: a message out of sequence, that is one the client may not send in the phase, is
  answered with the error \<open>UnexpectedMessage\<close> and nothing else.
\<close>

fun refuses :: "phase \<Rightarrow> event list \<Rightarrow> bool" where
  "refuses ph [] = True"
| "refuses ph (ev # tr) =
     ((\<forall>m. ev = Received (Inr m) \<and> ph \<in> {Greeting, Negotiating, Connecting} \<and> \<not> may_send Client ph m \<longrightarrow>
         (\<forall>ev'\<in>set tr. \<exists>r. ev' = Sent (Error UnexpectedMessage) r) \<and> length tr \<le> 1)
      \<and> refuses (after Server ph ev) tr)"

text \<open>
  While running, the server does not: whatever it reads then, another message or the loss of the
  connection, it takes for \<open>Stop\<close>, and at most answers with a result.
\<close>

fun takes_for_stop :: "phase \<Rightarrow> event list \<Rightarrow> bool" where
  "takes_for_stop ph [] = True"
| "takes_for_stop ph (ev # tr) =
     ((\<forall>d. ph = Running \<and> taken ev = Some d \<and> d \<noteq> Inr Stop \<longrightarrow>
         (\<forall>ev'\<in>set tr. \<exists>res r. ev' = Sent (Result res) r) \<and> length tr \<le> 1)
      \<and> takes_for_stop (after Server ph ev) tr)"

text \<open>
  That result is the one message of a server that the table does not allow: it is sent, last, after
  something other than \<open>Stop\<close> was read while running.
\<close>

definition early_result :: "phase \<Rightarrow> event list \<Rightarrow> bool" where
  "early_result ph tr \<longleftrightarrow>
     (\<exists>pre ev d res r. tr = pre @ [ev, Sent (Result res) r] \<and> keeps Server ph (pre @ [ev])
        \<and> phase_after Server ph pre = Running \<and> taken ev = Some d \<and> d \<noteq> Inr Stop)"

lemma early_result_here:
  "allowed Server Running ev \<Longrightarrow> taken ev = Some d \<Longrightarrow> d \<noteq> Inr Stop \<Longrightarrow> early_result Running [ev, Sent (Result res) r]"
  unfolding early_result_def by (intro exI [of _ "[]"] exI [of _ ev] exI [of _ d]) simp

lemma early_result_Cons: "allowed Server ph ev \<Longrightarrow> early_result (after Server ph ev) tr \<Longrightarrow> early_result ph (ev # tr)"
  unfolding early_result_def by (elim exE conjE) (rule_tac x = "ev # pre" in exI, auto)

section \<open>The server conforms\<close>

definition server_ok :: "phase \<Rightarrow> event list \<Rightarrow> proc \<Rightarrow> bool" where
  "server_ok ph tr P \<longleftrightarrow>
     (keeps Server ph tr \<or> early_result ph tr) \<and> refuses ph tr \<and> takes_for_stop ph tr \<and>
     (P = Done (Inr ()) \<longrightarrow> (\<exists>res. Sent (Result res) (Inr ()) \<in> set tr))"

lemma server_ok_Nil: "P \<noteq> Done (Inr ()) \<Longrightarrow> server_ok ph [] P"
  by (simp add: server_ok_def)

lemma server_ok_Cons:
  assumes "allowed Server ph ev" "server_ok (after Server ph ev) tr P"
    and "\<And>m. ev = Received (Inr m) \<Longrightarrow> ph \<in> {Greeting, Negotiating, Connecting} \<Longrightarrow> may_send Client ph m"
    and "\<And>d. taken ev = Some d \<Longrightarrow> ph = Running \<Longrightarrow> d = Inr Stop"
  shows "server_ok ph (ev # tr) P"
  using assms early_result_Cons by (auto simp: server_ok_def)

lemma reject_ok:
  "steps (reject err) tr P \<Longrightarrow> ph \<noteq> Closed \<Longrightarrow>
     server_ok ph tr P \<and> length tr \<le> 1 \<and> (\<forall>ev\<in>set tr. \<exists>r. ev = Sent (Error err) r)"
  by (cases ph) (auto simp: reject_def server_ok_def steps_simps)

text \<open>A read in which only the messages with a next stage are accepted.\<close>

lemma read_or_reject_ok:
  assumes "steps (Recv (\<lambda>r. try_io r k)) tr P" "ph \<in> {Greeting, Negotiating, Connecting}"
    and "\<And>m. \<not> may_send Client ph m \<Longrightarrow> k m = reject UnexpectedMessage"
    and "\<And>m tr. may_send Client ph m \<Longrightarrow> steps (k m) tr P \<Longrightarrow> server_ok (move ph m) tr P"
  shows "server_ok ph tr P"
proof -
  consider "tr = []" "P \<noteq> Done (Inr ())" | e where "tr = [Received (Inl e)]" "P = Done (Inl (Io e))"
    | m tr' where "tr = Received (Inr m) # tr'" "steps (k m) tr' P"
    using assms(1) by (auto simp: steps_simps)
  then show ?thesis
  proof cases
    case 3
    show ?thesis
    proof (cases "may_send Client ph m")
      case True
      with 3 assms(2,4) show ?thesis by (auto intro!: server_ok_Cons)
    next
      case False
      with assms(2,3) 3(2) have "steps (reject UnexpectedMessage) tr' P" "ph \<noteq> Closed" by auto
      from reject_ok [OF this] 3(1) assms(2) False early_result_Cons [of ph "Received (Inr m)" tr'] show ?thesis
        by (auto simp: server_ok_def)
    qed
  qed (use assms(2) in \<open>auto simp: server_ok_def\<close>)
qed

text \<open>The stages of the session, from the last to the first.\<close>

lemma ss_report_ok: "steps (ss_report res) tr P \<Longrightarrow> server_ok Reporting tr P"
  by (auto simp: ss_report_def server_ok_def steps_simps)

text \<open>What is read at the end of the run, and the report.\<close>

lemma taken_ok:
  assumes "taken ev = Some d" "allowed Server Running ev" "steps (ss_report res) tr P"
    and "d = Inr Stop \<Longrightarrow> after Server Running ev = Reporting"
  shows "server_ok Running (ev # tr) P"
proof (cases "d = Inr Stop")
  case True
  with assms ss_report_ok [OF assms(3)] show ?thesis by (auto intro!: server_ok_Cons)
next
  case False
  consider "tr = []" "P \<noteq> Done (Inr ())" | r where "tr = [Sent (Result res) r]" "r = Inr () \<or> P \<noteq> Done (Inr ())"
    using assms(3) by (auto simp: ss_report_def steps_simps)
  then show ?thesis
    using False assms(1,2) early_result_here [OF assms(2,1) False] by cases (auto simp: server_ok_def)
qed

lemma ss_serve_ok:
  assumes "steps (ss_serve neg) tr P"
  shows "server_ok Running tr P"
proof (cases "mode neg = File")
  case True
  with assms consider "tr = []" "P \<noteq> Done (Inr ())" | e where "tr = [Served neg None (Inl e)]" "P \<noteq> Done (Inr ())"
    | res where "tr = [Served neg None (Inr res)]" "P \<noteq> Done (Inr ())"
    | res d tr' where "tr = [Served neg None (Inr res)] @ Received d # tr'" "steps (ss_report res) tr' P"
    by (auto simp: ss_serve_def steps_simps)
  then show ?thesis
  proof cases
    case 4
    have "server_ok Running (Received d # tr') P" by (rule taken_ok [OF _ _ 4(2)]) auto
    then show ?thesis unfolding 4(1) append.simps by - (rule server_ok_Cons, simp_all)
  qed (auto simp: server_ok_def)
next
  case False
  with assms consider "tr = []" "P \<noteq> Done (Inr ())" | e d where "tr = [Served neg d (Inl e)]" "P \<noteq> Done (Inr ())"
    | res d tr' where "tr = Served neg (Some d) (Inr res) # tr'" "steps (ss_report res) tr' P"
    by (cases "mode neg") (auto simp: ss_serve_def steps_simps)
  then show ?thesis
  proof cases
    case 3
    show ?thesis unfolding 3(1) by (rule taken_ok [OF _ _ 3(2)]) auto
  qed (auto simp: server_ok_def)
qed

lemma ss_run_ok: "steps (ss_run neg) tr P \<Longrightarrow> server_ok Connecting tr P"
  unfolding ss_run_def
  by (erule read_or_reject_ok) (auto split: msg.splits dest: ss_serve_ok)

lemma ss_start_ok: "steps (ss_start neg port) tr P \<Longrightarrow> server_ok Negotiating tr P"
  by (auto simp: ss_start_def steps_simps server_ok_Nil intro!: server_ok_Cons dest: ss_run_ok)

lemma ss_bind_ok: "steps (ss_bind neg) tr P \<Longrightarrow> server_ok Negotiating tr P"
  by (auto simp: ss_bind_def steps_simps server_ok_Nil intro!: server_ok_Cons dest: ss_start_ok)

lemma ss_negotiate_ok: "steps ss_negotiate tr P \<Longrightarrow> server_ok Negotiating tr P"
  unfolding ss_negotiate_def
  by (erule read_or_reject_ok) (auto split: msg.splits dest: ss_bind_ok)

lemma ss_welcome_ok: "steps (ss_welcome h) tr P \<Longrightarrow> server_ok Greeting tr P"
  by (auto simp: ss_welcome_def Let_def steps_simps server_ok_Nil intro!: server_ok_Cons
      dest: ss_negotiate_ok reject_ok split: if_splits)

lemma serve_session_ok: "steps serve_session tr P \<Longrightarrow> server_ok Greeting tr P"
  unfolding serve_session_def
  by (erule read_or_reject_ok) (auto split: msg.splits dest: ss_welcome_ok)

section \<open>The client conforms\<close>

text \<open>The client ends without an error only once it has the server's result.\<close>

text \<open>A message out of sequence ends it, with an error and without an answer.\<close>

fun breaks_off :: "phase \<Rightarrow> event list \<Rightarrow> proc \<Rightarrow> bool" where
  "breaks_off ph [] P = True"
| "breaks_off ph (ev # tr) P =
     ((\<forall>m. ev = Received (Inr m) \<and> \<not> may_send Server ph m \<longrightarrow> tr = [] \<and> (\<exists>e. P = Done (Inl e)))
      \<and> breaks_off (after Client ph ev) tr P)"

definition client_ok :: "phase \<Rightarrow> event list \<Rightarrow> proc \<Rightarrow> bool" where
  "client_ok ph tr P \<longleftrightarrow>
     keeps Client ph tr \<and> breaks_off ph tr P \<and> (P = Done (Inr ()) \<longrightarrow> (\<exists>res. Received (Inr (Result res)) \<in> set tr))"

lemma client_ok_Nil: "P \<noteq> Done (Inr ()) \<Longrightarrow> client_ok ph [] P"
  by (simp add: client_ok_def)

lemma client_ok_Cons:
  "allowed Client ph ev \<Longrightarrow> client_ok (after Client ph ev) tr P \<Longrightarrow> \<forall>m. ev \<noteq> Received (Inr m) \<Longrightarrow> client_ok ph (ev # tr) P"
  by (auto simp: client_ok_def)

lemma other_ok: "steps (other s) tr P \<Longrightarrow> client_ok ph tr P \<and> tr = [] \<and> (\<exists>e. P = Done (Inl e))"
  by (auto simp: other_def steps_simps client_ok_def)

lemma print_lines_ok:
  assumes "steps (print_lines ch ls K) tr P" and "\<And>tr. steps K tr P \<Longrightarrow> client_ok ph tr P"
  shows "client_ok ph tr P"
  using assms
proof (induction ls arbitrary: tr)
  case (Cons l ls)
  then show ?case by (auto simp: steps_simps client_ok_Nil intro!: client_ok_Cons)
qed simp

text \<open>A read, and what is done with each message.\<close>

lemma read_ok:
  assumes "steps (Recv (\<lambda>r. try_io r k)) tr P" "ph \<noteq> Closed"
    and "\<And>m tr. steps (k m) tr P \<Longrightarrow> client_ok (after Client ph (Received (Inr m))) tr P \<or>
           (\<exists>res. m = Result res \<and> keeps Client (after Client ph (Received (Inr m))) tr
              \<and> breaks_off (after Client ph (Received (Inr m))) tr P)"
    and "\<And>m tr. \<not> may_send Server ph m \<Longrightarrow> steps (k m) tr P \<Longrightarrow> tr = [] \<and> (\<exists>e. P = Done (Inl e))"
  shows "client_ok ph tr P"
proof -
  consider "tr = []" "P \<noteq> Done (Inr ())" | e where "tr = [Received (Inl e)]" "P = Done (Inl (Io e))"
    | m tr' where "tr = Received (Inr m) # tr'" "steps (k m) tr' P"
    using assms(1) by (auto simp: steps_simps)
  then show ?thesis
  proof cases
    case 3
    have "\<not> may_send Server ph m \<Longrightarrow> tr' = [] \<and> (\<exists>e. P = Done (Inl e))" using assms(4) 3(2) by blast
    with assms(3) [OF 3(2)] assms(2) 3(1) show ?thesis by (fastforce simp: client_ok_def)
  qed (use assms(2) in \<open>auto simp: client_ok_def\<close>)
qed

lemma cs_report_keeps: "steps (cs_report args md res) tr P \<Longrightarrow> keeps Client Closed tr \<and> breaks_off Closed tr P"
  by (auto simp: cs_report_def steps_simps split: if_splits)

lemma cs_result_ok: "steps (cs_result args md) tr P \<Longrightarrow> client_ok Reporting tr P"
  unfolding cs_result_def
  by (erule read_ok) (auto split: msg.splits dest: other_ok cs_report_keeps)

lemma cs_drive_ok: "steps (cs_drive args md neg st) tr P \<Longrightarrow> client_ok Connecting tr P"
  by (auto simp: cs_drive_def steps_simps client_ok_Nil intro!: client_ok_Cons dest: cs_result_ok)

lemma cs_started_ok: "steps (cs_started args md neg st) tr P \<Longrightarrow> client_ok Connecting tr P"
  by (auto simp: cs_started_def steps_simps client_ok_Nil split: if_splits
      intro!: client_ok_Cons dest: cs_drive_ok)

lemma cs_start_ok:
  "steps (Recv (\<lambda>r. try_io r (\<lambda>m. case m of Start st \<Rightarrow> cs_started args md neg st | _ \<Rightarrow> other s))) tr P
     \<Longrightarrow> client_ok Negotiating tr P"
  by (erule read_ok) (auto split: msg.splits dest: other_ok cs_started_ok)

lemma cs_negotiate_ok: "steps (cs_negotiate args md neg) tr P \<Longrightarrow> client_ok Negotiating tr P"
  unfolding cs_negotiate_def
  by (auto simp: steps_Send steps_try_io client_ok_Nil intro!: client_ok_Cons dest: cs_start_ok)

lemma cs_hello_ok: "steps (cs_hello args md len) tr P \<Longrightarrow> client_ok Greeting tr P"
proof -
  define k where "k m = (case m of
      Welcome w \<Rightarrow>
        if \<not> w_accepted w \<or> w_nonce w \<noteq> NONCE then other ''server rejected handshake''
        else cs_negotiate args md (request (c_client_opts args) md len)
    | _ \<Rightarrow> other ''expected Welcome'')" for m
  have "client_ok Greeting tr P" if "steps (Recv (\<lambda>r. try_io r k)) tr P" for tr
    using that by (rule read_ok)
      (auto simp: k_def split: msg.splits if_splits dest: other_ok cs_negotiate_ok)
  then show "steps (cs_hello args md len) tr P \<Longrightarrow> client_ok Greeting tr P"
    unfolding cs_hello_def k_def [abs_def, symmetric]
    by (auto simp: steps_Send steps_try_io client_ok_Nil intro!: client_ok_Cons)
qed

lemma cs_dial_ok: "steps (cs_dial args host md len) tr P \<Longrightarrow> client_ok Greeting tr P"
  unfolding cs_dial_def
  by (erule print_lines_ok) (auto simp: steps_simps client_ok_Nil intro!: client_ok_Cons dest: cs_hello_ok)

lemma connect_ok: "steps (connect args host) tr P \<Longrightarrow> client_ok Greeting tr P"
  by (auto simp: connect_def Let_def steps_simps client_ok_Nil split: option.splits if_splits
      intro!: client_ok_Cons dest: other_ok cs_dial_ok)

text \<open>Data only moves after \<open>Run\<close>: not before it, and so no data connection is there when it is sent.\<close>

lemma data_after_run:
  assumes "keeps Client ph (pre @ Sent Run r # post)"
  shows "Driven md st n v \<notin> set pre"
proof
  assume "Driven md st n v \<in> set pre"
  then obtain xs ys where x: "pre = xs @ Driven md st n v # ys" by (meson split_list)
  with assms have "phase_after Client ph xs = Running" by (simp add: keeps_append)
  then have "Running \<le> phase_after Client ph pre"
    unfolding x phase_after_append phase_after.simps by (metis after_advances order_trans phase_after_advances)
  moreover have "phase_after Client ph pre = Connecting"
    using assms by (cases "phase_after Client ph pre") (simp_all add: keeps_append)
  ultimately show False by (simp add: less_eq_phase_def)
qed

section \<open>What the client asks for\<close>

text \<open>
  A request of the shape the server's data paths rely on: the fields of its mode are there and
  those of the other modes are not (\<open>docs/protocol.md\<close> \<section>3.3), with the warm-up of the mode.
\<close>

definition wf_negotiate :: "negotiate \<Rightarrow> bool" where
  "wf_negotiate neg \<longleftrightarrow>
     buffer_bytes neg = WRITE_BUF \<and>
     (bitrate_bps neg \<noteq> None \<longleftrightarrow> mode neg = Udp) \<and> (packet_bytes neg \<noteq> None \<longleftrightarrow> mode neg = Udp) \<and>
     (file_len neg \<noteq> None \<longleftrightarrow> mode neg = File) \<and> (null_source neg \<noteq> None \<longleftrightarrow> mode neg = File) \<and>
     warmup_secs neg = (if mode neg = File then 0 else WARMUP_SECS)"

definition asks_only :: "(negotiate \<Rightarrow> bool) \<Rightarrow> event list \<Rightarrow> bool" where
  "asks_only Q tr \<longleftrightarrow> (\<forall>neg r. Sent (Negotiate neg) r \<in> set tr \<longrightarrow> Q neg)"

lemma asks_only_simps [simp]:
  "asks_only Q []" "asks_only Q (ev # tr) \<longleftrightarrow> (\<forall>neg r. ev = Sent (Negotiate neg) r \<longrightarrow> Q neg) \<and> asks_only Q tr"
  by (auto simp: asks_only_def)

lemma read_asks:
  assumes "steps (Recv (\<lambda>r. try_io r k)) tr P" and "\<And>m tr. steps (k m) tr P \<Longrightarrow> asks_only Q tr"
  shows "asks_only Q tr"
  using assms by (auto simp: steps_simps)

lemma other_asks: "steps (other s) tr P \<Longrightarrow> asks_only Q tr"
  by (simp add: other_def steps_simps)

lemma cs_report_asks: "steps (cs_report args md res) tr P \<Longrightarrow> asks_only Q tr"
  by (auto simp: cs_report_def steps_simps split: if_splits)

lemma cs_result_asks: "steps (cs_result args md) tr P \<Longrightarrow> asks_only Q tr"
  unfolding cs_result_def by (erule read_asks) (auto split: msg.splits intro: other_asks cs_report_asks)

lemma cs_started_asks: "steps (cs_started args md neg st) tr P \<Longrightarrow> asks_only Q tr"
  by (auto simp: cs_started_def cs_drive_def steps_simps split: if_splits intro: cs_result_asks)

lemma cs_negotiate_asks: "steps (cs_negotiate args md neg) tr P \<Longrightarrow> Q neg \<Longrightarrow> asks_only Q tr"
  by (auto simp: cs_negotiate_def steps_Send steps_try_io)
     (erule read_asks, auto split: msg.splits intro: other_asks cs_started_asks)

lemma cs_hello_asks:
  "steps (cs_hello args md len) tr P \<Longrightarrow> Q (request (c_client_opts args) md len) \<Longrightarrow> asks_only Q tr"
  by (auto simp: cs_hello_def steps_Send steps_try_io)
     (erule read_asks, auto split: msg.splits if_splits intro: other_asks cs_negotiate_asks)

lemma print_lines_asks:
  "steps (print_lines ch ls K) tr P \<Longrightarrow> (\<And>tr. steps K tr P \<Longrightarrow> asks_only Q tr) \<Longrightarrow> asks_only Q tr"
  by (induction ls arbitrary: tr) (auto simp: steps_simps)

lemma cs_dial_asks:
  assumes "steps (cs_dial args host md len) tr P" "Q (request (c_client_opts args) md len)"
  shows "asks_only Q tr"
  using assms(1) unfolding cs_dial_def
  by (rule print_lines_asks) (use assms(2) in \<open>auto simp: steps_simps intro: cs_hello_asks\<close>)

lemma request_wf:
  assumes "md = UdpMode \<Longrightarrow> o_bitrate opts \<noteq> None" "len \<noteq> None \<longleftrightarrow> md = FileMode"
  shows "wf_negotiate (request opts md len)"
  using assms by (cases md) (auto simp: wf_negotiate_def request_def)

lemma connect_asks: "steps (connect args host) tr P \<Longrightarrow> asks_only wf_negotiate tr"
  by (auto simp: connect_def Let_def steps_simps split: option.splits if_splits
      intro: other_asks intro!: request_wf elim!: cs_dial_asks)

section \<open>What the server refuses\<close>

text \<open>The errors that a run may send.\<close>

definition errors_in :: "proto_error set \<Rightarrow> event list \<Rightarrow> bool" where
  "errors_in es tr \<longleftrightarrow> (\<forall>err r. Sent (Error err) r \<in> set tr \<longrightarrow> err \<in> es)"

lemma errors_in_simps [simp]:
  "errors_in es []" "errors_in es (ev # tr) \<longleftrightarrow> (\<forall>err r. ev = Sent (Error err) r \<longrightarrow> err \<in> es) \<and> errors_in es tr"
  by (auto simp: errors_in_def)

abbreviation refusals :: "proto_error set" where
  "refusals \<equiv> {VersionMismatch, UnexpectedMessage}"

lemma reject_errors: "steps (reject err) tr P \<Longrightarrow> err \<in> es \<Longrightarrow> errors_in es tr"
  by (auto simp: reject_def steps_simps)

lemma read_errors:
  assumes "steps (Recv (\<lambda>r. try_io r k)) tr P" and "\<And>m tr. steps (k m) tr P \<Longrightarrow> errors_in es tr"
  shows "errors_in es tr"
  using assms by (auto simp: steps_simps)

lemma ss_serve_errors: "steps (ss_serve neg) tr P \<Longrightarrow> errors_in es tr"
  by (cases "mode neg") (auto simp: ss_serve_def ss_report_def steps_simps)

lemma ss_run_errors: "steps (ss_run neg) tr P \<Longrightarrow> errors_in refusals tr"
  unfolding ss_run_def by (erule read_errors) (auto split: msg.splits intro: ss_serve_errors reject_errors)

lemma ss_bind_errors: "steps (ss_bind neg) tr P \<Longrightarrow> errors_in refusals tr"
  by (auto simp: ss_bind_def ss_start_def steps_Bind steps_Send steps_try_io intro: ss_run_errors)

lemma ss_negotiate_errors: "steps ss_negotiate tr P \<Longrightarrow> errors_in refusals tr"
  unfolding ss_negotiate_def by (erule read_errors) (auto split: msg.splits intro: ss_bind_errors reject_errors)

lemma ss_welcome_errors: "steps (ss_welcome h) tr P \<Longrightarrow> errors_in refusals tr"
  by (auto simp: ss_welcome_def Let_def steps_Send steps_try_io split: if_splits intro: ss_negotiate_errors reject_errors)

lemma serve_session_errors: "steps serve_session tr P \<Longrightarrow> errors_in refusals tr"
  unfolding serve_session_def by (erule read_errors) (auto split: msg.splits intro: ss_welcome_errors reject_errors)

lemma serve_session_binds:
  assumes "steps serve_session ([Received (Inr (Hello h)), Sent (Welcome w) (Inr ()), Received (Inr (Negotiate neg)), ev] @ rest) P"
  shows "\<exists>r. ev = Bound (mode neg) r"
  using assms
  by (auto simp: serve_session_def ss_welcome_def ss_negotiate_def ss_bind_def reject_def Let_def steps_simps split: if_splits)

section \<open>Properties\<close>

text \<open>
  C6. The conduct of the server, whatever its peer sends and whatever fails. Each of its messages is
  one that the table of \<open>docs/protocol.md\<close> \<section>4 allows the server in the phase of the session, the
  data port is bound while negotiating, data is only served while running and nothing is read once
  the session is closed, with one exception. Up to the run, a message out of sequence is answered
  with \<open>UnexpectedMessage\<close> and nothing more, as the document demands. While running it is not:
  against \<section>4 and \<section>6 the server takes any other message, and the loss of the connection, for
  \<open>Stop\<close>, never refuses it, and at most sends a result as its last message - the exception. It
  returns \<open>Ok\<close> only after sending a result.
\<close>

theorem server_conforms:
  assumes "steps serve_session tr P"
  shows "(keeps Server Greeting tr \<or> early_result Greeting tr) \<and> refuses Greeting tr \<and> takes_for_stop Greeting tr
    \<and> (P = Done (Inr ()) \<longrightarrow> (\<exists>res. Sent (Result res) (Inr ()) \<in> set tr))"
  using serve_session_ok [OF assms] by (simp add: server_ok_def)

theorem server_conforms_witness:
  "refuses Greeting [Received (Inr (Hello \<lparr>h_protocol_version = 1, h_client_version = ''0'', h_nonce = 7\<rparr>)),
     Sent (Welcome \<lparr>w_protocol_version = 1, w_server_version = ''0.1.1'', w_nonce = 7, w_accepted = True\<rparr>) (Inr ()),
     Received (Inr (Negotiate (udp_negotiate 1000 1 16))), Bound Udp (Inr 9),
     Sent (Start \<lparr>data_port = 9, server_seed = 0x5EED2026\<rparr>) (Inr ()),
     Received (Inr Stop), Sent (Error UnexpectedMessage) (Inr ())]"
  by (rule server_conforms [where P = "Done (Inl (Io (IoError InvalidData ''rejected: UnexpectedMessage'')))",
        THEN conjunct2, THEN conjunct1])
     (simp add: server_defs steps_simps PROTOCOL_VERSION_def VERSION_def)

text \<open>
  Such a session: a client that repeats \<open>Run\<close> instead of \<open>Stop\<close> gets its result, which the table
  allows in no phase but \<open>Reporting\<close>.
\<close>

lemma run_taken_for_stop:
  fixes res :: test_result
  defines "tr \<equiv> [Received (Inr (Hello \<lparr>h_protocol_version = 1, h_client_version = ''0'', h_nonce = 7\<rparr>)),
     Sent (Welcome \<lparr>w_protocol_version = 1, w_server_version = ''0.1.1'', w_nonce = 7, w_accepted = True\<rparr>) (Inr ()),
     Received (Inr (Negotiate (udp_negotiate 1000 1 16))), Bound Udp (Inr 9),
     Sent (Start \<lparr>data_port = 9, server_seed = 0x5EED2026\<rparr>) (Inr ()), Received (Inr Run),
     Served (udp_negotiate 1000 1 16) (Some (Inr Run)) (Inr res), Sent (Result res) (Inr ())]"
  shows "steps serve_session tr (Done (Inr ()))" "\<not> keeps Server Greeting tr"
  by (simp_all add: tr_def server_defs steps_simps PROTOCOL_VERSION_def VERSION_def)

text \<open>
  C7. The conduct of the client, whatever its options, its peer and the data path do. It keeps to
  the table of \<open>docs/protocol.md\<close> \<section>4: it sends only what the table allows the client in the phase
  of the session, moves data only while running, reads nothing once the session is closed. A message
  out of sequence ends it with an error, and without an answer; it ends without an error only when it
  has received the server's result. Against \<section>3.4 and \<section>4 (\<open>Run\<close> once the data connections are
  open), it never has a data connection open when it sends \<open>Run\<close>: it opens them only afterwards.
\<close>

theorem client_conforms:
  assumes "steps (connect args host) tr P"
  shows "keeps Client Greeting tr \<and> breaks_off Greeting tr P
    \<and> (P = Done (Inr ()) \<longrightarrow> (\<exists>res. Received (Inr (Result res)) \<in> set tr))
    \<and> (\<forall>pre r post. tr = pre @ Sent Run r # post \<longrightarrow> (\<forall>md st n v. Driven md st n v \<notin> set pre))"
  using connect_ok [OF assms] data_after_run by (auto simp: client_ok_def)

abbreviation udp_cli :: cli where
  "udp_cli \<equiv>
     \<lparr>c_role = \<lparr>rl_server = False, rl_client = Some ''host''\<rparr>,
      c_client_opts = \<lparr>o_mode = \<lparr>mf_tcp = False, mf_udp = True, mf_file = None\<rparr>, o_duration = 10,
        o_parallel = 1, o_bidir = False, o_bitrate = Some 1000, o_packet = 1472, o_null_source = False, o_json = True\<rparr>,
      c_port = 5201, c_format = Mbps, c_verbose = False\<rparr>"

theorem client_conforms_witness:
  "keeps Client Greeting [Dialled ''host'' 5201 (Inr ()),
     Sent (Hello \<lparr>h_protocol_version = 1, h_client_version = ''0.1.1'', h_nonce = 0xA17D2026\<rparr>) (Inr ()),
     Received (Inr (Welcome \<lparr>w_protocol_version = 1, w_server_version = ''0'', w_nonce = 0xA17D2026, w_accepted = True\<rparr>)),
     Sent (Negotiate (request (c_client_opts udp_cli) UdpMode None)) (Inr ()), Received (Inr Run)]"
  by (rule client_conforms [where args = udp_cli and host = "''host''"
        and P = "Done (Inl (Io (IoError OtherKind ''expected Start'')))", THEN conjunct1])
     (simp add: client_defs Let_def steps_simps selected_def PROTOCOL_VERSION_def VERSION_def NONCE_def)

text \<open>
  C28. The client's requests are well formed: every \<open>Negotiate\<close> that it sends has exactly the
  optional fields of its mode (a bitrate and a packet size for UDP, a file length and the kind
  of source for files), the default buffer, and the warm-up of its mode (none for files).
\<close>

theorem client_requests_well_formed:
  assumes "steps (connect args host) tr P" and "Sent (Negotiate neg) r \<in> set tr"
  shows "wf_negotiate neg"
  using connect_asks [OF assms(1)] assms(2) by (auto simp: asks_only_def)

theorem client_requests_well_formed_witness:
  "wf_negotiate (request (c_client_opts udp_cli) UdpMode None)"
proof (rule client_requests_well_formed)
  show "steps (connect udp_cli ''host'') [Dialled ''host'' 5201 (Inr ()),
      Sent (Hello \<lparr>h_protocol_version = 1, h_client_version = ''0.1.1'', h_nonce = 0xA17D2026\<rparr>) (Inr ()),
      Received (Inr (Welcome \<lparr>w_protocol_version = 1, w_server_version = ''0'', w_nonce = 0xA17D2026, w_accepted = True\<rparr>)),
      Sent (Negotiate (request (c_client_opts udp_cli) UdpMode None)) (Inr ()), Received (Inr Run)]
      (Done (Inl (Io (IoError OtherKind ''expected Start''))))"
    by (simp add: client_defs Let_def steps_simps selected_def PROTOCOL_VERSION_def VERSION_def NONCE_def)
qed simp

text \<open>
  C27. The server validates nothing: once it has accepted the handshake, it goes on to bind a data
  port for any request it reads, of any duration, any number of streams and any size of buffers and
  datagrams, and it never answers \<open>InvalidParams\<close>. (\<open>docs/protocol.md\<close> \<section>5 has it reject what is
  outside its limits.)
\<close>

theorem requests_not_validated:
  assumes "steps serve_session tr P"
  shows "(\<forall>r. Sent (Error InvalidParams) r \<notin> set tr)
    \<and> (\<forall>h w neg ev rest. tr = [Received (Inr (Hello h)), Sent (Welcome w) (Inr ()), Received (Inr (Negotiate neg)), ev] @ rest
          \<longrightarrow> (\<exists>r. ev = Bound (mode neg) r))"
proof
  show "\<forall>r. Sent (Error InvalidParams) r \<notin> set tr"
    using serve_session_errors [OF assms] by (auto simp: errors_in_def)
qed (use serve_session_binds assms in blast)

theorem requests_not_validated_witness:
  "\<exists>r. Bound Udp (Inr 9) = Bound (mode (udp_negotiate 0 0 0\<lparr>duration_secs := - 1, parallel := - 1\<rparr>)) r"
proof -
  have "steps serve_session ([Received (Inr (Hello \<lparr>h_protocol_version = 1, h_client_version = ''0'', h_nonce = 7\<rparr>)),
     Sent (Welcome \<lparr>w_protocol_version = 1, w_server_version = ''0.1.1'', w_nonce = 7, w_accepted = True\<rparr>) (Inr ()),
     Received (Inr (Negotiate (udp_negotiate 0 0 0\<lparr>duration_secs := - 1, parallel := - 1\<rparr>))), Bound Udp (Inr 9)] @ [])
     (ss_start (udp_negotiate 0 0 0\<lparr>duration_secs := - 1, parallel := - 1\<rparr>) 9)"
    by (simp add: serve_session_def ss_welcome_def ss_negotiate_def ss_bind_def steps_simps PROTOCOL_VERSION_def VERSION_def
        steps.intros)
  from requests_not_validated [OF this] show ?thesis by blast
qed

end
