(* ===== verification/Phases.thy ===== *)
theory Phases
  imports Protocol
begin

text \<open>
  The order of the messages of a session: that of the phases of \<open>Protocol\<close>, and both control
  functions keeping to it, whatever happens.
\<close>

section \<open>The order of messages\<close>

text \<open>The phase a message belongs to; an error closes the session.\<close>

fun stage_of :: "msg \<Rightarrow> phase" where
  "stage_of (Hello h) = Greeting"
| "stage_of (Welcome w) = Greeting"
| "stage_of (Negotiate neg) = Negotiating"
| "stage_of (Start st) = Negotiating"
| "stage_of Run = Connecting"
| "stage_of Stop = Running"
| "stage_of (Result res) = Reporting"
| "stage_of (Error e) = Closed"

definition sends_from :: "phase \<Rightarrow> event list \<Rightarrow> bool" where
  "sends_from ph tr \<longleftrightarrow>
     sorted_wrt (<) (map stage_of (sent_msgs tr)) \<and> (\<forall>m\<in>set (sent_msgs tr). ph \<le> stage_of m)"

lemma sends_from_Nil: "sends_from ph []"
  by (simp add: sends_from_def)

lemma sends_from_other: "sends_from ph tr \<Longrightarrow> (\<forall>m r. ev \<noteq> Sent m r) \<Longrightarrow> sends_from ph (ev # tr)"
  by (cases ev) (simp_all add: sends_from_def)

lemma sends_from_Sent:
  assumes "ph \<le> stage_of m" "stage_of m < ph'" "sends_from ph' tr"
  shows "sends_from ph (Sent m r # tr)"
  using assms unfolding sends_from_def by (auto intro: less_le_trans order_trans less_imp_le)

lemma sends_from_last: "ph \<le> stage_of m \<Longrightarrow> sends_from ph [Sent m r]"
  by (simp add: sends_from_def)

lemma sends_from_mono: "sends_from ph' tr \<Longrightarrow> ph \<le> ph' \<Longrightarrow> sends_from ph tr"
  unfolding sends_from_def by (meson order_trans)

lemma sends_from_read:
  assumes "steps (Recv (\<lambda>r. try_io r k)) tr P" and "\<And>m tr. steps (k m) tr P \<Longrightarrow> sends_from ph tr"
  shows "sends_from ph tr"
  using assms by (auto simp: steps_simps sends_from_Nil intro!: sends_from_other)

text \<open>A message that is sent, and what follows it if that succeeds.\<close>

lemma sends_from_send:
  assumes "steps (Send_msg m (\<lambda>r. try_io r (\<lambda>_. K))) tr P" "ph \<le> stage_of m" "stage_of m < ph'"
    and "\<And>tr. steps K tr P \<Longrightarrow> sends_from ph' tr"
  shows "sends_from ph tr"
  using assms by (auto simp: steps_simps sends_from_Nil intro!: sends_from_last intro: sends_from_Sent)

section \<open>The server\<close>

lemma reject_sends: "steps (reject err) tr P \<Longrightarrow> sends_from ph tr"
  by (auto simp: reject_def steps_simps sends_from_Nil intro!: sends_from_last)

lemma ss_report_sends: "steps (ss_report res) tr P \<Longrightarrow> sends_from Reporting tr"
  by (auto simp: ss_report_def steps_simps sends_from_Nil intro!: sends_from_last)

lemma ss_serve_sends: "steps (ss_serve neg) tr P \<Longrightarrow> sends_from Reporting tr"
  by (cases "mode neg")
     (auto simp: ss_serve_def steps_simps sends_from_Nil intro!: sends_from_other dest: ss_report_sends split: sum.splits)

lemma ss_run_sends: "steps (ss_run neg) tr P \<Longrightarrow> sends_from Reporting tr"
  unfolding ss_run_def by (erule sends_from_read) (auto split: msg.splits dest: ss_serve_sends reject_sends)

lemma ss_start_sends: "steps (ss_start neg port) tr P \<Longrightarrow> sends_from Negotiating tr"
  unfolding ss_start_def
  by (erule sends_from_send [where ph' = Reporting]) (auto simp: less_phase_def dest: ss_run_sends)

lemma ss_bind_sends: "steps (ss_bind neg) tr P \<Longrightarrow> sends_from Negotiating tr"
  by (auto simp: ss_bind_def steps_Bind steps_try_io sends_from_Nil intro!: sends_from_other dest: ss_start_sends)

lemma ss_negotiate_sends: "steps ss_negotiate tr P \<Longrightarrow> sends_from Negotiating tr"
  unfolding ss_negotiate_def by (erule sends_from_read) (auto split: msg.splits dest: ss_bind_sends reject_sends)

lemma ss_welcome_sends: "steps (ss_welcome h) tr P \<Longrightarrow> sends_from Greeting tr"
  unfolding ss_welcome_def Let_def
  by (erule sends_from_send [where ph' = Negotiating]) (auto split: if_splits dest: ss_negotiate_sends reject_sends)

lemma serve_session_sends: "steps serve_session tr P \<Longrightarrow> sends_from Greeting tr"
  unfolding serve_session_def by (erule sends_from_read) (auto split: msg.splits dest: ss_welcome_sends reject_sends)

section \<open>The client\<close>

lemma other_sends: "steps (other s) tr P \<Longrightarrow> sends_from ph tr"
  by (auto simp: other_def steps_simps sends_from_Nil)

lemma cs_result_sends: "steps (cs_result args md) tr P \<Longrightarrow> sends_from Closed tr"
  unfolding cs_result_def
  by (erule sends_from_read)
     (auto simp: cs_report_def steps_simps sends_from_Nil split: msg.splits if_splits intro!: sends_from_other dest: other_sends)

lemma cs_drive_sends: "steps (cs_drive args md neg st) tr P \<Longrightarrow> sends_from Connecting tr"
proof -
  have stop: "sends_from Running tr" if "steps (Send_msg Stop (\<lambda>r. try_io r (\<lambda>_. cs_result args md))) tr P" for tr
    using that by (rule sends_from_send [where ph' = Closed]) (auto simp: less_phase_def dest: cs_result_sends)
  show "steps (cs_drive args md neg st) tr P \<Longrightarrow> sends_from Connecting tr"
    unfolding cs_drive_def
    by (erule sends_from_send [where ph' = Running])
       (auto simp: steps_Drive steps_try_outcome sends_from_Nil intro!: sends_from_other dest: stop)
qed

lemma cs_started_sends: "steps (cs_started args md neg st) tr P \<Longrightarrow> sends_from Connecting tr"
  by (auto simp: cs_started_def steps_Print steps_try_outcome sends_from_Nil split: if_splits
      intro!: sends_from_other dest: cs_drive_sends)

lemma cs_negotiate_sends: "steps (cs_negotiate args md neg) tr P \<Longrightarrow> sends_from Negotiating tr"
  unfolding cs_negotiate_def
  by (erule sends_from_send [where ph' = Connecting])
     (auto elim!: sends_from_read split: msg.splits dest: other_sends cs_started_sends)

lemma cs_hello_sends: "steps (cs_hello args md len) tr P \<Longrightarrow> sends_from Greeting tr"
  unfolding cs_hello_def
  by (erule sends_from_send [where ph' = Negotiating])
     (auto elim!: sends_from_read split: msg.splits if_splits dest: other_sends cs_negotiate_sends)

lemma print_lines_sends:
  "steps (print_lines ch ls K) tr P \<Longrightarrow> (\<And>tr. steps K tr P \<Longrightarrow> sends_from ph tr) \<Longrightarrow> sends_from ph tr"
  by (induction ls arbitrary: tr) (auto simp: steps_simps sends_from_Nil intro!: sends_from_other)

lemma cs_dial_sends: "steps (cs_dial args host md len) tr P \<Longrightarrow> sends_from Greeting tr"
  unfolding cs_dial_def
  by (erule print_lines_sends) (auto simp: steps_simps sends_from_Nil intro!: sends_from_other dest: cs_hello_sends)

lemma connect_sends: "steps (connect args host) tr P \<Longrightarrow> sends_from Greeting tr"
  by (auto simp: connect_def Let_def steps_simps sends_from_Nil split: option.splits if_splits
      intro!: sends_from_other dest: other_sends cs_dial_sends)

section \<open>Properties\<close>

text \<open>
  C8. Messages are sent in the order of the phases, each kind at most once: whatever its peer, the
  connection and the data path do, the messages of either function come in strictly ascending
  phases, and nothing follows an error.
\<close>

theorem messages_in_order:
  assumes "steps F tr P" and "F = serve_session \<or> F = connect args host"
  shows "sorted_wrt (<) (map stage_of (sent_msgs tr))
    \<and> (\<forall>e ms ms'. sent_msgs tr = ms @ Error e # ms' \<longrightarrow> ms' = [])"
proof -
  have "sends_from Greeting tr" using assms serve_session_sends connect_sends by blast
  then have "sorted_wrt (<) (map stage_of (sent_msgs tr))" by (simp add: sends_from_def)
  moreover have "\<not> Closed < ph" for ph by (simp add: not_less)
  ultimately show ?thesis by (auto simp: sorted_wrt_append)
qed

theorem messages_in_order_witness:
  "sorted_wrt (<) (map stage_of [Hello \<lparr>h_protocol_version = 1, h_client_version = ''0.1.1'', h_nonce = 0xA17D2026\<rparr>,
     Negotiate (request (c_client_opts udp_cli) UdpMode None)])"
proof -
  let ?tr = "[Dialled ''host'' 5201 (Inr ()),
     Sent (Hello \<lparr>h_protocol_version = 1, h_client_version = ''0.1.1'', h_nonce = 0xA17D2026\<rparr>) (Inr ()),
     Received (Inr (Welcome \<lparr>w_protocol_version = 1, w_server_version = ''0'', w_nonce = 0xA17D2026, w_accepted = True\<rparr>)),
     Sent (Negotiate (request (c_client_opts udp_cli) UdpMode None)) (Inr ()), Received (Inr Run)]"
  have "steps (connect udp_cli ''host'') ?tr (Done (Inl (Io (IoError OtherKind ''expected Start''))))"
    by (simp add: client_defs Let_def steps_simps selected_def PROTOCOL_VERSION_def VERSION_def NONCE_def)
  from messages_in_order [OF this] show ?thesis by simp
qed

end
