(* ===== verification/Session.thy ===== *)
theory Session
  imports Protocol
begin

text \<open>
  A client and a server together: the system of \<open>Network\<close> with the two functions of
  \<open>session.rs\<close>, the data paths of \<open>modes\<close> and one codec; and the server's session on the bytes of its control
  connection.
\<close>

definition the_hello :: hello where
  "the_hello = \<lparr>h_protocol_version = PROTOCOL_VERSION, h_client_version = VERSION, h_nonce = NONCE\<rparr>"

definition the_welcome :: welcome_body where
  "the_welcome = \<lparr>w_protocol_version = PROTOCOL_VERSION, w_server_version = VERSION,
     w_nonce = NONCE, w_accepted = True\<rparr>"

definition the_start :: "u16 \<Rightarrow> start" where
  "the_start port = \<lparr>data_port = port, server_seed = 0x5EED2026\<rparr>"

text \<open>The control connection is there; what follows, for some options and file length.\<close>

definition connected_pair :: "cli \<Rightarrow> cli_mode \<Rightarrow> u64 option \<Rightarrow> sys" where
  "connected_pair args md len = sys_init (cs_hello args md len) serve_session"

definition conveyed :: "codec \<Rightarrow> msg list \<Rightarrow> bool" where
  "conveyed c ms \<longleftrightarrow> (\<forall>m\<in>set ms. decodes c m \<and> fits c m)"

definition set_up :: "codec \<Rightarrow> negotiate \<Rightarrow> bool" where
  "set_up c neg \<longleftrightarrow>
     conveyed c [Hello the_hello, Welcome the_welcome, Negotiate neg, Run, Stop]"

lemma set_up_wire:
  assumes "set_up c neg"
  shows "wire c (Hello \<lparr>h_protocol_version = PROTOCOL_VERSION, h_client_version = VERSION, h_nonce = NONCE\<rparr>) = Inr (Inr (Hello the_hello))"
    "wire c (Welcome \<lparr>w_protocol_version = PROTOCOL_VERSION, w_server_version = VERSION,
     w_nonce = NONCE, w_accepted = True\<rparr>) = Inr (Inr (Welcome the_welcome))"
    "wire c (Negotiate neg) = Inr (Inr (Negotiate neg))"
    "wire c Run = Inr (Inr Run)" "wire c Stop = Inr (Inr Stop)"
  using assms by (auto simp: set_up_def conveyed_def wire_conveys the_hello_def the_welcome_def)

lemma the_simps [simp]:
  "h_protocol_version the_hello = PROTOCOL_VERSION" "h_nonce the_hello = NONCE"
  "w_accepted the_welcome" "w_nonce the_welcome = NONCE"
  by (simp_all add: the_hello_def the_welcome_def)

lemmas step_simps = step_client_def step_server_def sys_init_def returned_def

text \<open>What a trace prints to the standard output.\<close>

fun stdout :: "event list \<Rightarrow> string list" where
  "stdout [] = []"
| "stdout (ev # tr) = (case ev of Printed Stdout s \<Rightarrow> [s] | _ \<Rightarrow> []) @ stdout tr"

lemma log_append [simp]:
  "sent_msgs (tr @ tr') = sent_msgs tr @ sent_msgs tr'" "stdout (tr @ tr') = stdout tr @ stdout tr'"
  by (induction tr rule: sent_msgs.induct) simp_all

section \<open>The course of a session\<close>

text \<open>
  What is fixed: the options and what they ask for, the codec, the port the server binds.
  \<open>at_bind\<close> is the session when the server is about to bind its data port, \<open>at_drive\<close> when
  the client is about to send its data; until then there is nothing to fail but the bind.
\<close>

definition at_bind :: "cli \<Rightarrow> cli_mode \<Rightarrow> negotiate \<Rightarrow> event list \<Rightarrow> event list \<Rightarrow> sys" where
  "at_bind args md neg cl sl =
     \<lparr>sy_client = Recv (\<lambda>r. try_io r (\<lambda>m. case m of Start st \<Rightarrow> cs_started args md neg st | _ \<Rightarrow> other ''expected Start'')),
      sy_server = ss_bind neg, sy_up = [], sy_down = [], sy_client_log = cl, sy_server_log = sl\<rparr>"

definition cs_stop :: "cli \<Rightarrow> cli_mode \<Rightarrow> proc" where
  "cs_stop args md = Send_msg Stop (\<lambda>r. try_io r (\<lambda>_. cs_result args md))"

definition at_drive :: "cli \<Rightarrow> cli_mode \<Rightarrow> negotiate \<Rightarrow> u16 \<Rightarrow> event list \<Rightarrow> event list \<Rightarrow> sys" where
  "at_drive args md neg port cl sl =
     \<lparr>sy_client = DriveData md (the_start port) neg (\<lambda>r. try_outcome r (\<lambda>_. cs_stop args md)),
      sy_server = ss_run neg, sy_up = [Inr Run], sy_down = [], sy_client_log = cl, sy_server_log = sl\<rparr>"

lemma to_bind:
  assumes "set_up c neg" "neg = request (c_client_opts args) md len"
    and "en_wire E = wire c" "en_wire F = wire c"
    and "\<And>cl sl. sent_msgs cl = [Hello the_hello, Negotiate neg] \<Longrightarrow> stdout cl = [] \<Longrightarrow>
           sent_msgs sl = [Welcome the_welcome] \<Longrightarrow> leads E F (at_bind args md neg cl sl) Q"
  shows "leads E F (connected_pair args md len) Q"
proof -
  note ev = step_simps assms(3,4) set_up_wire [OF assms(1)]
  show ?thesis
    apply (simp add: connected_pair_def sys_init_def cs_hello_def serve_session_def)
    apply (rule leads_next, simp add: ev)
    apply (rule leads_next, simp add: ev)
    apply (rule leads_next, simp add: ev ss_welcome_def)
    apply (rule leads_next, simp add: ev cs_negotiate_def flip: assms(2))
    apply (rule leads_next, simp add: ev)
    apply (rule leads_next, simp add: ev ss_negotiate_def)
    using assms(5) by (simp add: at_bind_def the_hello_def the_welcome_def)
qed

lemma payload_sample_ok: "\<exists>bs. payload_sample st WRITE_BUF = Inr bs"
  by (simp add: payload_sample_def zeroed_vec_def WRITE_BUF_def)

lemma to_drive:
  assumes "set_up c neg" "buffer_bytes neg = WRITE_BUF"
    and "wire c (Start (the_start port)) = Inr (Inr (Start (the_start port)))"
    and "en_wire E = wire c" "en_wire F = wire c" "en_bind F (mode neg) = Inr port"
    and "\<And>cl' sl'. sent_msgs cl' = sent_msgs cl @ [Run] \<Longrightarrow> stdout cl' = stdout cl \<Longrightarrow>
           sent_msgs sl' = sent_msgs sl @ [Start (the_start port)] \<Longrightarrow>
           leads E F (at_drive args md neg port cl' sl') Q"
  shows "leads E F (at_bind args md neg cl sl) Q"
proof -
  obtain bs where bs: "payload_sample (the_start port) (buffer_bytes neg) = Inr bs"
    using payload_sample_ok assms(2) by metis
  note ev = step_simps assms(3-6) set_up_wire [OF assms(1)]
  have go: "leads E F \<lparr>sy_client = cs_drive args md neg (the_start port), sy_server = ss_run neg,
      sy_up = [], sy_down = [], sy_client_log = cl', sy_server_log = sl'\<rparr> Q"
    if "sent_msgs cl' = sent_msgs cl" "stdout cl' = stdout cl"
      "sent_msgs sl' = sent_msgs sl @ [Start (the_start port)]" for cl' sl'
    apply (simp add: cs_drive_def)
    apply (rule leads_next, simp add: ev)
    using assms(7) that by (simp add: at_drive_def cs_stop_def)
  show ?thesis
    apply (simp add: at_bind_def ss_bind_def)
    apply (rule leads_next, simp add: ev)
    apply (simp add: ss_start_def flip: the_start_def)
    apply (rule leads_next, simp add: ev)
    apply (rule leads_next, simp add: ev cs_started_def bs go)
    apply (rule impI, rule leads_next, simp add: ev go)
    done
qed

text \<open>
  From there on: the client's data path ends with \<open>d\<close>, the server's with \<open>r\<close>.
\<close>

definition agreed :: "sys \<Rightarrow> bool" where
  "agreed t \<longleftrightarrow>
     (\<exists>x y. sy_client t = Done x \<and> sy_server t = Done y \<and> (x = Inr () \<longrightarrow> y = Inr ()))"

text \<open>The last stages, whatever the outcomes: the client prints, the server serves.\<close>

lemmas last_simps = step_simps agreed_def

lemma report_ends:
  "leads E F \<lparr>sy_client = cs_report args md res, sy_server = Done (Inr ()), sy_up = q, sy_down = q',
     sy_client_log = cl, sy_server_log = sl\<rparr> agreed"
  by (cases "o_json (c_client_opts args)"; cases "en_json E res"; simp add: cs_report_def)
     ((rule leads_next, simp add: last_simps)+)

lemma client_left_ends:
  assumes "en_serve F neg = Some r"
  shows "leads E F \<lparr>sy_client = Done (Inl f), sy_server = ss_serve neg, sy_up = [], sy_down = [],
     sy_client_log = cl, sy_server_log = sl\<rparr> agreed"
proof (cases r)
  case (Inl e)
  then show ?thesis
    by (cases "mode neg"; simp add: ss_serve_def) ((rule leads_next, simp add: last_simps assms)+)
next
  case (Inr res)
  then show ?thesis
    by (cases "mode neg"; cases "en_wire F (Result res)"; simp add: ss_serve_def ss_report_def)
       ((rule leads_next, simp add: last_simps assms ss_report_def)+)
qed

lemma client_waits_ends:
  assumes "en_serve F neg = Some r"
  shows "leads E F \<lparr>sy_client = cs_result args md, sy_server = ss_serve neg, sy_up = [Inr Stop], sy_down = [],
     sy_client_log = cl, sy_server_log = sl\<rparr> agreed"
proof -
  have sent: "leads E F \<lparr>sy_client = cs_result args md, sy_server = Done (Inr ()), sy_up = [], sy_down = [x],
     sy_client_log = cl, sy_server_log = sl\<rparr> agreed" for x cl sl
    by (simp add: cs_result_def, rule leads_next, cases x; simp add: step_simps report_ends split: msg.split)
       (auto simp: other_def last_simps intro!: leads_stop)
  have left: "leads E F \<lparr>sy_client = cs_result args md, sy_server = Done (Inl e), sy_up = q, sy_down = [],
     sy_client_log = cl, sy_server_log = sl\<rparr> agreed" for e q cl sl
    by (simp add: cs_result_def) ((rule leads_next, simp add: last_simps eof_def)+)
  have wait: "advance E False (cs_result args md) [] = None" by (simp add: cs_result_def)
  show ?thesis
  proof (cases r)
    case (Inl e)
    then show ?thesis
      by (cases "mode neg"; simp add: ss_serve_def)
         ((rule leads_next, simp add: step_simps assms wait left)+)
  next
    case (Inr res)
    then show ?thesis
      by (cases "mode neg"; cases "en_wire F (Result res)"; simp add: ss_serve_def)
         ((rule leads_next, simp add: step_simps assms wait ss_report_def left sent)+)
  qed
qed

lemma drive_ends:
  assumes "set_up c neg" "en_wire E = wire c" "en_wire F = wire c"
    and "en_drive E md (the_start port) neg = Some d" "en_serve F neg = Some r"
  shows "leads E F (at_drive args md neg port cl sl) agreed"
proof (cases d)
  case (Inl f)
  then show ?thesis
    by (simp add: at_drive_def)
       ((rule leads_next, simp add: step_simps assms ss_run_def client_left_ends)+)
next
  case (Inr u)
  have wait: "advance E False (cs_result args md) [] = None" by (simp add: cs_result_def)
  from Inr show ?thesis
    by (simp add: at_drive_def)
       ((rule leads_next, simp add: step_simps assms set_up_wire [OF assms(1)] cs_stop_def wait
           ss_run_def client_waits_ends)+)
qed

lemma session_ends:
  assumes "set_up c neg" "neg = request (c_client_opts args) md len"
    and "en_wire E = wire c" "en_wire F = wire c"
    and "\<And>port. en_bind F (mode neg) = Inr port \<Longrightarrow>
           conveyed c [Start (the_start port)] \<and> en_drive E md (the_start port) neg \<noteq> None"
    and "en_serve F neg \<noteq> None"
  shows "leads E F (connected_pair args md len) agreed"
proof (rule to_bind [OF assms(1-4)])
  fix cl sl
  obtain r where r: "en_serve F neg = Some r" using assms(6) by blast
  show "leads E F (at_bind args md neg cl sl) agreed"
  proof (cases "en_bind F (mode neg)")
    case (Inl e)
    then show ?thesis
      by (simp add: at_bind_def ss_bind_def) ((rule leads_next, simp add: last_simps eof_def)+)
  next
    case (Inr port)
    with assms(5) obtain d where d: "en_drive E md (the_start port) neg = Some d"
      and st: "wire c (Start (the_start port)) = Inr (Inr (Start (the_start port)))"
      by (auto simp: conveyed_def wire_conveys)
    have "buffer_bytes neg = WRITE_BUF" by (simp add: assms(2) request_def)
    from to_drive [OF assms(1) this st assms(3,4) Inr] drive_ends [OF assms(1,3,4) d r]
    show ?thesis by blast
  qed
qed

text \<open>When nothing fails: the server's result is what the client prints.\<close>

definition reported :: "cli \<Rightarrow> cli_mode \<Rightarrow> test_result \<Rightarrow> string \<Rightarrow> string" where
  "reported args md res text = (if o_json (c_client_opts args) then text else summary args md res)"

definition delivered_all ::
  "cli \<Rightarrow> cli_mode \<Rightarrow> negotiate \<Rightarrow> u16 \<Rightarrow> test_result \<Rightarrow> string \<Rightarrow> sys \<Rightarrow> bool" where
  "delivered_all args md neg port res text t \<longleftrightarrow>
     sy_client t = Done (Inr ()) \<and> sy_server t = Done (Inr ()) \<and> sy_up t = [] \<and> sy_down t = [] \<and>
     sent_msgs (sy_client_log t) = [Hello the_hello, Negotiate neg, Run, Stop] \<and>
     sent_msgs (sy_server_log t) = [Welcome the_welcome, Start (the_start port), Result res] \<and>
     stdout (sy_client_log t) = [reported args md res text]"

lemma drive_delivers:
  assumes "set_up c neg" "en_wire E = wire c" "en_wire F = wire c"
    and "en_drive E md (the_start port) neg = Some (Inr ())" "en_serve F neg = Some (Inr res)"
    and "wire c (Result res) = Inr (Inr (Result res))"
    and "o_json (c_client_opts args) \<Longrightarrow> en_json E res = Inr text"
    and "sent_msgs cl = [Hello the_hello, Negotiate neg, Run]" "stdout cl = []"
    and "sent_msgs sl = [Welcome the_welcome, Start (the_start port)]"
  shows "leads E F (at_drive args md neg port cl sl) (delivered_all args md neg port res text)"
  using assms(7)
  by (cases "mode neg"; cases "o_json (c_client_opts args)"; simp add: at_drive_def)
     ((rule leads_next, simp add: step_simps assms(2-6,8-) set_up_wire [OF assms(1)] cs_stop_def
         cs_result_def cs_report_def ss_run_def ss_serve_def ss_report_def delivered_all_def reported_def)+)

text \<open>Whatever the schedule, both sides keep to the table, but for the early result of a server.\<close>

lemma session_conforms:
  assumes "(net_step E F ^^ n) (connected_pair args md len) t"
  shows "keeps Client Greeting (sy_client_log t)
    \<and> (keeps Server Greeting (sy_server_log t) \<or> early_result Greeting (sy_server_log t))"
  using net_logs [OF assms [unfolded connected_pair_def]] cs_hello_ok serve_session_ok
  unfolding client_ok_def server_ok_def by blast

section \<open>The server on the bytes of its connection\<close>

definition frames :: "codec \<Rightarrow> msg list \<Rightarrow> bytes" where
  "frames c ms = concat (map (frame_of c) ms)"

lemma read_msg_stream:
  assumes "decodes c m" "fits c m" "inbox s = frame_of c m @ rest"
  shows "read_msg c stream_read_exact s = (Inr m, s\<lparr>inbox := rest\<rparr>)"
proof -
  obtain payload where p: "to_vec c m = Inr payload" "from_slice c payload = Inr m" "length payload \<le> 65536"
    using assms(1,2) by (auto simp: decodes_def fits_def unat_MAX_FRAME_BYTES split: sum.splits)
  with assms(3) show ?thesis
    by (simp add: read_msg_def stream_read_exact_def frame_of_def frame_def length_word)
qed

lemma write_msg_stream:
  assumes "fits c m" "room s = None"
  shows "write_msg c stream_ops s m = (Inr (), s\<lparr>outbox := outbox s @ frame_of c m\<rparr>)"
  using assms
  by (auto simp: write_msg_def stream_ops_def stream_write_all_def fits_def frame_of_def frame_def
      split: sum.splits)

text \<open>A client of the protocol's version, up to the data phase: its bytes, and the answers.\<close>

definition client_opening :: "hello \<Rightarrow> negotiate \<Rightarrow> msg list" where
  "client_opening h neg = [Hello h, Negotiate neg, Run]"

definition answers :: "hello \<Rightarrow> u16 \<Rightarrow> msg list" where
  "answers h port =
     [Welcome \<lparr>w_protocol_version = PROTOCOL_VERSION, w_server_version = VERSION,
        w_nonce = h_nonce h, w_accepted = True\<rparr>, Start (the_start port)]"

lemma serve_session_bytes:
  assumes "inbox s = frames c (client_opening h neg) @ rest" "room s = None"
    and "h_protocol_version h = PROTOCOL_VERSION" "en_bind env (mode neg) = Inr port"
    and "conveyed c (client_opening h neg)" "\<forall>m\<in>set (answers h port). fits c m"
  shows "play serve_session c env s
    = play (ss_serve neg) c env (s\<lparr>inbox := rest, outbox := outbox s @ frames c (answers h port)\<rparr>)"
proof -
  have cs: "decodes c m" "fits c m" if "m \<in> set (client_opening h neg)" for m
    using assms(5) that by (simp_all add: conveyed_def)
  have "read_msg c stream_read_exact s = (Inr (Hello h), s\<lparr>inbox := frames c [Negotiate neg, Run] @ rest\<rparr>)"
    using assms(1) by (intro read_msg_stream cs) (simp_all add: client_opening_def frames_def)
  moreover have "read_msg c stream_read_exact (s\<lparr>inbox := frames c [Negotiate neg, Run] @ rest, outbox := x\<rparr>)
      = (Inr (Negotiate neg), s\<lparr>inbox := frames c [Run] @ rest, outbox := x\<rparr>)" for x
    by (subst read_msg_stream [OF cs(1) cs(2)]; cases s) (simp_all add: client_opening_def frames_def)
  moreover have "read_msg c stream_read_exact (s\<lparr>inbox := frames c [Run] @ rest, outbox := x\<rparr>)
      = (Inr Run, s\<lparr>inbox := rest, outbox := x\<rparr>)" for x
    by (subst read_msg_stream [OF cs(1) cs(2)]; cases s) (simp_all add: client_opening_def frames_def)
  ultimately show ?thesis
    using assms(2-4,6)
    by (simp add: serve_session_def ss_welcome_def ss_negotiate_def ss_bind_def ss_start_def ss_run_def
        write_msg_stream answers_def frames_def flip: the_start_def)
qed

section \<open>Properties of the two together\<close>

text \<open>A codec that knows a list of messages, for the witnesses.\<close>

definition list_codec :: "msg list \<Rightarrow> codec" where
  "list_codec ms =
     \<lparr>to_vec = (\<lambda>m. if m \<in> set ms then Inr [of_nat (length (takeWhile (\<lambda>x. x \<noteq> m) ms))]
                  else Inl (IoError InvalidData ''unsupported'')),
      from_slice = (\<lambda>bs. case bs of
          [b] \<Rightarrow> if unat b < length ms then Inr (ms ! unat b) else Inl (IoError InvalidData ''expected value'')
        | _ \<Rightarrow> Inl (IoError InvalidData ''expected value''))\<rparr>"

lemma list_codec_ok:
  assumes "m \<in> set ms" "length ms \<le> 256"
  shows "decodes (list_codec ms) m" "fits (list_codec ms) m"
proof -
  have "length (takeWhile (\<lambda>x. x \<noteq> m) ms) < length ms"
    using assms(1) length_takeWhile_le [of "\<lambda>x. x \<noteq> m" ms] by (metis (mono_tags, lifting) le_neq_implies_less takeWhile_eq_all_conv takeWhile_eq_take take_all_iff order_refl)
  moreover from this have "ms ! length (takeWhile (\<lambda>x. x \<noteq> m) ms) = m"
    using nth_length_takeWhile by blast
  ultimately show "decodes (list_codec ms) m" "fits (list_codec ms) m"
    using assms by (simp_all add: decodes_def fits_def list_codec_def unat_of_nat unat_MAX_FRAME_BYTES)
qed

text \<open>
  C5. A session cannot get stuck. Once the control connection is there and its fixed messages
  get across, every schedule of the two functions comes to an end, in a bounded number of steps
  and always in the same state, in which both have returned, whatever fails in between: the
  bind, either data path (an error or a panic), the writing or reading of the result, its JSON.
  And a client that succeeds had a server that succeeded. The data paths must end.
\<close>

theorem session_always_ends:
  assumes "set_up c neg" and "neg = request (c_client_opts args) md len"
    and "\<And>port. sw_bind sw (mode neg) = Inr port \<Longrightarrow>
           conveyed c [Start (the_start port)] \<and> drive_data p args cw md (the_start port) neg \<noteq> None"
    and "serve_data q fmt sw neg \<noteq> None"
  shows "all_lead (with_codec c (client_env p args cw)) (with_codec c (server_env q fmt sw))
           (connected_pair args md len) agreed"
  by (rule leads_all, rule session_ends [OF assms(1,2)])
     (use assms(3,4) in \<open>auto simp: client_env_def server_env_def\<close>)

text \<open>A file of three bytes, for examples.\<close>

abbreviation file_cli :: cli where
  "file_cli \<equiv>
     \<lparr>c_role = \<lparr>rl_server = False, rl_client = Some ''host''\<rparr>,
      c_client_opts = \<lparr>o_mode = \<lparr>mf_tcp = False, mf_udp = False, mf_file = Some ''f''\<rparr>, o_duration = 10,
        o_parallel = 1, o_bidir = False, o_bitrate = None, o_packet = 1472, o_null_source = False, o_json = True\<rparr>,
      c_port = 5201, c_format = Mbps, c_verbose = True\<rparr>"

abbreviation file_client_world :: client_world where
  "file_client_world \<equiv>
     \<lparr>cw_metadata = (\<lambda>_. Inr \<lparr>meta_len = 3\<rparr>), cw_dial = (\<lambda>_ _. Inr ()), cw_json = (\<lambda>_. Inr ''{}''), cw_tcp = ([], 0, [], [], []),
      cw_udp = (Inr (), Inr (), []), cw_file = two_writes\<rparr>"

abbreviation file_server_world :: "file_event list \<Rightarrow> server_world" where
  "file_server_world evs \<equiv>
     \<lparr>sw_socket = (\<lambda>_. Inr ()), sw_addr = (\<lambda>_. Inr 4000), sw_tcp = ([], 0, []), sw_udp = (0, []), sw_file = (Inr (), 0, evs)\<rparr>"

abbreviation three_bytes :: "file_event list" where
  "three_bytes \<equiv> [FileRead (Inr [1, 2, 3]), LoopOver 5, FileTick 1000000000]"

lemma request_file: "request (c_client_opts file_cli) FileMode (Some 3) = file_negotiate 3"
  by (simp add: request_def WRITE_BUF_def)

lemma three_bytes_sent:
  "drive_data Release file_cli file_client_world FileMode st (file_negotiate 3) = Some (Inr ())"
  by (simp add: drive_data_def drive_file_def file_expected_def file_tx_init_def disk_loop.simps
      file_advance_def file_report_def file_finish_def chk_simps BUF_def percent_sent_def)

lemma three_bytes_served:
  "\<exists>res. serve_data Release Mbps (file_server_world three_bytes) (file_negotiate 3) = Some (Inr res)"
proof -
  have "delivers (unat (file_expected (file_negotiate 3))) 0 [FileRead (Inr [1, 2, 3])]"
    by (simp add: file_expected_def BUF_def)
  from serve_file_ends [OF this, of 5 "[LoopOver 5, FileTick 1000000000]" 1000000000 Release Mbps 0] show ?thesis
    by (auto simp: serve_data_def)
qed

definition session_msgs :: "negotiate \<Rightarrow> test_result list \<Rightarrow> msg list" where
  "session_msgs neg rs = [Hello the_hello, Welcome the_welcome, Negotiate neg, Start (the_start 4000), Run, Stop]
     @ map Result rs"

lemma session_msgs_conveyed:
  assumes "length rs \<le> 1"
  shows "set_up (list_codec (session_msgs neg rs)) neg"
    "conveyed (list_codec (session_msgs neg rs)) (Start (the_start 4000) # map Result rs)"
proof -
  have "length (session_msgs neg rs) \<le> 256" using assms by (simp add: session_msgs_def)
  then have "decodes (list_codec (session_msgs neg rs)) m \<and> fits (list_codec (session_msgs neg rs)) m"
    if "m \<in> set (session_msgs neg rs)" for m using that list_codec_ok by blast
  then show "set_up (list_codec (session_msgs neg rs)) neg"
    "conveyed (list_codec (session_msgs neg rs)) (Start (the_start 4000) # map Result rs)"
    by (auto simp: set_up_def conveyed_def session_msgs_def)
qed

abbreviation file_msgs :: "test_result list \<Rightarrow> msg list" where
  "file_msgs \<equiv> session_msgs (file_negotiate 3)"

lemmas file_msgs_conveyed = session_msgs_conveyed [where neg = "file_negotiate 3"]
lemmas file_msgs_def = session_msgs_def [where neg = "file_negotiate 3"]

text \<open>The result does not get across here: the codec cannot encode it.\<close>

theorem session_always_ends_witness:
  "all_lead (with_codec (list_codec (file_msgs [])) (client_env Release file_cli file_client_world))
     (with_codec (list_codec (file_msgs [])) (server_env Release Mbps (file_server_world three_bytes)))
     (connected_pair file_cli FileMode (Some 3)) agreed"
proof (rule session_always_ends)
  show "set_up (list_codec (file_msgs [])) (file_negotiate 3)" by (rule file_msgs_conveyed) simp
  show "file_negotiate 3 = request (c_client_opts file_cli) FileMode (Some 3)" by (rule request_file [symmetric])
  show "conveyed (list_codec (file_msgs [])) [Start (the_start port)]
      \<and> drive_data Release file_cli file_client_world FileMode (the_start port) (file_negotiate 3) \<noteq> None"
    if "sw_bind (file_server_world three_bytes) (mode (file_negotiate 3)) = Inr port" for port
    using that file_msgs_conveyed(2) [of "[]"] three_bytes_sent by simp
  show "serve_data Release Mbps (file_server_world three_bytes) (file_negotiate 3) \<noteq> None"
    using three_bytes_served by auto
qed

lemma session_delivers:
  assumes "set_up c neg" and "neg = request (c_client_opts args) md len"
    and "sw_bind sw (mode neg) = Inr port" and "conveyed c [Start (the_start port), Result res]"
    and "drive_data p args cw md (the_start port) neg = Some (Inr ())"
    and "serve_data q fmt sw neg = Some (Inr res)"
    and "o_json (c_client_opts args) \<Longrightarrow> cw_json cw res = Inr text"
  shows "all_lead (with_codec c (client_env p args cw)) (with_codec c (server_env q fmt sw))
           (connected_pair args md len) (delivered_all args md neg port res text)"
proof (rule leads_all, rule to_bind [OF assms(1,2)])
  let ?E = "with_codec c (client_env p args cw)" and ?F = "with_codec c (server_env q fmt sw)"
  fix cl sl
  assume logs: "sent_msgs cl = [Hello the_hello, Negotiate neg]" "stdout cl = []" "sent_msgs sl = [Welcome the_welcome]"
  have w: "wire c (Start (the_start port)) = Inr (Inr (Start (the_start port)))" "wire c (Result res) = Inr (Inr (Result res))"
    using assms(4) by (simp_all add: conveyed_def wire_conveys)
  have b: "buffer_bytes neg = WRITE_BUF" by (simp add: assms(2) request_def)
  show "leads ?E ?F (at_bind args md neg cl sl) (delivered_all args md neg port res text)"
  proof (rule to_drive [OF assms(1) b w(1)])
    fix cl' sl'
    assume "sent_msgs cl' = sent_msgs cl @ [Run]" "stdout cl' = stdout cl"
      "sent_msgs sl' = sent_msgs sl @ [Start (the_start port)]"
    with logs w(2) assms(5-7) show "leads ?E ?F (at_drive args md neg port cl' sl') (delivered_all args md neg port res text)"
      by (intro drive_delivers [OF assms(1)]) (simp_all add: client_env_def server_env_def)
  qed (use assms(3) in \<open>simp_all add: server_env_def\<close>)
qed simp_all

text \<open>
  C1. What the client prints is the server's result. When the bind, both data paths and the
  messages succeed, every schedule ends with both functions returning \<open>Ok\<close>; the client has sent
  exactly Hello, Negotiate, Run and Stop, the server exactly Welcome, Start and its result; no
  message is left over; and the client's standard output is exactly one text, that result as
  JSON with \<open>--json\<close> and else its summary.
\<close>

theorem session_delivers_result:
  assumes "set_up c neg" and "neg = request (c_client_opts args) md len"
    and "sw_bind sw (mode neg) = Inr port" and "conveyed c [Start (the_start port), Result res]"
    and "drive_data p args cw md (the_start port) neg = Some (Inr ())"
    and "serve_data q fmt sw neg = Some (Inr res)"
    and "o_json (c_client_opts args) \<Longrightarrow> cw_json cw res = Inr text"
  shows "all_lead (with_codec c (client_env p args cw)) (with_codec c (server_env q fmt sw))
           (connected_pair args md len) (delivered_all args md neg port res text)"
  by (rule session_delivers [OF assms])

theorem session_delivers_result_witness:
  "\<exists>res. all_lead (with_codec (list_codec (file_msgs [res])) (client_env Release file_cli file_client_world))
     (with_codec (list_codec (file_msgs [res])) (server_env Release Mbps (file_server_world three_bytes)))
     (connected_pair file_cli FileMode (Some 3)) (delivered_all file_cli FileMode (file_negotiate 3) 4000 res ''{}'')"
proof -
  obtain res where res: "serve_data Release Mbps (file_server_world three_bytes) (file_negotiate 3) = Some (Inr res)"
    using three_bytes_served by blast
  have "conveyed (list_codec (file_msgs [res])) [Start (the_start 4000), Result res]"
    using file_msgs_conveyed(2) [of "[res]"] by simp
  from session_delivers_result [OF file_msgs_conveyed(1) request_file [symmetric] _ this three_bytes_sent res]
  show ?thesis by auto
qed

section \<open>A file that comes up short\<close>

definition stuck :: "sys \<Rightarrow> bool" where
  "stuck t \<longleftrightarrow> (\<exists>k neg k'. sy_client t = Recv k \<and> sy_down t = [] \<and> sy_server t = ServeAll neg k')"

lemma serve_data_short:
  assumes "mode neg = File" "sw_file w = (Inr (), t0, evs @ FileRead (Inr []) # evs')"
    and "0 < file_expected neg" "cut_short (unat (file_expected neg)) 0 (evs @ [FileRead (Inr [])])"
  shows "serve_data q fmt w neg = None"
  using serve_file_short [OF assms(3,4)] assms(1,2) by (simp add: serve_data_def)

lemma drive_stuck:
  assumes "set_up c neg" "en_wire E = wire c" "en_wire F = wire c" "mode neg = File"
    and "en_drive E md (the_start port) neg = Some (Inr ())" "en_serve F neg = None"
  shows "leads E F (at_drive args md neg port cl sl) stuck"
  by (simp add: at_drive_def)
     ((rule leads_next, simp add: step_simps assms set_up_wire [OF assms(1)] cs_stop_def
         cs_result_def ss_run_def ss_serve_def stuck_def)+)

text \<open>
  C20. A file that shrinks between the reading of its length and its transfer deadlocks an honest
  session: the client sends what there is, \<open>Stop\<close>, and waits for a result; the server, whose
  stream has ended short of the negotiated length, waits for the rest. Every schedule comes to
  that state, and no later event of the data path changes it.
\<close>

theorem shrunken_file_deadlocks:
  assumes "set_up c neg" and "neg = request (c_client_opts args) FileMode (Some n)" and "0 < n"
    and "sw_bind sw File = Inr port" and "conveyed c [Start (the_start port)]"
    and "drive_data p args cw FileMode (the_start port) neg = Some (Inr ())"
    and "sw_file sw = (Inr (), t0, evs @ FileRead (Inr []) # evs')"
    and "cut_short (unat n) 0 (evs @ [FileRead (Inr [])])"
  shows "all_lead (with_codec c (client_env p args cw)) (with_codec c (server_env q fmt sw))
           (connected_pair args FileMode (Some n)) stuck"
proof (rule leads_all, rule to_bind [OF assms(1,2)])
  let ?E = "with_codec c (client_env p args cw)" and ?F = "with_codec c (server_env q fmt sw)"
  fix cl sl
  have neg: "mode neg = File" "file_expected neg = n" "buffer_bytes neg = WRITE_BUF"
    by (simp_all add: assms(2) request_def file_expected_def)
  have w: "wire c (Start (the_start port)) = Inr (Inr (Start (the_start port)))"
    using assms(5) by (simp add: conveyed_def wire_conveys)
  have "serve_data q fmt sw neg = None"
    using serve_data_short [OF neg(1) assms(7)] neg(2) assms(3,8) by simp
  then show "leads ?E ?F (at_bind args FileMode neg cl sl) stuck"
    using assms(4,6) neg(1)
    by (intro to_drive [OF assms(1) neg(3) w] drive_stuck [OF assms(1)]) (simp_all add: client_env_def server_env_def)
qed simp_all

abbreviation short_world :: client_world where
  "short_world \<equiv> file_client_world\<lparr>cw_file := two_writes\<lparr>fe_disk := [(Inr [1], Inr (), 1), (Inr [], Inr (), 2)]\<rparr>\<rparr>"

theorem shrunken_file_deadlocks_witness:
  "all_lead (with_codec (list_codec (file_msgs [])) (client_env Release file_cli short_world))
     (with_codec (list_codec (file_msgs [])) (server_env Release Mbps
        (file_server_world ([FileRead (Inr [1])] @ FileRead (Inr []) # [LoopOver 5, FileTick 1000000000]))))
     (connected_pair file_cli FileMode (Some 3)) stuck"
proof (rule shrunken_file_deadlocks)
  show "set_up (list_codec (file_msgs [])) (file_negotiate 3)" by (rule file_msgs_conveyed) simp
  show "file_negotiate 3 = request (c_client_opts file_cli) FileMode (Some 3)" by (rule request_file [symmetric])
  show "conveyed (list_codec (file_msgs [])) [Start (the_start 4000)]" using file_msgs_conveyed(2) [of "[]"] by simp
  show "drive_data Release file_cli short_world FileMode (the_start 4000) (file_negotiate 3) = Some (Inr ())"
    by (simp add: drive_data_def drive_file_def file_expected_def file_tx_init_def disk_loop.simps
        file_advance_def file_report_def file_finish_def chk_simps BUF_def)
  show "sw_file (file_server_world ([FileRead (Inr [1])] @ FileRead (Inr []) # [LoopOver 5, FileTick 1000000000]))
      = (Inr (), 0, [FileRead (Inr [1])] @ FileRead (Inr []) # [LoopOver 5, FileTick 1000000000])" by simp
qed (simp_all add: BUF_def)

end
