(* ===== verification/Serving.thy ===== *)
theory Serving
  imports Session
begin

text \<open>
  The accept loop of \<open>session.rs\<close> (\<open>serve_loop\<close> of \<open>SessionServer\<close>): one session at a time, and
  what a session that fails, hangs or panics means for the clients after it.
\<close>

section \<open>One session at a time\<close>

text \<open>The session of one connection, and what the loop prints about its end.\<close>

definition session_of :: "profile \<Rightarrow> codec \<Rightarrow> format \<Rightarrow> conn \<Rightarrow> (unit outcome \<times> stream) option" where
  "session_of p c fmt x = run_on serve_session c (server_env p fmt (cn_world x)) (cn_ctrl x)"

definition failure_line :: "string \<Rightarrow> unit outcome \<Rightarrow> string list" where
  "failure_line addr r = (case r of Inl (Io e) \<Rightarrow> [''session with '' @ addr @ '' ended: '' @ message e] | _ \<Rightarrow> [])"

text \<open>The bytes of a client up to the data phase of its session.\<close>

definition speaks :: "codec \<Rightarrow> conn \<Rightarrow> hello \<Rightarrow> negotiate \<Rightarrow> u16 \<Rightarrow> bool" where
  "speaks c x h neg port \<longleftrightarrow>
     (\<exists>rest. inbox (cn_ctrl x) = frames c (client_opening h neg) @ rest) \<and> room (cn_ctrl x) = None \<and>
     h_protocol_version h = PROTOCOL_VERSION \<and> sw_bind (cn_world x) (mode neg) = Inr port \<and>
     conveyed c (client_opening h neg) \<and> (\<forall>m\<in>set (answers h port). fits c m)"

lemma speaks_session:
  assumes "speaks c x h neg port"
  shows "\<exists>rest. play serve_session c (server_env p fmt (cn_world x)) (cn_ctrl x)
    = play (ss_serve neg) c (server_env p fmt (cn_world x))
        ((cn_ctrl x)\<lparr>inbox := rest, outbox := outbox (cn_ctrl x) @ frames c (answers h port)\<rparr>)"
  using assms unfolding speaks_def
  by (elim exE conjE) (intro exI, rule serve_session_bytes, simp_all add: server_env_def)

lemma speaks_session_of:
  assumes "speaks c x h neg port"
  shows "\<exists>rest. session_of p c fmt x = run_on (ss_serve neg) c (server_env p fmt (cn_world x))
    ((cn_ctrl x)\<lparr>inbox := rest, outbox := outbox (cn_ctrl x) @ frames c (answers h port)\<rparr>)"
  using speaks_session [OF assms, of p fmt] by (auto simp: session_of_def run_on_def)

text \<open>
  C21. One client can stop the server for good: after a file transfer that ends short of the
  length it announced, nothing more is written to it than the answers to its opening messages, and
  no later client is served, whoever they are and whatever happens then.
\<close>

theorem short_transfer_starves_server:
  assumes "speaks c x h neg port" and "mode neg = File" and "0 < file_expected neg"
    and "sw_file (cn_world x) = (Inr (), t0, evs @ FileRead (Inr []) # evs')"
    and "cut_short (unat (file_expected neg)) 0 (evs @ [FileRead (Inr [])])"
  shows "serve_loop p c fmt (Inr x # later) = ([(cn_peer x, outbox (cn_ctrl x) @ frames c (answers h port))], [], None)"
proof -
  have "serve_data p fmt (cn_world x) neg = None" by (rule serve_data_short [OF assms(2,4,3,5)])
  then show ?thesis
    using speaks_session [OF assms(1), of p fmt] assms(2) by (auto simp: ss_serve_def server_env_def)
qed

text \<open>A connection that speaks the opening of a session, with a given data path.\<close>

abbreviation opening_conn :: "negotiate \<Rightarrow> server_world \<Rightarrow> conn" where
  "opening_conn neg w \<equiv>
     \<lparr>cn_peer = ''peer'', cn_ctrl = mem_stream (frames (list_codec (session_msgs neg [])) (client_opening the_hello neg)),
      cn_world = w\<rparr>"

lemma opening_conn_speaks:
  assumes "sw_bind w (mode neg) = Inr 4000"
  shows "speaks (list_codec (session_msgs neg [])) (opening_conn neg w) the_hello neg 4000"
proof -
  have "answers the_hello 4000 = [Welcome the_welcome, Start (the_start 4000)]"
    by (simp add: answers_def the_welcome_def)
  then show ?thesis
    using session_msgs_conveyed [of "[]" neg] assms
    by (simp add: speaks_def mem_stream_def client_opening_def set_up_def conveyed_def)
qed

abbreviation file_conn :: "file_event list \<Rightarrow> conn" where
  "file_conn evs \<equiv> opening_conn (file_negotiate 3) (file_server_world evs)"

theorem short_transfer_starves_server_witness:
  "serve_loop Release (list_codec (file_msgs [])) Mbps
     (Inr (file_conn ([FileRead (Inr [1])] @ FileRead (Inr []) # [])) # [Inr (file_conn three_bytes)])
   = ([(''peer'', frames (list_codec (file_msgs [])) (answers the_hello 4000))], [], None)"
proof -
  let ?x = "file_conn ([FileRead (Inr [1])] @ FileRead (Inr []) # [])"
  have "serve_loop Release (list_codec (file_msgs [])) Mbps (Inr ?x # [Inr (file_conn three_bytes)])
    = ([(cn_peer ?x, outbox (cn_ctrl ?x) @ frames (list_codec (file_msgs [])) (answers the_hello 4000))], [], None)"
  proof (rule short_transfer_starves_server [OF opening_conn_speaks])
    show "sw_file (cn_world ?x) = (Inr (), 0, [FileRead (Inr [1])] @ FileRead (Inr []) # [])" by simp
  qed (simp_all add: file_expected_def BUF_def)
  then show ?thesis by (simp only: mem_stream_def conn.simps stream.simps append_Nil)
qed

text \<open>
  C23. A session that fails does not stop the server: as long as every session comes to an end
  without a panic, each client in turn gets its session, the failed ones are reported, and the
  loop waits for the next client.
\<close>

theorem server_outlives_sessions:
  assumes "\<forall>x\<in>set conns. \<exists>r st. session_of p c fmt x = Some (r, st) \<and> (\<forall>s. r \<noteq> Inl (Panic s))"
  shows "serve_loop p c fmt (map Inr conns) =
    (map (\<lambda>x. (cn_peer x, outbox (snd (the (session_of p c fmt x))))) conns,
     concat (map (\<lambda>x. failure_line (cn_peer x) (fst (the (session_of p c fmt x)))) conns), None)"
  using assms
proof (induction conns)
  case (Cons x conns)
  then obtain r st where r: "session_of p c fmt x = Some (r, st)" "\<forall>s. r \<noteq> Inl (Panic s)" by auto
  moreover from r(1) have "play serve_session c (server_env p fmt (cn_world x)) (cn_ctrl x) = (Some r, st)"
    by (simp add: session_of_def play_run_on)
  ultimately show ?case using Cons
    by (auto simp: failure_line_def log_session_def split: sum.splits fault.splits)
qed simp

text \<open>A client that says nothing, and one that sends garbage.\<close>

abbreviation bytes_conn :: "bytes \<Rightarrow> conn" where
  "bytes_conn bs \<equiv> \<lparr>cn_peer = ''peer'', cn_ctrl = mem_stream bs, cn_world = file_server_world []\<rparr>"

theorem server_outlives_sessions_witness:
  "\<exists>served lines. serve_loop Release toy_codec Mbps (map Inr [bytes_conn [], bytes_conn [0, 0, 0, 1, 9]])
     = (served, lines, None) \<and> length served = 2"
proof -
  have "\<forall>x\<in>set [bytes_conn [], bytes_conn [0, 0, 0, 1, 9]].
      \<exists>r st. session_of Release toy_codec Mbps x = Some (r, st) \<and> (\<forall>s. r \<noteq> Inl (Panic s))"
    by (simp add: session_of_def serve_session_def read_msg_def stream_read_exact_def mem_stream_def Let_def
        MAX_FRAME_BYTES_def u32_from_be_def toy_codec_def ascii_def)
  from server_outlives_sessions [OF this] show ?thesis by simp
qed

section \<open>Requests that stop the server\<close>

text \<open>Fewer data connections than were asked for: \<open>serve\<close> waits for the rest.\<close>

lemma accept_all_waits: "k < n \<Longrightarrow> accept_all n (replicate k (Inr ())) = None"
proof (induction k arbitrary: n)
  case (Suc k)
  then show ?case by (cases n) simp_all
next
  case 0
  then show ?case by (cases n) simp_all
qed

text \<open>
  A client that asks for more streams than it opens stops the server for good: \<open>serve\<close> waits
  for the missing data connections without a timeout, so neither this client nor a later one is
  answered any more.
\<close>

lemma missing_streams_starve_server:
  assumes "speaks c x h neg port" and "mode neg = Tcp" and "sw_tcp (cn_world x) = (replicate k (Inr ()), t0, evs)"
    and "k < unat (parallel neg)"
  shows "serve_loop p c fmt (Inr x # later) = ([(cn_peer x, outbox (cn_ctrl x) @ frames c (answers h port))], [], None)"
proof -
  have "serve_data p fmt (cn_world x) neg = None"
    using accept_all_waits [OF assms(4)] assms(2,3) by (simp add: serve_data_def serve_tcp_def)
  then show ?thesis
    using speaks_session [OF assms(1), of p fmt] assms(2) by (auto simp: ss_serve_def server_env_def)
qed

lemma missing_streams_starve_server_witness:
  "serve_loop Release (list_codec (session_msgs tcp_negotiate [])) Mbps
     (Inr (opening_conn tcp_negotiate (file_server_world []\<lparr>sw_tcp := (replicate 1 (Inr ()), 0, [])\<rparr>)) # [Inr (file_conn three_bytes)])
   = ([(''peer'', frames (list_codec (session_msgs tcp_negotiate [])) (answers the_hello 4000))], [], None)"
proof -
  let ?x = "opening_conn tcp_negotiate (file_server_world []\<lparr>sw_tcp := (replicate 1 (Inr ()), 0, [])\<rparr>)"
  have "serve_loop Release (list_codec (session_msgs tcp_negotiate [])) Mbps (Inr ?x # [Inr (file_conn three_bytes)])
    = ([(cn_peer ?x, outbox (cn_ctrl ?x) @ frames (list_codec (session_msgs tcp_negotiate [])) (answers the_hello 4000))], [], None)"
  proof (rule missing_streams_starve_server [OF opening_conn_speaks])
    show "1 < unat (parallel tcp_negotiate)" by simp
  qed simp_all
  then show ?thesis by (simp only: mem_stream_def conn.simps stream.simps append_Nil)
qed

lemma oversized_buffer_panics:
  assumes "packet_bytes neg = Some n" "2 ^ 63 \<le> unat n"
  shows "\<exists>s. serve_udp p neg fmt t0 evs = Some (Inl (Panic s))"
proof -
  have "2 ^ 63 \<le> unat (max (packet_size neg) 65535)"
    using assms by (simp add: packet_size_def unat_max_word)
  then show ?thesis by (auto simp: serve_udp_def zeroed_vec_def split: option.split)
qed

text \<open>
  C22. One request takes the server down: a UDP negotiation with a datagram size of \<open>2 ^ 63\<close> bytes or
  more makes \<open>serve\<close> allocate a buffer beyond what a \<open>Vec\<close> can hold. The panic ends the accept
  loop, in either build, and the process with it (status 101, or 134 where a panic aborts); no
  later client is served.
\<close>

theorem hostile_size_stops_server:
  assumes "speaks c x h neg port" and "mode neg = Udp" and "packet_bytes neg = Some n" and "2 ^ 63 \<le> unat n"
    and "rl_server (c_role args)"
  shows "\<exists>out s. serve_loop p c (c_format args) (Inr x # later) = ([(cn_peer x, out)], [], Some (Inl (Panic s)))
    \<and> andri_main p c args (Inr (), Inr x # later) clt = Some (if p = Debug then 101 else 134, [s])"
proof -
  obtain t0 evs where w: "sw_udp (cn_world x) = (t0, evs)" by fastforce
  obtain s where "serve_udp p neg (c_format args) t0 evs = Some (Inl (Panic s))"
    using oversized_buffer_panics [OF assms(3,4)] by blast
  then have "serve_data p (c_format args) (cn_world x) neg = Some (Inl (Panic s))"
    using assms(2) w by (simp add: serve_data_def)
  then have "\<exists>out. serve_loop p c (c_format args) (Inr x # later) = ([(cn_peer x, out)], [], Some (Inl (Panic s)))"
    using speaks_session [OF assms(1), of p "c_format args"] assms(2) by (auto simp: ss_serve_def server_env_def drain_def)
  then show ?thesis using assms(5) by (auto simp: andri_main_def serve_def exit_status_def)
qed

abbreviation server_cli :: cli where
  "server_cli \<equiv> file_cli\<lparr>c_role := \<lparr>rl_server = True, rl_client = None\<rparr>\<rparr>"

theorem hostile_size_stops_server_witness:
  "\<exists>s. andri_main Release (list_codec (session_msgs (udp_negotiate 1000 1 (2 ^ 63)) [])) server_cli
     (Inr (), [Inr (opening_conn (udp_negotiate 1000 1 (2 ^ 63)) (file_server_world [])), Inr (file_conn three_bytes)])
     (file_client_world, mem_stream []) = Some (134, [s])"
  using hostile_size_stops_server [OF opening_conn_speaks [of "file_server_world []" "udp_negotiate 1000 1 (2 ^ 63)"],
      of "2 ^ 63" server_cli Release "[Inr (file_conn three_bytes)]" "(file_client_world, mem_stream [])"] by auto

section \<open>Long sessions\<close>

text \<open>
  C25. A UDP session of more than 936 seconds loses its result: the samples alone, one for each
  second and at least 70 bytes of JSON each, exceed the cap on a message, so the server fails
  to send the result it has measured, and the client gets nothing after \<open>Start\<close>.
\<close>

theorem long_session_loses_result:
  assumes "speaks c x h neg port" and "mode neg = Udp" and "sw_udp (cn_world x) = (t0, evs)"
    and "stops evs" and "unat (packet_size neg) < 2 ^ 63" and "936 < ticks_before_stop evs"
    and "\<forall>res payload. to_vec c (Result res) = Inr payload \<longrightarrow> 70 * length (samples res) \<le> length payload"
  shows "\<exists>e st. session_of Release c fmt x = Some (Inl (Io e), st)
    \<and> outbox st = outbox (cn_ctrl x) @ frames c (answers h port)"
proof -
  obtain res ls where res: "serve_udp Release neg fmt t0 evs = Some (Inr (res, ls))"
    using serve_udp_Release [OF assms(4,5)] by (metis surj_pair)
  then have n: "936 < length (samples res)" using serve_udp_sample_count assms(6) by metis
  have lost: "\<exists>e. write_msg c stream_ops s (Result res) = (Inl e, s)" for s
  proof (cases "to_vec c (Result res)")
    case (Inr payload)
    then have "65536 < length payload" using assms(7) n by fastforce
    with snk.write_msg_oversized [OF Inr] show ?thesis by blast
  qed (simp add: write_msg_def)
  have kept: "outbox (drain c (Inr v) s) = outbox s" for v :: test_result and s
    by (simp add: drain_def read_msg_def stream_read_exact_def Let_def split: sum.splits prod.splits)
  have data: "serve_data Release fmt (cn_world x) neg = Some (Inr res)"
    using res assms(2,3) by (simp add: serve_data_def)
  let ?s = "\<lambda>rest. (cn_ctrl x)\<lparr>inbox := rest, outbox := outbox (cn_ctrl x) @ frames c (answers h port)\<rparr>"
  obtain rest where "session_of Release c fmt x
      = run_on (ss_report res) c (server_env Release fmt (cn_world x)) (drain c (Inr res) (?s rest))"
    using speaks_session_of [OF assms(1), of Release fmt] assms(2) data
    by (auto simp: ss_serve_def server_env_def)
  moreover obtain e where "write_msg c stream_ops (drain c (Inr res) (?s rest)) (Result res)
      = (Inl e, drain c (Inr res) (?s rest))" using lost by blast
  ultimately show ?thesis by (simp add: ss_report_def kept)
qed

text \<open>An example: a codec whose results take 70 bytes a sample.\<close>

definition padded_codec :: "msg list \<Rightarrow> codec" where
  "padded_codec ms =
     \<lparr>to_vec = (\<lambda>m. case m of
          Result res \<Rightarrow> Inr (replicate (70 * length (samples res)) 0)
        | _ \<Rightarrow> to_vec (list_codec ms) m),
      from_slice = from_slice (list_codec ms)\<rparr>"

lemma padded_codec_ok:
  "m \<in> set ms \<Longrightarrow> length ms \<le> 256 \<Longrightarrow> (\<forall>res. m \<noteq> Result res) \<Longrightarrow>
     decodes (padded_codec ms) m \<and> fits (padded_codec ms) m"
proof -
  assume m: "m \<in> set ms" "length ms \<le> 256" "\<forall>res. m \<noteq> Result res"
  have "to_vec (padded_codec ms) m = to_vec (list_codec ms) m"
    using m(3) by (cases m) (simp_all add: padded_codec_def)
  moreover have "from_slice (padded_codec ms) = from_slice (list_codec ms)" by (simp add: padded_codec_def)
  ultimately show ?thesis using list_codec_ok [OF m(1,2)] unfolding decodes_def fits_def by metis
qed

lemma ticks_then_stop:
  "ticks_before_stop (replicate n (TickAt t) @ [StopAt u]) = n" "stops (replicate n (TickAt t) @ [StopAt u])"
  by (induction n) simp_all

definition long_msgs :: "msg list" where
  "long_msgs = client_opening the_hello (udp_negotiate 1000000 1 1472) @ answers the_hello 4000"

abbreviation long_conn :: conn where
  "long_conn \<equiv>
     \<lparr>cn_peer = ''peer'',
      cn_ctrl = mem_stream (frames (padded_codec long_msgs) (client_opening the_hello (udp_negotiate 1000000 1 1472))),
      cn_world = \<lparr>sw_socket = (\<lambda>_. Inr ()), sw_addr = (\<lambda>_. Inr 4000), sw_tcp = ([], 0, []),
        sw_udp = (0, replicate 937 (TickAt 1) @ [StopAt 5]), sw_file = (Inr (), 0, [])\<rparr>\<rparr>"

lemma long_conn_speaks: "speaks (padded_codec long_msgs) long_conn the_hello (udp_negotiate 1000000 1 1472) 4000"
proof -
  have "decodes (padded_codec long_msgs) m \<and> fits (padded_codec long_msgs) m" if "m \<in> set long_msgs" for m
    using that by (intro padded_codec_ok) (auto simp: long_msgs_def client_opening_def answers_def)
  then show ?thesis
    by (simp add: speaks_def mem_stream_def conveyed_def long_msgs_def)
qed

theorem long_session_loses_result_witness:
  "\<exists>e st. session_of Release (padded_codec long_msgs) Mbps long_conn = Some (Inl (Io e), st)
     \<and> outbox st = frames (padded_codec long_msgs) (answers the_hello 4000)"
proof -
  have "\<exists>e st. session_of Release (padded_codec long_msgs) Mbps long_conn = Some (Inl (Io e), st)
     \<and> outbox st = outbox (cn_ctrl long_conn) @ frames (padded_codec long_msgs) (answers the_hello 4000)"
  proof (rule long_session_loses_result [OF long_conn_speaks])
    show "sw_udp (cn_world long_conn) = (0, replicate 937 (TickAt 1) @ [StopAt 5])" by simp
    show "stops (replicate 937 (TickAt 1) @ [StopAt 5])" by (rule ticks_then_stop)
    show "936 < ticks_before_stop (replicate 937 (TickAt 1) @ [StopAt 5])" unfolding ticks_then_stop by simp
    show "unat (packet_size (udp_negotiate 1000000 1 1472)) < 2 ^ 63"
      by (simp add: packet_size_def HEADER_LEN_def)
    show "\<forall>res payload. to_vec (padded_codec long_msgs) (Result res) = Inr payload
        \<longrightarrow> 70 * length (samples res) \<le> length payload" by (auto simp: padded_codec_def)
  qed simp
  then show ?thesis by (simp only: mem_stream_def conn.simps stream.simps append_Nil)
qed

end
