(* ===== verification/Program.thy ===== *)
theory Program
  imports Serving
begin

text \<open>
  The process (\<open>main.rs\<close>, \<open>andri_main\<close> of \<open>SessionClient\<close>): its exit status, what it has printed
  when it succeeds, and what makes it stop.
\<close>

section \<open>The exit status\<close>

text \<open>The server never ends successfully; the client does exactly when its session did.\<close>

lemma exit_status_0: "fst (exit_status p r) = 0 \<longleftrightarrow> r = Inr ()"
  by (cases r; cases "projl r") (auto simp: exit_status_def)

lemma serve_loop_not_ok: "snd (snd (serve_loop p c fmt cs)) \<noteq> Some (Inr ())"
proof (induction cs)
  case (Cons a cs)
  show ?case
  proof (cases a)
    case (Inr x)
    with Cons show ?thesis
      by (cases "play serve_session c (server_env p fmt (cn_world x)) (cn_ctrl x)")
         (auto simp: log_session_def case_prod_beta split: option.split sum.split fault.split)
  qed simp
qed simp

lemma server_exit_status:
  "rl_server (c_role args) \<Longrightarrow> andri_main p c args srv clt = Some y \<Longrightarrow> fst y \<noteq> 0"
  using serve_loop_not_ok [of p c "c_format args" "snd srv"]
  by (cases "fst srv") (auto simp: andri_main_def serve_def exit_status_0 simp flip: neq0_conv)

lemma client_exit_status:
  assumes "role_group (c_role args)" "rl_client (c_role args) = Some host"
  shows "map_option fst (andri_main p c args srv (cw, s)) = Some 0 \<longleftrightarrow>
    (\<exists>s'. run_on (connect args host) c (client_env p args cw) s = Some (Inr (), s'))"
proof -
  have "andri_main p c args srv (cw, s)
      = map_option (exit_status p) (map_option fst (run_on (connect args host) c (client_env p args cw) s))"
    using assms by (simp add: andri_main_def role_group_def)
  then show ?thesis
    using exit_status_0 by (cases "run_on (connect args host) c (client_env p args cw) s") auto
qed

section \<open>The standard output\<close>

text \<open>What a run of \<open>run_on\<close> does, as a trace, and what that trace prints to the standard output.\<close>

primrec trace_on :: "proc \<Rightarrow> codec \<Rightarrow> env \<Rightarrow> stream \<Rightarrow> event list" where
  "trace_on (Done x) = (\<lambda>c env s. [])"
| "trace_on (Recv k) = (\<lambda>c env s. let (r, s') = read_msg c stream_read_exact s in Received r # trace_on (k r) c env s')"
| "trace_on (Send_msg m k) = (\<lambda>c env s. let (r, s') = write_msg c stream_ops s m in Sent m r # trace_on (k r) c env s')"
| "trace_on (BindData md k) = (\<lambda>c env s. Bound md (en_bind env md) # trace_on (k (en_bind env md)) c env s)"
| "trace_on (ServeUntilStop n k) = (\<lambda>c env s. case en_serve env n of
     None \<Rightarrow> []
   | Some r \<Rightarrow> Served n (case r of Inl e \<Rightarrow> None | Inr v \<Rightarrow> Some (fst (read_msg c stream_read_exact s))) r
       # trace_on (k r) c env (drain c r s))"
| "trace_on (ServeAll n k) = (\<lambda>c env s. case en_serve env n of
     None \<Rightarrow> [] | Some r \<Rightarrow> Served n None r # trace_on (k r) c env s)"
| "trace_on (StatFile f k) = (\<lambda>c env s. Stat f (en_stat env f) # trace_on (k (en_stat env f)) c env s)"
| "trace_on (Dial h p k) = (\<lambda>c env s. Dialled h p (en_dial env h p) # trace_on (k (en_dial env h p)) c env s)"
| "trace_on (DriveData md st n k) = (\<lambda>c env s. case en_drive env md st n of
     None \<Rightarrow> [] | Some r \<Rightarrow> Driven md st n r # trace_on (k r) c env s)"
| "trace_on (ToJson res k) = (\<lambda>c env s. Encoded res (en_json env res) # trace_on (k (en_json env res)) c env s)"
| "trace_on (Print ch t P) = (\<lambda>c env s. Printed ch t # trace_on P c env s)"

lemma trace_on_steps: "run_on P c env s = Some (x, s') \<Longrightarrow> steps P (trace_on P c env s) (Done x)"
proof (induction P arbitrary: s)
  case (Recv k)
  then show ?case by (auto simp: steps_Recv split: prod.splits)
next
  case (Send_msg m k)
  then show ?case by (auto simp: steps_Send split: prod.splits)
qed (auto simp: steps_simps split: option.splits)

text \<open>
  The client prints nothing to the standard output but its report, and that last: a line made from
  a result it has received.
\<close>

definition report_line :: "cli \<Rightarrow> cli_mode \<Rightarrow> event list \<Rightarrow> string \<Rightarrow> bool" where
  "report_line args md tr line \<longleftrightarrow>
     (\<exists>res. Received (Inr (Result res)) \<in> set tr \<and>
       (if o_json (c_client_opts args) then Encoded res (Inr line) \<in> set tr else line = summary args md res))"

definition client_prints :: "cli \<Rightarrow> cli_mode \<Rightarrow> event list \<Rightarrow> proc \<Rightarrow> bool" where
  "client_prints args md tr P \<longleftrightarrow>
     (if P = Done (Inr ()) then \<exists>line. stdout tr = [line] \<and> report_line args md tr line else stdout tr = [])"

lemma client_prints_Nil: "P \<noteq> Done (Inr ()) \<Longrightarrow> client_prints args md [] P"
  by (simp add: client_prints_def)

lemma stdout_Cons: "\<forall>t. ev \<noteq> Printed Stdout t \<Longrightarrow> stdout (ev # tr) = stdout tr"
  by (simp split: event.split channel.split)

lemma report_line_Cons: "report_line args md tr line \<Longrightarrow> report_line args md (ev # tr) line"
  unfolding report_line_def by (metis list.set_intros(2))

lemma client_prints_Cons:
  "\<forall>t. ev \<noteq> Printed Stdout t \<Longrightarrow> client_prints args md tr P \<Longrightarrow> client_prints args md (ev # tr) P"
  unfolding client_prints_def using stdout_Cons report_line_Cons by (metis (no_types))

lemma other_prints: "steps (other s) tr P \<Longrightarrow> client_prints args md tr P"
  by (auto simp: other_def steps_simps client_prints_def)

text \<open>The stages of the session, from the last to the first.\<close>

lemma cs_report_prints:
  "steps (cs_report args md res) tr P \<Longrightarrow> client_prints args md (Received (Inr (Result res)) # tr) P"
  by (auto simp: cs_report_def steps_simps client_prints_def report_line_def split: if_splits)

lemma read_prints:
  assumes "steps (Recv (\<lambda>r. try_io r k)) tr P"
    and "\<And>m tr. steps (k m) tr P \<Longrightarrow> client_prints args md tr P \<or> client_prints args md (Received (Inr m) # tr) P"
  shows "client_prints args md tr P"
proof -
  consider "tr = []" "P \<noteq> Done (Inr ())" | e where "tr = [Received (Inl e)]" "P = Done (Inl (Io e))"
    | m tr' where "tr = Received (Inr m) # tr'" "steps (k m) tr' P"
    using assms(1) by (auto simp: steps_simps)
  then show ?thesis
  proof cases
    case 3
    have "client_prints args md (Received (Inr m) # tr') P"
      using assms(2) [OF 3(2)] by (auto intro: client_prints_Cons)
    with 3(1) show ?thesis by simp
  qed (auto simp: client_prints_Nil intro!: client_prints_Cons)
qed

lemma cs_result_prints: "steps (cs_result args md) tr P \<Longrightarrow> client_prints args md tr P"
  unfolding cs_result_def by (erule read_prints) (auto split: msg.splits dest: other_prints cs_report_prints)

lemma cs_drive_prints: "steps (cs_drive args md neg st) tr P \<Longrightarrow> client_prints args md tr P"
  by (auto simp: cs_drive_def steps_simps client_prints_Nil intro!: client_prints_Cons dest: cs_result_prints)

lemma cs_started_prints: "steps (cs_started args md neg st) tr P \<Longrightarrow> client_prints args md tr P"
  by (auto simp: cs_started_def steps_simps client_prints_Nil split: if_splits
      intro!: client_prints_Cons dest: cs_drive_prints)

lemma cs_negotiate_prints: "steps (cs_negotiate args md neg) tr P \<Longrightarrow> client_prints args md tr P"
  unfolding cs_negotiate_def
  by (auto simp: steps_Send steps_try_io client_prints_Nil intro!: client_prints_Cons)
     (erule read_prints, auto split: msg.splits dest: other_prints cs_started_prints)

lemma cs_hello_prints: "steps (cs_hello args md len) tr P \<Longrightarrow> client_prints args md tr P"
  unfolding cs_hello_def
  by (auto simp: steps_Send steps_try_io client_prints_Nil intro!: client_prints_Cons)
     (erule read_prints, auto split: msg.splits if_splits dest: other_prints cs_negotiate_prints)

lemma print_lines_prints:
  "steps (print_lines Stderr ls K) tr P \<Longrightarrow> (\<And>tr. steps K tr P \<Longrightarrow> client_prints args md tr P)
     \<Longrightarrow> client_prints args md tr P"
  by (induction ls arbitrary: tr) (auto simp: steps_simps client_prints_Nil intro!: client_prints_Cons)

lemma cs_dial_prints: "steps (cs_dial args host md len) tr P \<Longrightarrow> client_prints args md tr P"
  unfolding cs_dial_def
  by (erule print_lines_prints)
     (auto simp: steps_simps client_prints_Nil intro!: client_prints_Cons dest: cs_hello_prints)

lemma connect_prints:
  assumes "steps (connect args host) tr P"
  shows "case selected (o_mode (c_client_opts args)) of
      None \<Rightarrow> P \<noteq> Done (Inr ()) \<and> stdout tr = [] | Some md \<Rightarrow> client_prints args md tr P"
  using assms
  by (auto simp: connect_def Let_def steps_simps client_prints_Nil other_def split: option.splits if_splits
      intro!: client_prints_Cons dest: cs_dial_prints)

section \<open>A server that answers\<close>

text \<open>
  The client on the bytes of its connection: a server that answers in order, whatever follows.
\<close>

definition client_ready :: "env \<Rightarrow> cli \<Rightarrow> string \<Rightarrow> cli_mode \<Rightarrow> u64 option \<Rightarrow> bool" where
  "client_ready env args host md len \<longleftrightarrow>
     selected (o_mode (c_client_opts args)) = Some md \<and> (md = UdpMode \<longrightarrow> o_bitrate (c_client_opts args) \<noteq> None) \<and>
     (if md = FileMode then \<exists>path n. mf_file (o_mode (c_client_opts args)) = Some path \<and> en_stat env path = Inr n \<and> len = Some n
      else len = None) \<and> en_dial env host (c_port args) = Inr ()"

definition server_script :: "welcome_body \<Rightarrow> start \<Rightarrow> test_result \<Rightarrow> msg list" where
  "server_script w st res = [Welcome w, Start st, Result res]"

definition client_script :: "negotiate \<Rightarrow> msg list" where
  "client_script neg = [Hello the_hello, Negotiate neg, Run, Stop]"

lemma print_lines_run [simp]: "run_on (print_lines ch ls P) c env s = run_on P c env s"
  by (induction ls) simp_all

lemma connect_dials:
  assumes "client_ready env args host md len"
  shows "run_on (connect args host) c env s = run_on (cs_hello args md len) c env s"
  using assms by (cases md) (auto simp: client_ready_def connect_def cs_dial_def split: if_splits)

lemma cs_started_run:
  assumes "buffer_bytes neg = WRITE_BUF"
  shows "run_on (cs_started args md neg st) c env s = run_on (cs_drive args md neg st) c env s"
proof -
  obtain bs where "payload_sample st (buffer_bytes neg) = Inr bs" using payload_sample_ok assms by metis
  then show ?thesis by (simp add: cs_started_def)
qed

lemma cs_report_run:
  "(o_json (c_client_opts args) \<Longrightarrow> \<exists>t. en_json env res = Inr t) \<Longrightarrow>
     run_on (cs_report args md res) c env s = Some (Inr (), s)"
  by (auto simp: cs_report_def)

lemma connect_bytes:
  assumes "client_ready env args host md len" and "neg = request (c_client_opts args) md len"
    and "inbox s = frames c (server_script w st res) @ rest" and "room s = None"
    and "conveyed c (server_script w st res)" and "\<forall>m\<in>set (client_script neg). fits c m"
    and "w_accepted w" and "w_nonce w = NONCE"
    and "en_drive env md st neg = Some (Inr ())"
    and "o_json (c_client_opts args) \<Longrightarrow> \<exists>t. en_json env res = Inr t"
  shows "run_on (connect args host) c env s
    = Some (Inr (), s\<lparr>inbox := rest, outbox := outbox s @ frames c (client_script neg)\<rparr>)"
proof -
  have ms: "decodes c m" "fits c m" if "m \<in> set (server_script w st res)" for m
    using assms(5) that by (simp_all add: conveyed_def)
  have reads: "read_msg c stream_read_exact (s\<lparr>inbox := frames c (server_script w st res) @ rest, outbox := x\<rparr>)
      = (Inr (Welcome w), s\<lparr>inbox := frames c [Start st, Result res] @ rest, outbox := x\<rparr>)"
    "read_msg c stream_read_exact (s\<lparr>inbox := frames c [Start st, Result res] @ rest, outbox := x\<rparr>)
      = (Inr (Start st), s\<lparr>inbox := frames c [Result res] @ rest, outbox := x\<rparr>)"
    "read_msg c stream_read_exact (s\<lparr>inbox := frames c [Result res] @ rest, outbox := x\<rparr>)
      = (Inr (Result res), s\<lparr>inbox := rest, outbox := x\<rparr>)" for x
    by (subst read_msg_stream [OF ms(1) ms(2)]; cases s; simp add: server_script_def frames_def)+
  have s: "s = s\<lparr>inbox := frames c (server_script w st res) @ rest, outbox := outbox s\<rparr>"
    using assms(3) by (cases s) simp
  have b: "buffer_bytes neg = WRITE_BUF" by (simp add: assms(2) request_def)
  have w: "write_msg c stream_ops (s\<lparr>inbox := i, outbox := x\<rparr>) m
      = (Inr (), s\<lparr>inbox := i, outbox := x @ frame_of c m\<rparr>)" if "m \<in> set (client_script neg)" for i x m
    using write_msg_stream [of c m "s\<lparr>inbox := i, outbox := x\<rparr>"] assms(4,6) that by simp
  have "run_on (cs_hello args md len) c env (s\<lparr>inbox := frames c (server_script w st res) @ rest, outbox := x\<rparr>)
      = Some (Inr (), s\<lparr>inbox := rest, outbox := x @ frames c (client_script neg)\<rparr>)" for x
    using assms(7,8)
    by (simp add: cs_hello_def w client_script_def reads cs_negotiate_def cs_started_run [OF b] cs_drive_def
        assms(9) cs_result_def cs_report_run [OF assms(10)] flip: the_hello_def assms(2)) (simp add: frames_def)
  from this [of "outbox s"] show ?thesis
    unfolding connect_dials [OF assms(1)] by (subst (asm) s [symmetric])
qed

section \<open>Properties\<close>

text \<open>
  C9. The standard output of the process is its report. A client's process exits with status 0
  exactly when it has printed one line there, and that line is the summary, or under \<open>--json\<close> the
  encoding, of a result that its server sent; with any other status it has printed nothing there,
  whatever the server, the connection and the data path did. A server never exits with status 0.
\<close>

theorem stdout_is_report:
  assumes "role_group (c_role args)" and "andri_main p c args srv (cw, s) = Some (status, ls)"
  shows "case rl_client (c_role args) of
      None \<Rightarrow> status \<noteq> 0
    | Some host \<Rightarrow>
        let tr = trace_on (connect args host) c (client_env p args cw) s
        in if status = 0
           then \<exists>md line. selected (o_mode (c_client_opts args)) = Some md \<and> stdout tr = [line] \<and> report_line args md tr line
           else stdout tr = []"
proof (cases "rl_client (c_role args)")
  case None
  then have "rl_server (c_role args)" using assms(1) by (simp add: role_group_def)
  from server_exit_status [OF this assms(2)] None show ?thesis by simp
next
  case (Some host)
  let ?P = "connect args host" and ?E = "client_env p args cw"
  obtain r s' where r: "run_on ?P c ?E s = Some (r, s')" "exit_status p r = (status, ls)"
    using assms Some by (auto simp: andri_main_def role_group_def)
  have z: "status = 0 \<longleftrightarrow> r = Inr ()" using exit_status_0 [of p r] r(2) by simp
  from connect_prints [OF trace_on_steps [OF r(1)]] Some z show ?thesis
    by (auto simp: client_prints_def Let_def split: option.splits if_splits)
qed

text \<open>
  C24. A client whose server answers, and whose own part goes well, succeeds. Its own part: it is
  run as a client, its options select a mode (with a bitrate for UDP, with a file whose length can be read for a file), the
  connection opens and stays writable, its four messages can be encoded within the cap, its data path
  returns \<open>Ok\<close>, and under \<open>--json\<close> the result can be encoded. Then for any server that accepts it,
  starts the data phase and sends a result that get through, in whatever words, the client writes its
  four messages in their order and nothing else, and its process exits with status 0, without an error
  line.
\<close>

theorem answered_client_succeeds:
  assumes "role_group (c_role args)" and "rl_client (c_role args) = Some host"
    and "client_ready (client_env p args cw) args host md len" and "neg = request (c_client_opts args) md len"
    and "inbox s = frames c (server_script w st res) @ rest" and "room s = None"
    and "conveyed c (server_script w st res)" and "\<forall>m\<in>set (client_script neg). fits c m"
    and "w_accepted w" and "w_nonce w = NONCE" and "drive_data p args cw md st neg = Some (Inr ())"
    and "o_json (c_client_opts args) \<Longrightarrow> \<exists>t. cw_json cw res = Inr t"
  shows "run_on (connect args host) c (client_env p args cw) s
      = Some (Inr (), s\<lparr>inbox := rest, outbox := outbox s @ frames c (client_script neg)\<rparr>)
    \<and> andri_main p c args srv (cw, s) = Some (0, [])"
proof -
  have "run_on (connect args host) c (client_env p args cw) s
      = Some (Inr (), s\<lparr>inbox := rest, outbox := outbox s @ frames c (client_script neg)\<rparr>)"
    using assms(11,12) by (intro connect_bytes [OF assms(3-8) assms(9,10)]) (simp_all add: client_env_def)
  with assms(1,2) show ?thesis by (simp add: andri_main_def role_group_def exit_status_def)
qed

text \<open>A run of the client against a server of another version.\<close>

definition other_welcome :: welcome_body where
  "other_welcome = \<lparr>w_protocol_version = 2, w_server_version = ''9'', w_nonce = NONCE, w_accepted = True\<rparr>"

lemma other_welcome_accepts [simp]: "w_accepted other_welcome" "w_nonce other_welcome = NONCE"
  by (simp_all add: other_welcome_def)

definition other_result :: test_result where
  "other_result =
     \<lparr>role = Receive, r_bytes = 3, r_duration_secs = Fin 1, r_bits_per_sec = Fin 24, r_bytes_per_sec = Fin 3,
      packets_expected = None, packets_received = None, packets_lost = None, loss_ratio = None, jitter_ms = None,
      samples = []\<rparr>"

abbreviation other_server :: "msg list" where
  "other_server \<equiv> server_script other_welcome (the_start 4000) other_result"

abbreviation other_codec :: codec where
  "other_codec \<equiv> list_codec (other_server @ client_script (file_negotiate 3))"

lemma other_codec_ok:
  "conveyed other_codec other_server" "\<forall>m\<in>set (client_script (file_negotiate 3)). fits other_codec m"
proof -
  have "length (other_server @ client_script (file_negotiate 3)) \<le> 256"
    by (simp add: server_script_def client_script_def)
  then show "conveyed other_codec other_server" "\<forall>m\<in>set (client_script (file_negotiate 3)). fits other_codec m"
    using list_codec_ok by (simp_all add: conveyed_def)
qed

lemma file_client_ready:
  "client_ready (client_env p file_cli file_client_world) file_cli ''host'' FileMode (Some 3)"
  by (simp add: client_ready_def client_env_def selected_def file_size_def)

theorem answered_client_succeeds_witness:
  "run_on (connect file_cli ''host'') other_codec (client_env Release file_cli file_client_world)
      (mem_stream (frames other_codec other_server))
     = Some (Inr (), (mem_stream [])\<lparr>outbox := frames other_codec (client_script (file_negotiate 3))\<rparr>)
   \<and> andri_main Release other_codec file_cli (Inr (), []) (file_client_world, mem_stream (frames other_codec other_server))
     = Some (0, [])"
  using answered_client_succeeds [OF _ _ file_client_ready request_file [symmetric] _ _
      other_codec_ok(1) other_codec_ok(2) _ _ three_bytes_sent,
      of "mem_stream (frames other_codec other_server)" "[]" "(Inr (), [])"]
  by (simp add: role_group_def mem_stream_def)

theorem stdout_is_report_witness:
  "\<exists>md line. selected (o_mode (c_client_opts file_cli)) = Some md \<and> stdout (trace_on (connect file_cli ''host'')
       other_codec (client_env Release file_cli file_client_world) (mem_stream (frames other_codec other_server))) = [line]
     \<and> report_line file_cli md (trace_on (connect file_cli ''host'') other_codec
         (client_env Release file_cli file_client_world) (mem_stream (frames other_codec other_server))) line"
proof -
  let ?s = "mem_stream (frames other_codec other_server)"
  have "run_on (connect file_cli ''host'') other_codec (client_env Release file_cli file_client_world) ?s
      = Some (Inr (), ?s\<lparr>inbox := [], outbox := outbox ?s @ frames other_codec (client_script (file_negotiate 3))\<rparr>)"
  proof (rule connect_bytes [OF file_client_ready request_file [symmetric] _ _ other_codec_ok])
    show "en_drive (client_env Release file_cli file_client_world) FileMode (the_start 4000) (file_negotiate 3)
        = Some (Inr ())" using three_bytes_sent by (simp only: client_env_def env.simps)
  qed (simp_all add: mem_stream_def client_env_def)
  then have "andri_main Release other_codec file_cli (Inr (), [])
      (file_client_world, mem_stream (frames other_codec other_server)) = Some (0, [])"
    by (simp add: andri_main_def exit_status_def)
  from stdout_is_report [OF _ this] show ?thesis by (simp add: role_group_def Let_def)
qed

end
