(* ===== verification/EndToEnd.thy ===== *)
theory EndToEnd
  imports Session Udp Tcp FileTransfer
begin

text \<open>
  Whole tests: the session of \<open>Session\<close> with the two data paths of \<open>Udp\<close>, \<open>Tcp\<close> and
  \<open>FileTransfer\<close> and a network between them. Each property relates what the client prints to what
  it sent.
\<close>

lemmas path_simps = serve_data_def drive_data_def request_def result_of

section \<open>UDP\<close>

text \<open>
  C2. The loss a UDP client prints is real. Assume that the session succeeds in all that is not the
  network between the data paths: the server binds its port, the client's \<open>drive\<close> returns \<open>Ok\<close>, the
  server's \<open>serve\<close> reads \<open>Stop\<close> and returns a result, which like the messages before it can be
  encoded within the 64 KiB of the cap (and under \<open>--json\<close> be printed); both are release builds, datagrams have less than
  \<open>2^63\<close> bytes and fewer than \<open>2^64\<close> are sent. If the network loses, delays and reorders datagrams but
  does not duplicate them, then every schedule ends with the client printing that result, and its
  loss is at most the number of datagrams that did not arrive.
\<close>

theorem udp_session_loss:
  assumes "set_up c neg" and "neg = request (c_client_opts args) UdpMode None"
    and "sw_bind sw Udp = Inr port" and "conveyed c [Start (the_start port), Result res]"
    and "cw_udp cw = (bind_r, connect_r, its)" and "sw_udp sw = (t0, evs)"
    and "drive_udp Release bind_r connect_r (the_start port) neg (c_format args) (o_json (c_client_opts args)) its
           = Some (sent, ls, Inr ())"
    and "stops evs" and "serve_data Release fmt sw neg = Some (Inr res)"
    and "mset (map fst (delivered evs)) \<subseteq># mset sent"
    and "length sent < 2 ^ 64" and "unat (packet_size neg) < 2 ^ 63"
    and "o_json (c_client_opts args) \<Longrightarrow> cw_json cw res = Inr js"
  shows "all_lead (with_codec c (client_env Release args cw)) (with_codec c (server_env Release fmt sw))
           (connected_pair args UdpMode None) (delivered_all args UdpMode neg port res js)
    \<and> (\<exists>l. packets_lost res = Some l \<and> unat l \<le> length sent - length (delivered evs))"
proof
  have m: "mode neg = Udp" by (simp add: assms(2) request_def)
  show "all_lead (with_codec c (client_env Release args cw)) (with_codec c (server_env Release fmt sw))
      (connected_pair args UdpMode None) (delivered_all args UdpMode neg port res js)"
    using assms(3-5,7,13) m by (intro session_delivers [OF assms(1,2) _ assms(4) _ assms(9)]) (simp_all add: path_simps)
  from udp_loss_never_overstated [OF assms(7,11,12,8,10), of fmt t0] assms(6,9) m
  show "\<exists>l. packets_lost res = Some l \<and> unat l \<le> length sent - length (delivered evs)"
    by (auto simp: path_simps)
qed

text \<open>A client at a gigabit per second, for an example.\<close>

abbreviation gigabit_cli :: cli where
  "gigabit_cli \<equiv> file_cli\<lparr>c_client_opts := (c_client_opts file_cli)
     \<lparr>o_mode := \<lparr>mf_tcp = False, mf_udp = True, mf_file = None\<rparr>, o_duration := 1, o_bitrate := Some 1000000000\<rparr>\<rparr>"

abbreviation two_seconds :: "udp_iteration list" where
  "two_seconds \<equiv>
     [\<lparr>it_guard = 0, it_sends = (\<lambda>i. (7, None)), it_report = 9\<rparr>,
      \<lparr>it_guard = 2000000000, it_sends = (\<lambda>i. (8, None)), it_report = 0\<rparr>]"

abbreviation all_but_one :: "bytes list \<Rightarrow> udp_event list" where
  "all_but_one sent \<equiv> map (\<lambda>d. Datagram d 5 6) (tl (rev sent)) @ [StopAt 2000000000]"

definition udp_request :: negotiate where
  "udp_request = request (c_client_opts gigabit_cli) UdpMode None"

lemma udp_request_window: "send_window Release udp_request = 2000000000" "unat (packet_size udp_request) < 2 ^ 63"
  by (simp_all add: udp_request_def request_def send_window_def WARMUP_SECS_def chk_simps from_secs_def
      packet_size_def HEADER_LEN_def)

theorem udp_session_loss_witness:
  "\<exists>sent res l. all_lead
       (with_codec (list_codec (session_msgs udp_request [res]))
         (client_env Release gigabit_cli (file_client_world\<lparr>cw_udp := (Inr (), Inr (), two_seconds)\<rparr>)))
       (with_codec (list_codec (session_msgs udp_request [res]))
         (server_env Release Mbps (file_server_world []\<lparr>sw_udp := (0, all_but_one sent)\<rparr>)))
       (connected_pair gigabit_cli UdpMode None) (delivered_all gigabit_cli UdpMode udp_request 4000 res ''{}'')
     \<and> packets_lost res = Some l \<and> unat l \<le> 1"
proof -
  obtain sent ls where d: "drive_udp Release (Inr ()) (Inr ()) (the_start 4000) udp_request Mbps True two_seconds
      = Some (sent, ls, Inr ())"
    using drive_udp_completes [of two_seconds udp_request "the_start 4000" Mbps True] udp_request_window
    by (auto simp: quiet_net_def)
  have n: "length sent < 2 ^ 64" by (rule one_tick_sent [OF d]) (simp add: iterations_def udp_request_window)
  have dl: "delivered (map (\<lambda>d. Datagram d 5 6) xs @ [StopAt 2000000000]) = map (\<lambda>d. (d, 5)) xs"
    and st: "stops (map (\<lambda>d. Datagram d 5 6) xs @ [StopAt 2000000000])" for xs by (induction xs) simp_all
  have "mset (tl (rev sent)) \<subseteq># mset (rev sent)" by (cases "rev sent") simp_all
  then have sub: "mset (map fst (delivered (all_but_one sent))) \<subseteq># mset sent" unfolding dl by (simp add: comp_def)
  have len: "length sent - length (delivered (all_but_one sent)) \<le> 1" unfolding dl by simp
  have m: "mode udp_request = Udp" by (simp add: udp_request_def request_def)
  obtain res where res: "serve_data Release Mbps (file_server_world []\<lparr>sw_udp := (0, all_but_one sent)\<rparr>) udp_request
      = Some (Inr res)"
    using udp_loss_never_overstated [OF d n udp_request_window(2) st sub, of Mbps 0] m by (auto simp: serve_data_def)
  note M = session_msgs_conveyed [of "[res]" udp_request]
  have "conveyed (list_codec (session_msgs udp_request [res])) [Start (the_start 4000), Result res]" using M(2) by simp
  from udp_session_loss [OF M(1) udp_request_def _ this _ _ _ st res sub n udp_request_window(2),
      of "file_client_world\<lparr>cw_udp := (Inr (), Inr (), two_seconds)\<rparr>" "Inr ()" "Inr ()" two_seconds 0 ls "''{}''"] d
  obtain l where l: "all_lead
       (with_codec (list_codec (session_msgs udp_request [res]))
         (client_env Release gigabit_cli (file_client_world\<lparr>cw_udp := (Inr (), Inr (), two_seconds)\<rparr>)))
       (with_codec (list_codec (session_msgs udp_request [res]))
         (server_env Release Mbps (file_server_world []\<lparr>sw_udp := (0, all_but_one sent)\<rparr>)))
       (connected_pair gigabit_cli UdpMode None) (delivered_all gigabit_cli UdpMode udp_request 4000 res ''{}'')"
    "packets_lost res = Some l" "unat l \<le> length sent - length (delivered (all_but_one sent))" by auto
  with len show ?thesis by (meson order_trans)
qed

section \<open>TCP\<close>

text \<open>
  C4. A TCP client never prints more than it sent. Assume that the session succeeds in all that is not
  the network between the data paths: the server binds its port, the client's \<open>drive\<close> returns \<open>Ok\<close>
  (which it also does when writes fail, even part-way), the server's \<open>serve\<close> returns a result, which
  like the messages before it can be encoded within the cap (and under \<open>--json\<close> be printed); the
  server is a release build and fewer than \<open>2^64\<close> bytes are sent. If the network delivers, of each of
  the streams, a part from its beginning, then every schedule ends with the client printing that
  result, and its bytes are at most those that its streams have put on the network, the part of a
  failed write included.
\<close>

theorem tcp_session_bytes:
  assumes "set_up c neg" and "neg = request (c_client_opts args) TcpMode None"
    and "sw_bind sw Tcp = Inr port" and "conveyed c [Start (the_start port), Result res]"
    and "cw_tcp cw = (conns, t0, runs, readings)" and "sw_tcp sw = (accepts, since, evs)"
    and "drive_tcp p conns (the_start port) neg (c_format args) (o_json (c_client_opts args)) t0 runs readings
           = Some (Inr (), ls, carried)"
    and "serve_data Release fmt sw neg = Some (Inr res)"
    and "tcp_network carried evs" and "sum_list (map length carried) < 2 ^ 64"
    and "o_json (c_client_opts args) \<Longrightarrow> cw_json cw res = Inr js"
  shows "all_lead (with_codec c (client_env p args cw)) (with_codec c (server_env Release fmt sw))
           (connected_pair args TcpMode None) (delivered_all args TcpMode neg port res js)
    \<and> unat (r_bytes res) \<le> sum_list (map length carried)"
proof
  have m: "mode neg = Tcp" by (simp add: assms(2) request_def)
  show "all_lead (with_codec c (client_env p args cw)) (with_codec c (server_env Release fmt sw))
      (connected_pair args TcpMode None) (delivered_all args TcpMode neg port res js)"
    using assms(3-5,7,11) m by (intro session_delivers [OF assms(1,2) _ assms(4) _ assms(8)]) (simp_all add: path_simps)
  obtain rls where "serve_tcp Release neg fmt accepts since evs = Some (Inr (res, rls))"
    using assms(6,8) m by (auto simp: path_simps)
  from tcp_counted [OF assms(7) this assms(9,10)] show "unat (r_bytes res) \<le> sum_list (map length carried)" .
qed

text \<open>A client of one stream, which writes its buffer once, for an example.\<close>

abbreviation tcp_cli :: cli where
  "tcp_cli \<equiv> file_cli\<lparr>c_client_opts := (c_client_opts file_cli)
     \<lparr>o_mode := \<lparr>mf_tcp = True, mf_udp = False, mf_file = None\<rparr>, o_duration := 1\<rparr>\<rparr>"

definition tcp_request :: negotiate where
  "tcp_request = request (c_client_opts tcp_cli) TcpMode None"

lemma tcp_request_simps: "mode tcp_request = Tcp" "unat (parallel tcp_request) = 1" "duration_secs tcp_request = 1"
  "warmup_secs tcp_request = 1" "buffer_bytes tcp_request = 65536"
  by (simp_all add: tcp_request_def request_def WARMUP_SECS_def WRITE_BUF_def)

abbreviation one_write :: client_world where
  "one_write \<equiv> file_client_world\<lparr>cw_tcp := ([(Inr (), Inr ())], 0, [(Inr (), [(0, Inr ()), (2000000000, Inr ())])], [], [])\<rparr>"

lemma one_write_sent:
  "\<exists>ls carried. drive_tcp Release [(Inr (), Inr ())] (the_start 4000) tcp_request Mbps True 0
     [(Inr (), [(0, Inr ()), (2000000000, Inr ())])] ([], []) = Some (Inr (), ls, carried)
   \<and> length carried = 1 \<and> length (carried ! 0) = 65536"
  by (simp add: drive_tcp_def tcp_request_simps chk_simps from_secs_def instant_add_def send_task_def zeroed_vec_def
      carried_by_def task_panics_def)

abbreviation part_read :: "bytes list \<Rightarrow> tcp_event list" where
  "part_read carried \<equiv> [SamplerStarts, WarmupEnds 1000000000, ReadOn 0 (Inr (take 100 (carried ! 0))),
     StopRead 2000000000, SamplerTick 2000000000]"

theorem tcp_session_bytes_witness:
  "\<exists>carried res. all_lead
       (with_codec (list_codec (session_msgs tcp_request [res])) (client_env Release tcp_cli one_write))
       (with_codec (list_codec (session_msgs tcp_request [res]))
         (server_env Release Mbps (file_server_world []\<lparr>sw_tcp := ([Inr ()], 0, part_read carried)\<rparr>)))
       (connected_pair tcp_cli TcpMode None) (delivered_all tcp_cli TcpMode tcp_request 4000 res ''{}'')
     \<and> unat (r_bytes res) \<le> 65536"
proof -
  obtain ls carried where d: "drive_tcp Release [(Inr (), Inr ())] (the_start 4000) tcp_request Mbps True 0
      [(Inr (), [(0, Inr ()), (2000000000, Inr ())])] ([], []) = Some (Inr (), ls, carried)"
    and len: "length carried = 1" "length (carried ! 0) = 65536" using one_write_sent by blast
  have sum: "sum_list (map length carried) = 65536" using len by (cases carried) simp_all
  have net: "tcp_network carried (part_read carried)"
    using len unfolding tcp_network_def
    by (auto simp: READ_BUF_def intro: exI [of _ "drop 100 (carried ! 0)"])
  have "\<exists>r ls. serve_tcp Release tcp_request Mbps [Inr ()] 0 (part_read carried) = Some (Inr (r, ls))"
    by (rule serve_tcp_ends [where xs = "[]" and ys = "tl (part_read carried)" and now = 2000000000 and tw = 1000000000 and ts = 2000000000])
      (simp_all add: tcp_request_simps from_secs_def duration_since_def)
  then obtain res where res: "serve_data Release Mbps (file_server_world []\<lparr>sw_tcp := ([Inr ()], 0, part_read carried)\<rparr>)
      tcp_request = Some (Inr res)" by (auto simp: serve_data_def tcp_request_simps)
  note M = session_msgs_conveyed [of "[res]" tcp_request]
  have "conveyed (list_codec (session_msgs tcp_request [res])) [Start (the_start 4000), Result res]" using M(2) by simp
  from tcp_session_bytes [where cw = one_write and accepts = "[Inr ()]" and since = 0 and js = "''{}''",
      OF M(1) tcp_request_def _ this _ _ _ res net] d sum
  have "all_lead
       (with_codec (list_codec (session_msgs tcp_request [res])) (client_env Release tcp_cli one_write))
       (with_codec (list_codec (session_msgs tcp_request [res]))
         (server_env Release Mbps (file_server_world []\<lparr>sw_tcp := ([Inr ()], 0, part_read carried)\<rparr>)))
       (connected_pair tcp_cli TcpMode None) (delivered_all tcp_cli TcpMode tcp_request 4000 res ''{}'')
     \<and> unat (r_bytes res) \<le> sum_list (map length carried)" by simp
  with sum show ?thesis by metis
qed

section \<open>File\<close>

text \<open>
  C3. A file transfer is complete: when the network delivers a part of the stream, from its
  beginning, every schedule that ends with a result for the client ends with the server having
  read exactly the announced number of bytes, and these are the first of the file, as the client's
  reads delivered it; the result counts them all.
\<close>

theorem file_session_complete:
  assumes "set_up c neg" and "neg = request (c_client_opts args) FileMode (Some n)"
    and "sw_bind sw File = Inr port" and "conveyed c [Start (the_start port), Result res]"
    and "sw_file sw = (accepted, t0, evs)" and "\<not> o_null_source (c_client_opts args)"
    and "drive_file p (cw_file cw) (the_start port) neg (mf_file (o_mode (c_client_opts args))) False
           (c_format args) (o_json (c_client_opts args)) = Some (sent, ls, Inr ())"
    and "serve_data q fmt sw neg = Some (Inr res)"
    and "file_network sent (unat n) evs" and "unat n + BUF < 2 ^ 64"
    and "o_json (c_client_opts args) \<Longrightarrow> cw_json cw res = Inr js"
  shows "all_lead (with_codec c (client_env p args cw)) (with_codec c (server_env q fmt sw))
           (connected_pair args FileMode (Some n)) (delivered_all args FileMode neg port res js)
    \<and> r_bytes res = n \<and> length (file_reads (unat n) 0 evs) = unat n
    \<and> file_reads (unat n) 0 evs = take (unat n) (concat (map piece (fe_disk (cw_file cw))))"
proof
  have m: "mode neg = File" "file_expected neg = n" by (simp_all add: assms(2) request_def file_expected_def)
  show "all_lead (with_codec c (client_env p args cw)) (with_codec c (server_env q fmt sw))
      (connected_pair args FileMode (Some n)) (delivered_all args FileMode neg port res js)"
    using assms(3,4,6,7,11) m by (intro session_delivers [OF assms(1,2) _ assms(4) _ assms(8)]) (simp_all add: path_simps)
  obtain rls where "serve_file q neg fmt accepted t0 evs = Some (Inr (res, rls))"
    using assms(5,8) m by (auto simp: path_simps)
  from file_transferred [OF this] assms(9) m(2)
  have T: "file_reads (unat n) 0 evs = take (unat n) sent" "unat n \<le> length sent" "r_bytes res = n" by simp_all
  obtain rest where "concat (map piece (fe_disk (cw_file cw))) = sent @ rest"
    using drive_file_prefix [OF assms(7)] assms(10) m(2) by auto
  with T show "r_bytes res = n \<and> length (file_reads (unat n) 0 evs) = unat n
    \<and> file_reads (unat n) 0 evs = take (unat n) (concat (map piece (fe_disk (cw_file cw))))" by simp
qed

theorem file_session_complete_witness:
  "\<exists>res. all_lead (with_codec (list_codec (file_msgs [res])) (client_env Release file_cli file_client_world))
       (with_codec (list_codec (file_msgs [res])) (server_env Release Mbps (file_server_world three_bytes)))
       (connected_pair file_cli FileMode (Some 3)) (delivered_all file_cli FileMode (file_negotiate 3) 4000 res ''{}'')
     \<and> r_bytes res = 3 \<and> file_reads 3 0 three_bytes = [1, 2, 3]"
proof -
  obtain res where res: "serve_data Release Mbps (file_server_world three_bytes) (file_negotiate 3) = Some (Inr res)"
    using three_bytes_served by blast
  obtain ls where d: "drive_file Release two_writes (the_start 4000) (file_negotiate 3) (Some ''f'') False Mbps True
      = Some ([1, 2, 3], ls, Inr ())"
    by (simp add: drive_file_def file_expected_def file_tx_init_def disk_loop.simps
        file_advance_def file_report_def file_finish_def chk_simps BUF_def)
  have reads: "file_reads 3 0 three_bytes = [1, 2, 3]" by (simp add: BUF_def)
  have "conveyed (list_codec (file_msgs [res])) [Start (the_start 4000), Result res]"
    using file_msgs_conveyed(2) [of "[res]"] by simp
  from file_session_complete [OF file_msgs_conveyed(1) request_file [symmetric] _ this _ _ _ res,
      of "Inr ()" 0 three_bytes Release file_client_world "[1, 2, 3]" ls "''{}''"] d reads
  have "all_lead (with_codec (list_codec (file_msgs [res])) (client_env Release file_cli file_client_world))
       (with_codec (list_codec (file_msgs [res])) (server_env Release Mbps (file_server_world three_bytes)))
       (connected_pair file_cli FileMode (Some 3)) (delivered_all file_cli FileMode (file_negotiate 3) 4000 res ''{}'')
     \<and> r_bytes res = 3" by (simp add: file_network_def BUF_def)
  with reads show ?thesis by blast
qed

end
