(* ===== verification/Unit_Tests.thy ===== *)
theory Unit_Tests
  imports UdpServer UdpClient
begin

text \<open>
  Unit tests of the repository (of the modules \<open>tests\<close> of \<open>cli.rs\<close>, \<open>meter.rs\<close>, \<open>proto.rs\<close> and
  \<open>modes/udp.rs\<close>), each as a proposition about the model: a check of the definitions against what the
  authors expect of the code, and no more than that. \<open>cargo test\<close> is a debug build. Left out are the
  tests of what is not modelled (\<open>cli_definition_is_valid\<close> of the \<open>clap\<close> parser, \<open>enum_wire_tokens\<close> of
  \<open>serde_json\<close>, those of \<open>modes/file.rs\<close>, which are about the file system), \<open>fill_random_is_deterministic\<close>,
  which says nothing of a function, and \<open>fill_random_is_high_entropy\<close>, which takes too long to evaluate.
\<close>

section \<open>Assertions\<close>

definition contains :: "string \<Rightarrow> string \<Rightarrow> bool" where
  "contains t s \<longleftrightarrow> list_ex (\<lambda>i. take (length t) (drop i s) = t) [0..<Suc (length s)]"

definition is_ascii_hexdigit :: "char \<Rightarrow> bool" where
  "is_ascii_hexdigit ch \<longleftrightarrow> ch \<in> set ''0123456789abcdefABCDEF''"

definition is_err :: "'e + 'a \<Rightarrow> bool" where
  "is_err r \<longleftrightarrow> (case r of Inl e \<Rightarrow> True | Inr x \<Rightarrow> False)"

text \<open>The method \<open>abs\<close>.\<close>

definition fabs :: "f64 \<Rightarrow> f64" where
  "fabs x = (if is_neg x then fneg x else x)"

section \<open>\<open>cli.rs\<close>\<close>

definition format_render_units :: bool where
  "format_render_units \<longleftrightarrow>
     (let one_gbit = round64 1000000000
      in render Bits one_gbit = ''1000000000 bit/s''
         \<and> render Bytes one_gbit = ''125000000 byte/s''
         \<and> render Mbps one_gbit = ''1000.00 Mbps''
         \<and> render Gbps one_gbit = ''1.00 Gbps'')"

definition mode_flags_selected :: bool where
  "mode_flags_selected \<longleftrightarrow>
     selected \<lparr>mf_tcp = False, mf_udp = False, mf_file = None\<rparr> = None
     \<and> selected \<lparr>mf_tcp = True, mf_udp = False, mf_file = None\<rparr> = Some TcpMode
     \<and> selected \<lparr>mf_tcp = False, mf_udp = True, mf_file = None\<rparr> = Some UdpMode
     \<and> selected \<lparr>mf_tcp = False, mf_udp = False, mf_file = Some ''x.iso''\<rparr> = Some FileMode"

definition mode_display_is_uppercase :: bool where
  "mode_display_is_uppercase \<longleftrightarrow>
     mode_display TcpMode = ''TCP'' \<and> mode_display UdpMode = ''UDP'' \<and> mode_display FileMode = ''FILE''"

definition parse_bitrate_suffixes :: bool where
  "parse_bitrate_suffixes \<longleftrightarrow>
     parse_bitrate (chars_of ''1G'') = Inr 1000000000
     \<and> parse_bitrate (chars_of ''500M'') = Inr 500000000
     \<and> parse_bitrate (chars_of ''10M'') = Inr 10000000
     \<and> parse_bitrate (chars_of ''64K'') = Inr 64000
     \<and> parse_bitrate (chars_of ''1000'') = Inr 1000"

definition parse_bitrate_case_and_fraction :: bool where
  "parse_bitrate_case_and_fraction \<longleftrightarrow>
     parse_bitrate (chars_of ''1g'') = Inr 1000000000
     \<and> parse_bitrate (chars_of ''2.5M'') = Inr 2500000
     \<and> parse_bitrate (chars_of ''0.5G'') = Inr 500000000"

definition parse_bitrate_rejects_bad_input :: bool where
  "parse_bitrate_rejects_bad_input \<longleftrightarrow>
     is_err (parse_bitrate (chars_of ''abc'')) \<and> is_err (parse_bitrate (chars_of ''''))
     \<and> is_err (parse_bitrate (chars_of ''-5M'')) \<and> is_err (parse_bitrate (chars_of ''1.2.3''))"

definition cli_tests :: bool where
  "cli_tests \<longleftrightarrow> format_render_units \<and> mode_flags_selected \<and> mode_display_is_uppercase
     \<and> parse_bitrate_suffixes \<and> parse_bitrate_case_and_fraction \<and> parse_bitrate_rejects_bad_input"

section \<open>\<open>meter.rs\<close>\<close>

definition bits_per_sec_basic :: bool where
  "bits_per_sec_basic \<longleftrightarrow>
     bits_per_sec 1000 (Fin 1) = Fin 8000 \<and> bits_per_sec 125000000 (Fin 1) = Fin 1000000000"

definition bits_per_sec_guards_zero_duration :: bool where
  "bits_per_sec_guards_zero_duration \<longleftrightarrow>
     bits_per_sec 1000 (Fin 0) = Fin 0 \<and> bits_per_sec 1000 (Fin (- 1)) = Fin 0"

definition payload_preview_format :: bool where
  "payload_preview_format \<longleftrightarrow>
     (let s = payload_preview (fill_random (replicate 256 0) 1)
      in s \<noteq> [] \<and> is_ascii_hexdigit (hd s) \<and> contains ''distinct byte values'' s
         \<and> contains ''1/256 distinct'' (payload_preview (replicate 64 0)))"

definition fill_random_varies_by_seed :: bool where
  "fill_random_varies_by_seed \<longleftrightarrow> fill_random (replicate 4096 0) 1 \<noteq> fill_random (replicate 4096 0) 2"

definition fill_random_handles_remainder :: bool where
  "fill_random_handles_remainder \<longleftrightarrow> list_ex (\<lambda>b. b \<noteq> 0) (fill_random (replicate 13 0) 7)"

definition meter_tests :: bool where
  "meter_tests \<longleftrightarrow> bits_per_sec_basic \<and> bits_per_sec_guards_zero_duration \<and> payload_preview_format
     \<and> fill_random_varies_by_seed \<and> fill_random_handles_remainder"

section \<open>\<open>modes/udp.rs\<close>\<close>

definition packets_per_tick_math :: bool where
  "packets_per_tick_math \<longleftrightarrow>
     (let ppt = packets_per_tick 1000000000 1472 1000;
          rate = fmul (fmul ppt (fmul (Fin 1472) (Fin 8))) (Fin 1000)
      in flt (fabs (fsub ppt (round64 (8492 / 100)))) (round64 (1 / 100))
         \<and> flt (fabs (fsub rate (round64 1000000000))) (Fin 1))"

definition packets_per_tick_low_rate :: bool where
  "packets_per_tick_low_rate \<longleftrightarrow>
     (let ppt = packets_per_tick 64000 1472 1000 in flt ppt (Fin 1) \<and> flt (Fin 0) ppt)"

definition stamp_unstamp_roundtrip :: bool where
  "stamp_unstamp_roundtrip \<longleftrightarrow>
     (case stamp (replicate 32 0) 12345 678900000 of
        None \<Rightarrow> False
      | Some buf \<Rightarrow> unstamp buf = Some (12345, 678900000))"

definition unstamp_rejects_short_datagram :: bool where
  "unstamp_rejects_short_datagram \<longleftrightarrow> unstamp (replicate 8 0) = None"

text \<open>Datagrams of 100 bytes, sent every microsecond, each 500 nanoseconds on its way.\<close>

definition lockstep :: "u64 list \<Rightarrow> packet list" where
  "lockstep ns = map (\<lambda>seq. \<lparr>pk_seq = seq, pk_send = seq * 1000, pk_recv = seq * 1000 + 500, pk_len = 100\<rparr>) ns"

definition result_after :: "u64 \<Rightarrow> u64 list \<Rightarrow> test_result option" where
  "result_after w ns = do { lj \<leftarrow> observe_all Debug (lj_new w) (lockstep ns); into_result Debug lj (Fin 1) }"

definition perfect_stream_has_no_loss_or_jitter :: bool where
  "perfect_stream_has_no_loss_or_jitter \<longleftrightarrow>
     (case result_after 0 (map word_of_int [0..99]) of
        None \<Rightarrow> False
      | Some r \<Rightarrow> packets_lost r = Some 0 \<and> packets_received r = Some 100
          \<and> (case jitter_ms r of None \<Rightarrow> False | Some j \<Rightarrow> flt j (round64 (1 / 1000000))))"

definition sequence_gap_is_loss :: bool where
  "sequence_gap_is_loss \<longleftrightarrow>
     (case result_after 0 [0, 1, 2, 5, 6] of
        None \<Rightarrow> False
      | Some r \<Rightarrow> packets_expected r = Some 7 \<and> packets_received r = Some 5 \<and> packets_lost r = Some 2)"

definition warmup_packets_excluded :: bool where
  "warmup_packets_excluded \<longleftrightarrow>
     (case result_after 10 (map word_of_int [0..19]) of
        None \<Rightarrow> False
      | Some r \<Rightarrow> packets_received r = Some 10 \<and> packets_expected r = Some 10 \<and> packets_lost r = Some 0)"

definition udp_tests :: bool where
  "udp_tests \<longleftrightarrow> packets_per_tick_math \<and> packets_per_tick_low_rate \<and> stamp_unstamp_roundtrip
     \<and> unstamp_rejects_short_datagram \<and> perfect_stream_has_no_loss_or_jitter \<and> sequence_gap_is_loss
     \<and> warmup_packets_excluded"

section \<open>\<open>proto.rs\<close>\<close>

definition sample_negotiate :: msg where
  "sample_negotiate =
     Negotiate \<lparr>mode = Udp, duration_secs = 10, warmup_secs = 1, parallel = 4, buffer_bytes = 65536, bidir = True,
       bitrate_bps = Some 1000000000, packet_bytes = Some 1472, file_len = None, null_source = None\<rparr>"

definition sample_result :: msg where
  "sample_result =
     Result \<lparr>role = Receive, r_bytes = 1234, r_duration_secs = Fin 10, r_bits_per_sec = round64 (9876 / 10),
       r_bytes_per_sec = round64 (1234 / 10), packets_expected = Some 100, packets_received = Some 98,
       packets_lost = Some 2, loss_ratio = Some (round64 (2 / 100)), jitter_ms = Some (Fin (1 / 2)),
       samples = [\<lparr>s_t_secs = Fin 1, s_bytes = 100, s_bits_per_sec = Fin 800, s_packets_lost = Some 1,
         s_jitter_ms = Some (round64 (4 / 10))\<rparr>]\<rparr>"

definition cases :: "msg list" where
  "cases =
     [Hello \<lparr>h_protocol_version = PROTOCOL_VERSION, h_client_version = ''0.1.0'', h_nonce = 42\<rparr>,
      Welcome \<lparr>w_protocol_version = PROTOCOL_VERSION, w_server_version = ''0.1.0'', w_nonce = 42, w_accepted = True\<rparr>,
      sample_negotiate, Start \<lparr>data_port = 5202, server_seed = 7\<rparr>, Run, Stop, sample_result, Error VersionMismatch]"

text \<open>What a test's \<open>Vec\<close> holds after a message was written to it.\<close>

definition test_buffer :: "codec \<Rightarrow> msg \<Rightarrow> bytes io_result" where
  "test_buffer c m = (case write_msg c stream_ops (mem_stream []) m of (Inl e, s) \<Rightarrow> Inl e | (Inr _, s) \<Rightarrow> Inr (outbox s))"

text \<open>The test compares the JSON of the two messages; here they are compared themselves.\<close>

definition roundtrip_all_variants :: "codec \<Rightarrow> bool" where
  "roundtrip_all_variants c \<longleftrightarrow>
     list_all (\<lambda>original. case test_buffer c original of
         Inl e \<Rightarrow> False
       | Inr buf \<Rightarrow> fst (read_msg c stream_read_exact (mem_stream buf)) = Inr original) cases"

definition frame_has_be_length_prefix :: "codec \<Rightarrow> bool" where
  "frame_has_be_length_prefix c \<longleftrightarrow>
     (case test_buffer c Run of
        Inl e \<Rightarrow> False
      | Inr buf \<Rightarrow> unat (u32_from_be (take 4 buf)) = length buf - 4 \<and> drop 4 buf = ascii ''{\"type\":\"Run\"}'')"

definition oversized_declared_length_is_rejected :: "codec \<Rightarrow> bool" where
  "oversized_declared_length_is_rejected c \<longleftrightarrow>
     (case fst (read_msg c stream_read_exact (mem_stream (u32_to_be (MAX_FRAME_BYTES + 1) @ ascii ''ignored''))) of
        Inl err \<Rightarrow> kind err = InvalidData
      | Inr m \<Rightarrow> False)"

definition proto_tests :: "codec \<Rightarrow> bool" where
  "proto_tests c \<longleftrightarrow> roundtrip_all_variants c \<and> frame_has_be_length_prefix c
     \<and> oversized_declared_length_is_rejected c"

section \<open>The tests pass\<close>

lemma round64_numeral: "numeral k \<le> (2 ^ 53 :: nat) \<Longrightarrow> round64 (numeral k) = Fin (numeral k)"
  using round64_nat [of "numeral k"] by simp

lemma round64_small: "round64 1 = Fin 1" "round64 (5 / 2) = Fin (5 / 2)" "round64 (1 / 2) = Fin (1 / 2)"
  by code_simp+

lemma show_digit: "digit_char 0 = CHR ''0''" "digit_char (Suc 0) = CHR ''1''" "digit_char 2 = CHR ''2''"
    "digit_char 5 = CHR ''5''"
  by code_simp+

lemmas exact_simps = round64_numeral round64_small fmul_def fdiv_def signed_zero_def Let_def

lemmas parse_simps = exact_simps parse_bitrate_def chars_of_def trim_def is_whitespace_def bitrate_suffix_def
  parse_f64_def to_ascii_lowercase_def parse_number_def parse_exponent_def is_digit_def digits_value_def

lemma cli_render: format_render_units
  by (simp add: format_render_units_def exact_simps fixed_rat_def rne_def show_nat.simps pad_left_def show_digit)

lemma cli_modes: mode_flags_selected mode_display_is_uppercase
  by code_simp+

lemma cli_parse: parse_bitrate_suffixes parse_bitrate_case_and_fraction parse_bitrate_rejects_bad_input
  by (simp_all add: parse_bitrate_suffixes_def parse_bitrate_case_and_fraction_def
      parse_bitrate_rejects_bad_input_def parse_simps is_err_def)

lemma udp_pacing: packets_per_tick_math
  by code_simp

lemma udp_pacing_low: packets_per_tick_low_rate
  by code_simp

lemma udp_header: stamp_unstamp_roundtrip unstamp_rejects_short_datagram
  by code_simp+

lemma udp_gap: sequence_gap_is_loss
  by code_simp

lemma udp_warmup: warmup_packets_excluded
  by code_simp

text \<open>A hundred datagrams, evaluated one by one.\<close>

lemma step_simps:
  "uadd Debug 0 b = Some (b :: u64)"
  "uadd Debug (numeral m) (numeral n) =
     (if 2 ^ 64 \<le> uint (numeral m :: u64) + uint (numeral n :: u64) then None else Some (numeral m + numeral n :: u64))"
  "uadd Debug (numeral m) 1 = (if 2 ^ 64 \<le> uint (numeral m :: u64) + 1 then None else Some (numeral m + 1 :: u64))"
  "uadd Debug 1 1 = Some (2 :: u64)"
  using unsigned_less [of b, where 'a = nat] by (simp add: uadd_def) (simp_all add: uadd_code)

lemma jitter_0: "smooth (Fin 0) (i64_to_f64 0) = Fin 0" "flt (Fin 0) (round64 (1 / 1000000))"
    "fdiv (Fin 0) (Fin 1000000) = Fin 0"
  by code_simp+

lemma udp_perfect: perfect_stream_has_no_loss_or_jitter
  by (simp add: perfect_stream_has_no_loss_or_jitter_def result_after_def upto.simps lockstep_def lj_new_def
      observe_def step_simps jitter_0 ssub_def sabs_def usub_def into_result_def expected_def
      saturating_sub_def Let_def)

lemma meter_rates: bits_per_sec_basic bits_per_sec_guards_zero_duration
  by code_simp+

lemma meter_remainder: fill_random_handles_remainder
  by code_simp

lemma meter_seeds: fill_random_varies_by_seed
  using fill_random_seeds_differ [of "replicate 4096 0" 1 2] by (auto simp: fill_random_varies_by_seed_def)

lemma containsI: "contains t (a @ t @ b)"
  by (auto simp: contains_def list_ex_iff intro!: bexI [of _ "length a"])

lemma hd_trimmed: "\<not> P h \<Longrightarrow> hd (rev (dropWhile P (rev (h # t))) @ r) = h"
  by (simp add: dropWhile_append)

lemma hex_digit_ok: "n < 16 \<Longrightarrow> is_ascii_hexdigit (hex_digit n) \<and> hex_digit n \<noteq> CHR '' ''"
proof -
  assume "n < 16"
  then have "n \<in> set [0..<16]" by simp
  moreover have "list_all (\<lambda>n. is_ascii_hexdigit (hex_digit n) \<and> hex_digit n \<noteq> CHR '' '') [0..<16]" by code_simp
  ultimately show ?thesis by (simp add: list_all_iff)
qed

lemma preview_hd:
  assumes "buf \<noteq> []"
  shows "is_ascii_hexdigit (hd (payload_preview buf))"
proof -
  obtain b bs where t: "take (min (length buf) 16) buf = b # bs" using assms by (cases buf) simp_all
  have "unat b div 16 < 16" using unsigned_less [of b, where 'a = nat] by simp
  note H = hex_digit_ok [OF this]
  obtain h where h: "concat (map hex_byte (b # bs)) = hex_digit (unat b div 16) # h" by (simp add: hex_byte_def)
  obtain r where "payload_preview buf = rev (dropWhile (\<lambda>c. c = CHR '' '') (rev (concat (map hex_byte (b # bs))))) @ r"
    by (simp only: payload_preview_def Let_def t append.assoc)
  then show ?thesis unfolding h using H hd_trimmed by metis
qed

lemma preview_values: "contains ''distinct byte values'' (payload_preview buf)"
proof -
  have "\<exists>a. payload_preview buf = a @ ''distinct byte values'' @ '')''" by (simp add: payload_preview_def Let_def)
  then show ?thesis using containsI by metis
qed

lemma preview_zeros: "contains ''1/256 distinct'' (payload_preview (replicate 64 0))"
proof -
  have "\<exists>a. payload_preview (replicate 64 0) = a @ ''1/256 distinct'' @ '' byte values)''"
    by (simp add: payload_preview_def Let_def show_nat.simps show_digit)
  then show ?thesis using containsI by metis
qed

lemma preview_nonempty: "payload_preview buf \<noteq> []"
  by (simp add: payload_preview_def Let_def)

lemma meter_preview: payload_preview_format
proof -
  have "fill_random (replicate 256 0) 1 \<noteq> []" by (metis length_fill_random length_replicate list.size(3) zero_neq_numeral)
  then show ?thesis
    unfolding payload_preview_format_def Let_def
    by (intro conjI preview_nonempty preview_hd preview_values preview_zeros)
qed

section \<open>The tests of the framing, for any encoding\<close>

lemma written_frame:
  assumes "to_vec c m = Inr payload" "length payload \<le> 65536"
  shows "test_buffer c m = Inr (frame payload)"
proof -
  have f: "fits c m" using assms by (simp add: fits_def unat_MAX_FRAME_BYTES)
  have "room (mem_stream []) = None" by (simp add: mem_stream_def)
  then obtain w' where w: "write_msgs c stream_ops (mem_stream []) [m] = (Inr (), w')"
    "outbox w' = outbox (mem_stream []) @ frame_of c m"
    using snk.write_msgs_healthy [of "mem_stream []" "[m]" c] f by auto
  have "write_msg c stream_ops (mem_stream []) m = (Inr (), w')" using w(1) by (auto split: prod.splits sum.splits)
  with w(2) show ?thesis by (simp add: test_buffer_def frame_of_def assms(1) mem_stream_def)
qed

lemma read_written:
  assumes "decodes c m" "fits c m"
  shows "\<exists>buf. test_buffer c m = Inr buf \<and> fst (read_msg c stream_read_exact (mem_stream buf)) = Inr m"
proof -
  obtain payload where p: "to_vec c m = Inr payload" "from_slice c payload = Inr m" "length payload \<le> 65536"
    using assms by (auto simp: decodes_def fits_def unat_MAX_FRAME_BYTES split: sum.splits)
  have "inbox (mem_stream (frame payload)) = frame payload @ []" by (simp add: mem_stream_def)
  from src.read_msg_frame [OF this p(3), of c] p(2) show ?thesis
    using written_frame [OF p(1,3)] by auto
qed

lemma oversized_rejected: "oversized_declared_length_is_rejected c"
proof -
  have "inbox (mem_stream (u32_to_be (MAX_FRAME_BYTES + 1) @ ascii ''ignored''))
      = u32_to_be (MAX_FRAME_BYTES + 1) @ ascii ''ignored''" by (simp add: mem_stream_def)
  moreover have "MAX_FRAME_BYTES < MAX_FRAME_BYTES + 1" by (simp add: MAX_FRAME_BYTES_def)
  ultimately obtain r' where r: "read_msg c stream_read_exact (mem_stream (u32_to_be (MAX_FRAME_BYTES + 1) @ ascii ''ignored''))
      = (Inl (IoError InvalidData ''declared frame length exceeds MAX_FRAME_BYTES''), r')"
    using src.read_msg_oversized by blast
  show ?thesis unfolding oversized_declared_length_is_rejected_def r by simp
qed

lemma proto_tests_hold:
  assumes "\<forall>m\<in>set cases. decodes c m \<and> fits c m" and "to_vec c Run = Inr (ascii ''{\"type\":\"Run\"}'')"
  shows "proto_tests c"
proof -
  have "roundtrip_all_variants c"
    unfolding roundtrip_all_variants_def list_all_iff
  proof
    fix m assume "m \<in> set cases"
    then obtain buf where "test_buffer c m = Inr buf" "fst (read_msg c stream_read_exact (mem_stream buf)) = Inr m"
      using read_written assms(1) by blast
    then show "case test_buffer c m of Inl e \<Rightarrow> False
        | Inr buf \<Rightarrow> fst (read_msg c stream_read_exact (mem_stream buf)) = Inr m" by simp
  qed
  moreover have "frame_has_be_length_prefix c"
    using written_frame [OF assms(2)] by (simp add: frame_has_be_length_prefix_def frame_def ascii_def length_word)
  ultimately show ?thesis using oversized_rejected by (simp add: proto_tests_def)
qed

text \<open>A codec of these messages: \<open>Run\<close> as JSON, the others by their number.\<close>

definition test_codec :: codec where
  "test_codec =
     \<lparr>to_vec = (\<lambda>m. if m = Run then Inr (ascii ''{\"type\":\"Run\"}'')
                  else Inr [of_nat (length (takeWhile (\<lambda>x. x \<noteq> m) cases))]),
      from_slice = (\<lambda>bs. if bs = ascii ''{\"type\":\"Run\"}'' then Inr Run else Inr (cases ! unat (hd bs)))\<rparr>"

text \<open>
  The tests hold: those of the command line, the meter and the UDP measurement as they are, and those
  of the framing for every encoding of the messages that can read back what it writes for the tests'
  eight messages, within the cap, and writes \<open>Run\<close> as the test has it.
\<close>

lemma unit_tests_pass:
  assumes "\<forall>m\<in>set cases. decodes c m \<and> fits c m" and "to_vec c Run = Inr (ascii ''{\"type\":\"Run\"}'')"
  shows "cli_tests \<and> meter_tests \<and> udp_tests \<and> proto_tests c"
  unfolding cli_tests_def meter_tests_def udp_tests_def
  by (intro conjI proto_tests_hold [OF assms] cli_render cli_modes cli_parse meter_rates meter_preview meter_seeds
      meter_remainder udp_pacing udp_pacing_low udp_header udp_perfect udp_gap udp_warmup)

lemma unit_tests_pass_witness: "proto_tests test_codec"
proof (rule unit_tests_pass [THEN conjunct2, THEN conjunct2, THEN conjunct2])
  show "\<forall>m\<in>set cases. decodes test_codec m \<and> fits test_codec m"
    by (simp add: cases_def decodes_def fits_def test_codec_def ascii_def unat_MAX_FRAME_BYTES
        sample_negotiate_def sample_result_def)
qed (simp add: test_codec_def)

end
