(* ===== verification/Spec2Isabelle.thy ===== *)
theory Spec2Isabelle
  imports Prelude F64 Proto Timing Event_Loop Cli Meter LossJitter UdpServer UdpClient Udp TcpServer TcpClient Tcp
    FileServer FileClient FileTransfer Control Commuting Network SessionServer SessionClient Build_Profiles Results
    Protocol Phases Session Serving Program EndToEnd Unit_Tests
begin

text \<open>
  A model of andri, a LAN speed tester in Rust (the crate under \<open>src/src\<close>), and what is proved
  of it. A client connects to a server over a TCP control connection, the two agree on a
  measurement (TCP throughput, UDP loss and jitter, or a file transfer), the client sends data
  over separate connections, the server measures what arrives and sends its result back over
  the control connection, and the client prints it.

  \<^bold>\<open>Parts and theories.\<close> Each theory opens with the source it models.

  \<^item> \<open>Prelude\<close>: Rust's integers as words, the overflow behaviour of the two build profiles
    (a debug build panics, a release build wraps), saturating operations, byte orders, decimal
    text, \<open>io::Error\<close> and the outcome of a fallible function. \<open>F64\<close>: IEEE doubles as rationals
    with the special values, rounding to nearest even, and the casts, with the locale
    \<open>rounding\<close> for what the proofs need of rounding. \<open>Timing\<close>: \<open>Duration\<close> and \<open>Instant\<close>.
    \<open>Event_Loop\<close>: the locale \<open>event_loop\<close> of a receiver whose tasks act in any order, which the
    receivers for TCP and files are instances of.
  \<^item> \<open>Proto\<close> (\<open>proto.rs\<close>): the messages and their framing, over any byte stream that satisfies
    the locales \<open>byte_source\<close> and \<open>byte_sink\<close>, which a stream in memory that may fail at any
    byte does.
  \<^item> \<open>Cli\<close> (\<open>cli.rs\<close>): the parsed options, the selection of the mode, the bitrate parser and
    the rendering of rates.
  \<^item> \<open>Meter\<close> (\<open>meter.rs\<close>): counters, the payload generator, rates, and the sampler.
  \<^item> \<open>LossJitter\<close>, \<open>UdpServer\<close>, \<open>UdpClient\<close>, \<open>Udp\<close> (\<open>modes/udp.rs\<close>): the accumulator of loss
    and jitter, the receiver's select loop, the sender's paced loop, and both over a network
    that loses, reorders and delays.
  \<^item> \<open>TcpServer\<close>, \<open>TcpClient\<close>, \<open>Tcp\<close> (\<open>modes/tcp.rs\<close>): the receiver with its stream tasks, its
    sampler and its warm-up snapshot, the sender with its send loops, and both over a network
    that delivers a part of each stream.
  \<^item> \<open>FileServer\<close>, \<open>FileClient\<close>, \<open>FileTransfer\<close> (\<open>modes/file.rs\<close>): the receiver with its
    sampler, the sender from memory and from disk, and both together.
  \<^item> \<open>Control\<close>, \<open>Commuting\<close>, \<open>Network\<close>: what the control code is written in. A \<open>proc\<close> is an
    asynchronous function cut at its awaits; it can be read as a set of traces, run on a byte
    stream, or composed with another one over a connection. The locale \<open>commuting\<close> has the
    one fact about concurrency that is needed: when the steps of two components commute, every
    schedule is a part of every complete one.
  \<^item> \<open>SessionServer\<close>, \<open>SessionClient\<close> (\<open>session.rs\<close>, \<open>main.rs\<close>): both sides of a session, stage
    by stage, their dispatch to the data paths above, the accept loop, and the exit status.
    \<open>Results\<close>: the form of the results of the three data paths. \<open>Build_Profiles\<close>: the data paths
    in a debug and in a release build, with the locale \<open>same_loops\<close> that extends \<open>event_loop\<close> to
    two of them.
  \<^item> \<open>Protocol\<close>: the state machine of \<open>docs/protocol.md\<close> as a specification, with its phases in
    order, and how far both sides conform to it; \<open>Phases\<close>: the order of the messages. \<open>Session\<close>: client
    and server together, and the server on bytes. \<open>Serving\<close>: the accept loop over many clients.
    \<open>Program\<close>: the process, its exit status and its standard output.
    \<open>EndToEnd\<close>: whole tests, the session with both ends of a data path and a network between.
  \<^item> \<open>Unit_Tests\<close>: unit tests of the repository as propositions about the model, a check of its
    definitions.

  \<^bold>\<open>Correspondence.\<close> A struct is a record and an enum a datatype with the source's names (a
  prefix tells apart fields that several structs share). An asynchronous function that waits
  for several things at once is a function of the list of events in the order in which they
  happen (\<open>udp_event\<close>, \<open>tcp_event\<close>, \<open>file_event\<close>), and the theorems quantify over these
  lists: over all interleavings of the tasks and all behaviours of network and clock. A loop
  that reads the clock or the network takes the answers as a list. \<open>None\<close> as the value of such
  a function means that it is still waiting when the list ends; the theorems on termination
  say when it is not. Errors and panics are values (\<open>outcome\<close>).

  \<^bold>\<open>What is shown.\<close>

  \<^item> The channel: frames round-trip in order; oversized and truncated frames are errors; what a
    failed write leaves behind.
  \<^item> The session: client and server keep to the documented table of who may send what in which
    phase, whatever the other end does, but for two departures that the theorems name: the client
    sends \<open>Run\<close> before its data connections are open, and a server that is running takes any message
    and the loss of the connection for \<open>Stop\<close>. Together they always come to an end, under every schedule and every failure of
    the network, unless a data path does not; when nothing fails the client prints exactly the
    server's result. End to end: the loss that a UDP client prints is at most what the network
    dropped, a TCP client never prints more bytes than it put on the network, and a file transfer that yields
    a result has read exactly the announced bytes of the file. Results have the fields of their
    mode. Messages are sent in the order of the phases, each kind at most once.
  \<^item> The process: it exits with status 0 exactly when it has printed a result it received, as the
    only line on its standard output; a server that answers makes the client succeed.
  \<^item> The server over many clients: a failed session does not stop it. It validates no request,
    and defects are proved that follow: a request for a datagram of \<open>2 ^ 63\<close> bytes takes the
    process down, missing data connections and a file transfer that ends early make it wait
    forever, and the result of a long session exceeds the frame cap and is lost.
  \<^item> UDP: the loss formula and its bounds over a network; jitter is bounded by the differences
    of transit times and independent of the clock offset; reordering is not loss; the receiver
    reports exactly the accumulator's result; the sender's pacing and numbering.
  \<^item> TCP and files: results count exactly the bytes between warm-up and \<open>Stop\<close>, or exactly the
    negotiated length over the time from accept to the last byte; both receivers return; the file
    sender sends the file; the TCP sender sends whole copies of its payloads, up to a write that
    fails part-way, and returns unless a write stalls.
  \<^item> Builds: a result measured in a debug build is the one a release build measures.
  \<^item> Command line and metering: the bitrate parser (exact on integers, within two on decimals,
    no negative rates); a printed rate is right to half a unit of its last digit; the sampler's
    series adds up to the counters; payloads differ.

  \<^bold>\<open>Bounds and fuel.\<close> No function of the model uses fuel: loops recurse over the list of
  events, and the control functions are finite. \<open>usize\<close> is taken as 64 bits wide.

  \<^bold>\<open>Not modelled.\<close> The parser that \<open>clap\<close> derives (what its groups guarantee are the
  predicates \<open>role_group\<close> and \<open>mode_group\<close>); the JSON of \<open>serde_json\<close> (the parameter \<open>codec\<close>,
  with the hypotheses \<open>decodes\<close> and \<open>fits\<close>); sockets, files and the clock (their answers are
  parameters), the outcomes of binding and of \<open>metadata\<close> included; the \<open>tokio\<close> scheduler (any order of events); failure to
  allocate, and failing writes to the terminal; a reset of the control connection that
  discards bytes already queued; the instants between the reads of the several counters that one
  sample adds up, and between a read and the counting of its bytes (each is one event);
  \<open>modes/mod.rs\<close> (only module declarations); the unit tests that \<open>Unit_Tests\<close> names.
\<close>

end
